(* ===== verification/Errors.thy ===== *)
theory Errors
  imports Main
begin

text \<open>
  The error codes of the program (\<^verbatim>\<open>errors.rs\<close>). Every instruction reports a
  failure by one of these codes; Anchor numbers them from \<open>0x1770\<close> (6000) in the order of
  their declaration.
\<close>

section \<open>Error codes\<close>

datatype error_code =
    InvalidEnum
  | InvalidStartTick
  | TickArrayExistInPool
  | TickArrayIndexOutofBounds
  | InvalidTickSpacing
  | ClosePositionNotEmpty
  | DivideByZero
  | NumberCastError
  | NumberDownCastError
  | TickNotFound
  | InvalidTickIndex
  | SqrtPriceOutOfBounds
  | LiquidityZero
  | LiquidityTooHigh
  | LiquidityOverflow
  | LiquidityUnderflow
  | LiquidityNetError
  | TokenMaxExceeded
  | TokenMinSubceeded
  | MissingOrInvalidDelegate
  | InvalidPositionTokenAmount
  | InvalidTimestampConversion
  | InvalidTimestamp
  | InvalidTickArraySequence
  | InvalidTokenMintOrder
  | RewardNotInitialized
  | InvalidRewardIndex
  | RewardVaultAmountInsufficient
  | FeeRateMaxExceeded
  | ProtocolFeeRateMaxExceeded
  | MultiplicationShiftRightOverflow
  | MulDivOverflow
  | MulDivInvalidInput
  | MultiplicationOverflow
  | InvalidSqrtPriceLimitDirection
  | ZeroTradableAmount
  | AmountOutBelowMinimum
  | AmountInAboveMaximum
  | TickArraySequenceInvalidIndex
  | AmountCalcOverflow
  | AmountRemainingOverflow
  | InvalidIntermediaryMint
  | DuplicateTwoHopPool
  | InvalidBundleIndex
  | BundledPositionAlreadyOpened
  | BundledPositionAlreadyClosed
  | PositionBundleNotDeletable

end
