(* ===== verification/Prelude.thy ===== *)
theory Prelude
  imports Errors "HOL-Library.Word" "HOL-Library.Signed_Division"
begin

text \<open>
  Shared types, the result type of fallible code, the checked and wrapping integer
  operations of Rust's standard library, and the lemmas on words, naturals and results that
  every component uses.
\<close>

unbundle bit_operations_syntax

section \<open>Machine types\<close>

text \<open>
  Unsigned integers are words of their width: \<open>+\<close>, \<open>-\<close> and \<open>*\<close> wrap around, as they do in
  the program, which is built in the release profile without overflow checks (neither
  \<^verbatim>\<open>Cargo.toml\<close> has a profile section). Signed integers are HOL integers with the
  wrap-around written out where an operation can leave the range. A public key is its 32
  bytes read as one big-endian number, so that the order on words is the lexicographic order
  of the bytes.
\<close>

type_synonym u8 = "8 word"
type_synonym u16 = "16 word"
type_synonym u64 = "64 word"
type_synonym u128 = "128 word"
type_synonym i32 = int
type_synonym i64 = int
type_synonym i128 = int
type_synonym pubkey = "256 word"

section \<open>Faults and results\<close>

text \<open>
  \<open>Err e\<close> is an error return, \<open>Panic\<close> an abort (an index out of range, \<open>unwrap\<close> of an
  error, a division by zero, \<open>panic!\<close>), \<open>Constraint\<close> the rejection of an instruction by an
  account constraint before its handler runs, and \<open>Diverge\<close> the end of the fuel of a
  modelled loop (the theorems show that it never occurs).
\<close>

datatype fault = Err error_code | Panic | Constraint | Diverge

type_synonym 'a result = "fault + 'a"

abbreviation Ok :: "'a \<Rightarrow> 'a result" where
  "Ok \<equiv> Inr"

abbreviation Fail :: "error_code \<Rightarrow> 'a result" where
  "Fail e \<equiv> Inl (Err e)"

text \<open>Rust's \<open>?\<close>: go on with the value of a successful result, return the fault otherwise.\<close>

definition and_then :: "'a result \<Rightarrow> ('a \<Rightarrow> 'b result) \<Rightarrow> 'b result" where
  "and_then r f = (case r of Inl e \<Rightarrow> Inl e | Inr x \<Rightarrow> f x)"

definition ok_or :: "'a option \<Rightarrow> error_code \<Rightarrow> 'a result" where
  "ok_or x e = (case x of None \<Rightarrow> Fail e | Some y \<Rightarrow> Ok y)"

text \<open>A result that is a value.\<close>

definition is_ok :: "'a result \<Rightarrow> bool" where
  "is_ok r = (case r of Inl _ \<Rightarrow> False | Inr _ \<Rightarrow> True)"

text \<open>\<open>unwrap\<close> turns an error into a panic; \<open>unwrap_or\<close> replaces an error by a value.\<close>

definition unwrap :: "'a result \<Rightarrow> 'a result" where
  "unwrap r = (case r of Inl (Err e) \<Rightarrow> Inl Panic | _ \<Rightarrow> r)"

definition unwrap_or :: "'a result \<Rightarrow> 'a \<Rightarrow> 'a result" where
  "unwrap_or r d = (case r of Inl (Err e) \<Rightarrow> Ok d | _ \<Rightarrow> r)"

lemma and_then_simps [simp]:
  "and_then (Inl e) f = Inl e"
  "and_then (Inr x) f = f x"
  by (simp_all add: and_then_def)

lemma and_then_Inr_iff:
  "and_then r f = Inr y \<longleftrightarrow> (\<exists>x. r = Inr x \<and> f x = Inr y)"
  by (cases r) auto

lemma and_then_Inl_iff:
  "and_then r f = Inl e \<longleftrightarrow> r = Inl e \<or> (\<exists>x. r = Inr x \<and> f x = Inl e)"
  by (cases r) auto

lemma is_ok_iff: "is_ok r \<longleftrightarrow> (\<exists>x. r = Ok x)"
  by (cases r) (simp_all add: is_ok_def)

lemma is_ok_pair_iff: "is_ok r \<longleftrightarrow> (\<exists>a b. r = Ok (a, b))"
  by (cases r) (simp_all add: is_ok_def)

lemma and_then_assoc: "and_then (and_then r f) g = and_then r (\<lambda>x. and_then (f x) g)"
  by (cases r) simp_all

lemma and_then_cong [fundef_cong]:
  "r = r' \<Longrightarrow> (\<And>x. r' = Inr x \<Longrightarrow> f x = f' x) \<Longrightarrow> and_then r f = and_then r' f'"
  by (cases r') simp_all

lemma ok_or_simps [simp]:
  "ok_or None e = Fail e"
  "ok_or (Some x) e = Ok x"
  by (simp_all add: ok_or_def)

lemma ok_or_Inr_iff [simp]: "ok_or x e = Inr y \<longleftrightarrow> x = Some y"
  by (cases x) simp_all

lemma unwrap_simps [simp]:
  "unwrap (Inr x) = Inr x"
  "unwrap (Inl (Err e)) = Inl Panic"
  "unwrap (Inl Panic) = Inl Panic"
  by (simp_all add: unwrap_def)

lemma unwrap_Inr_iff [simp]: "unwrap r = Inr x \<longleftrightarrow> r = Inr x"
  by (simp add: unwrap_def split: sum.splits fault.splits)

lemma unwrap_or_simps [simp]:
  "unwrap_or (Inr x) d = Inr x"
  "unwrap_or (Inl (Err e)) d = Inr d"
  "unwrap_or (Inl Panic) d = Inl Panic"
  by (simp_all add: unwrap_or_def)

section \<open>Checked arithmetic\<close>

definition checked_add :: "'a::len word \<Rightarrow> 'a word \<Rightarrow> 'a word option" where
  "checked_add a b = (if unat a + unat b < 2 ^ LENGTH('a) then Some (a + b) else None)"

definition checked_sub :: "'a::len word \<Rightarrow> 'a word \<Rightarrow> 'a word option" where
  "checked_sub a b = (if b \<le> a then Some (a - b) else None)"

definition checked_mul :: "'a::len word \<Rightarrow> 'a word \<Rightarrow> 'a word option" where
  "checked_mul a b = (if unat a * unat b < 2 ^ LENGTH('a) then Some (a * b) else None)"

text \<open>\<open>overflowing_sub\<close>: the wrapped difference and whether it wrapped.\<close>

definition overflowing_sub :: "'a::len word \<Rightarrow> 'a word \<Rightarrow> 'a word \<times> bool" where
  "overflowing_sub a b = (a - b, a < b)"

text \<open>\<open>TryInto<u64>\<close> for a \<open>u128\<close>; \<open>TryFromIntError\<close> converts to \<open>NumberCastError\<close>.\<close>

definition try_into_u64 :: "u128 \<Rightarrow> u64 result" where
  "try_into_u64 x = (if unat x < 2 ^ 64 then Ok (ucast x) else Fail NumberCastError)"

text \<open>Two's complement wrap-around of signed integers, and their ranges.\<close>

definition wrap_signed :: "nat \<Rightarrow> int \<Rightarrow> int" where
  "wrap_signed w x = (x + 2 ^ (w - 1)) mod 2 ^ w - 2 ^ (w - 1)"

definition in_signed :: "nat \<Rightarrow> int \<Rightarrow> bool" where
  "in_signed w x \<longleftrightarrow> - (2 ^ (w - 1)) \<le> x \<and> x < 2 ^ (w - 1)"

abbreviation wrap_i32 :: "int \<Rightarrow> i32" where
  "wrap_i32 \<equiv> wrap_signed 32"

abbreviation wrap_i128 :: "int \<Rightarrow> i128" where
  "wrap_i128 \<equiv> wrap_signed 128"

definition checked_signed :: "nat \<Rightarrow> int \<Rightarrow> int option" where
  "checked_signed w x = (if in_signed w x then Some x else None)"

text \<open>Code equations on integers, which evaluate by binary arithmetic.\<close>

lemma checked_add_code [code]:
  "checked_add a (b :: 'a::len word) = (if uint a + uint b < 2 ^ LENGTH('a) then Some (a + b) else None)"
proof -
  have "unat a + unat b < 2 ^ LENGTH('a) \<longleftrightarrow> int (unat a + unat b) < int (2 ^ LENGTH('a))"
    by (rule of_nat_less_iff [symmetric])
  then show ?thesis by (simp add: checked_add_def)
qed

lemma checked_mul_code [code]:
  "checked_mul a (b :: 'a::len word) = (if uint a * uint b < 2 ^ LENGTH('a) then Some (a * b) else None)"
proof -
  have "unat a * unat b < 2 ^ LENGTH('a) \<longleftrightarrow> int (unat a * unat b) < int (2 ^ LENGTH('a))"
    by (rule of_nat_less_iff [symmetric])
  then show ?thesis by (simp add: checked_mul_def)
qed

lemma try_into_u64_code [code]:
  "try_into_u64 x = (if uint x < 2 ^ 64 then Ok (ucast x) else Fail NumberCastError)"
proof -
  have "unat x < 2 ^ 64 \<longleftrightarrow> int (unat x) < int (2 ^ 64)" by (rule of_nat_less_iff [symmetric])
  then show ?thesis by (simp add: try_into_u64_def)
qed

text \<open>Number of leading zero bits of a word.\<close>

definition leading_zeros :: "'a::len word \<Rightarrow> nat" where
  "leading_zeros w = length (takeWhile Not (map (bit w) (rev [0..<LENGTH('a)])))"

lemma wrap_signed_id: "0 < w \<Longrightarrow> in_signed w x \<Longrightarrow> wrap_signed w x = x"
proof -
  assume w: "0 < w" and x: "in_signed w x"
  have "(2::int) ^ w = 2 * 2 ^ (w - 1)"
    using w by (simp flip: power_Suc)
  then show ?thesis
    using x by (simp add: wrap_signed_def in_signed_def)
qed

lemma wrap_signed_range: "0 < w \<Longrightarrow> in_signed w (wrap_signed w x)"
proof -
  assume w: "0 < w"
  have *: "(2::int) ^ w = 2 * 2 ^ (w - 1)"
    using w by (simp flip: power_Suc)
  have "0 \<le> (x + 2 ^ (w - 1)) mod 2 ^ w" "(x + 2 ^ (w - 1)) mod 2 ^ w < 2 ^ w"
    by simp_all
  then show ?thesis
    unfolding wrap_signed_def in_signed_def using * by linarith
qed

lemma in_signed_numerals [simp]:
  "in_signed 32 x \<longleftrightarrow> -2147483648 \<le> x \<and> x < 2147483648"
  "in_signed 128 x \<longleftrightarrow> -170141183460469231731687303715884105728 \<le> x
     \<and> x < 170141183460469231731687303715884105728"
  by (simp_all add: in_signed_def)

lemma wrap_i32_id [simp]: "-2147483648 \<le> x \<Longrightarrow> x < 2147483648 \<Longrightarrow> wrap_i32 x = x"
  by (rule wrap_signed_id) simp_all

lemma wrap_i128_id [simp]:
  "-170141183460469231731687303715884105728 \<le> x \<Longrightarrow>
   x < 170141183460469231731687303715884105728 \<Longrightarrow> wrap_i128 x = x"
  by (rule wrap_signed_id) simp_all

section \<open>Words read as naturals\<close>

named_theorems unat_simps "values of word operations as naturals"

lemma unat_ucast_up: "LENGTH('a::len) \<le> LENGTH('b::len) \<Longrightarrow>
    unat (ucast (x::'a word) :: 'b word) = unat x"
  by (simp add: unsigned_ucast_eq take_bit_nat_eq_self order_less_le_trans [OF unsigned_less])

lemma unat_ucast_down: "unat (ucast (x::'a::len word) :: 'b::len word) = unat x mod 2 ^ LENGTH('b)"
  by (simp add: unsigned_ucast_eq take_bit_eq_mod)

lemma unat_push_bit:
  "unat (push_bit k (x::'a::len word)) = (unat x * 2 ^ k) mod 2 ^ LENGTH('a)"
  unfolding unsigned_push_bit_eq by (simp only: take_bit_eq_mod push_bit_eq_mult)

lemma unat_drop_bit: "unat (drop_bit k (x::'a::len word)) = unat x div 2 ^ k"
  unfolding unat_drop_bit_eq by (simp only: drop_bit_eq_div)

lemma unat_or_disjoint:
  "unat (x::'a::len word) < 2 ^ k \<Longrightarrow> 2 ^ k dvd unat y \<Longrightarrow> unat (y OR x) = unat y + unat x"
proof -
  assume x: "unat x < 2 ^ k" and y: "2 ^ k dvd unat y"
  have 1: "\<not> bit (unat x) n" if "k \<le> n" for n
    using x that by (metis bit_take_bit_iff linorder_not_le take_bit_nat_eq_self)
  have 2: "\<not> bit (unat y) n" if "n < k" for n
    using y that by (metis bit_push_bit_iff dvd_div_mult_self linorder_not_le push_bit_eq_mult)
  have "unat y OR unat x = unat y + unat x"
    by (rule disjunctive_add [symmetric]) (use 1 2 linorder_not_le in blast)
  then show ?thesis by (simp add: unsigned_or_eq)
qed

lemma unat_less_size: "unat (x::'a::len word) < 2 ^ LENGTH('a)"
  by (rule unsigned_less)
lemma unat_minus_wrap: "unat ((a::'a::len word) - b) = (unat a + 2 ^ LENGTH('a) - unat b) mod 2 ^ LENGTH('a)"
proof (cases "b \<le> a")
  case True
  then have "unat a + 2 ^ LENGTH('a) - unat b = 2 ^ LENGTH('a) + (unat a - unat b)"
    by (simp add: word_le_nat_alt)
  then show ?thesis using True unat_less_size[of a]
    by (simp add: unat_sub less_imp_diff_less)
next
  case False
  then have *: "unat a < unat b" by (simp add: word_le_nat_alt)
  then have "unat a + 2 ^ LENGTH('a) - unat b < 2 ^ LENGTH('a)"
    using unat_less_size[of b] by linarith
  then show ?thesis using *
    by (simp add: unat_sub_if')
qed
lemma bit_word_odd: "bit (w::'a::len word) k \<longleftrightarrow> odd (unat w div 2 ^ k)"
  by (simp add: bit_unsigned_iff flip: bit_nat_def)
lemma leading_zeros_bounds:
  fixes w :: "'a::len word"
  assumes "w \<noteq> 0"
  shows "leading_zeros w < LENGTH('a)"
    and "2 ^ (LENGTH('a) - 1 - leading_zeros w) \<le> unat w"
    and "unat w < 2 ^ (LENGTH('a) - leading_zeros w)"
proof -
  let ?n = "LENGTH('a)"
  have pos: "0 < unat w" using assms by (simp add: unat_gt_0)
  obtain m where lo: "2 ^ m \<le> unat w" and hi: "unat w < 2 ^ Suc m"
    using ex_power_ivl1 [of 2 "unat w"] pos by auto
  have "(2::nat) ^ m < 2 ^ ?n" using lo unat_less_size [of w] by linarith
  then have mn: "m < ?n" by simp
  have "unat w div 2 ^ m = 1"
    by (rule div_nat_eqI) (use lo hi in simp_all)
  then have bm: "bit w m" by (simp add: bit_word_odd)
  have bk: "\<not> bit w k" if "m < k" for k
  proof -
    have "(2::nat) ^ Suc m \<le> 2 ^ k"
      by (rule power_increasing) (use that in simp_all)
    then show ?thesis using hi by (simp add: bit_word_odd)
  qed
  have "[0..<?n] = [0..<m] @ m # [Suc m..<?n]"
    using mn upt_add_eq_append [of 0 m "?n - m"] by (simp add: upt_conv_Cons)
  then have *: "rev [0..<?n] = rev [Suc m..<?n] @ m # rev [0..<m]" by simp
  have "takeWhile Not (map (bit w) (rev [0..<?n])) = map (bit w) (rev [Suc m..<?n])"
    unfolding * map_append list.map using bm bk by (subst takeWhile_append2) auto
  then have lz: "leading_zeros w = ?n - Suc m" by (simp add: leading_zeros_def)
  then show "leading_zeros w < ?n" using mn by simp
  show "2 ^ (?n - 1 - leading_zeros w) \<le> unat w" using lz mn lo by simp
  show "unat w < 2 ^ (?n - leading_zeros w)" using lz mn hi by simp
qed

lemma unat_add_less:
  "unat (a::'a::len word) + unat b < 2 ^ LENGTH('a) \<Longrightarrow> unat (a + b) = unat a + unat b"
  by (simp add: unat_add_lem [THEN iffD1])

lemma unat_mult_less:
  "unat (a::'a::len word) * unat b < 2 ^ LENGTH('a) \<Longrightarrow> unat (a * b) = unat a * unat b"
  by (simp add: unat_mult_lem [THEN iffD1])

lemma checked_add_Some_iff:
  "checked_add a b = Some c \<longleftrightarrow> unat a + unat (b::'a::len word) < 2 ^ LENGTH('a)
     \<and> c = a + b \<and> unat c = unat a + unat b"
  by (auto simp: checked_add_def unat_add_less)

lemma checked_sub_Some_iff:
  "checked_sub a b = Some c \<longleftrightarrow> b \<le> a \<and> c = a - b \<and> unat c = unat a - unat (b::'a::len word)"
  by (auto simp: checked_sub_def unat_sub)

lemma checked_mul_Some_iff:
  "checked_mul a b = Some c \<longleftrightarrow> unat a * unat (b::'a::len word) < 2 ^ LENGTH('a)
     \<and> c = a * b \<and> unat c = unat a * unat b"
  by (auto simp: checked_mul_def unat_mult_less)

lemma try_into_u64_Inr_iff [simp]:
  "try_into_u64 x = Inr y \<longleftrightarrow> unat y = unat x"
proof
  assume "try_into_u64 x = Inr y"
  then show "unat y = unat x"
    by (auto simp: try_into_u64_def unat_ucast_down split: if_splits)
next
  assume *: "unat y = unat x"
  then have "unat x < 2 ^ 64" using unat_less_size [of y] by simp
  moreover have "(ucast x :: u64) = y"
    using * calculation by (simp add: word_unat_eq_iff unat_ucast_down)
  ultimately show "try_into_u64 x = Inr y" by (simp add: try_into_u64_def)
qed

lemmas unat_word_simps [unat_simps] =
  unat_ucast_down unat_push_bit unat_drop_bit unat_div unat_mod

end
