(* ===== verification/U256_Math.thy ===== *)
theory U256_Math
  imports Prelude
begin

text \<open>
  The 256-bit integer of \<^verbatim>\<open>math/u256_math.rs\<close>: four 64-bit words, least significant
  first. This theory holds the type, the word-wise loops (comparison, shifts, addition,
  subtraction, multiplication) and the 128 by 128 bit product \<open>mul_u256\<close>; the long division
  is in \<open>U256_Div\<close>. The functions are related to the value \<open>uval\<close> of a number.
\<close>

section \<open>Halves of a \<open>u128\<close>\<close>

definition lo :: "u128 \<Rightarrow> u64" where
  "lo x = ucast (x AND mask 64)"

definition hi :: "u128 \<Rightarrow> u64" where
  "hi x = ucast (drop_bit 64 x)"

definition lo_u128 :: "u128 \<Rightarrow> u128" where
  "lo_u128 x = x AND mask 64"

definition hi_u128 :: "u128 \<Rightarrow> u128" where
  "hi_u128 x = drop_bit 64 x"

definition hi_lo :: "u64 \<Rightarrow> u64 \<Rightarrow> u128" where
  "hi_lo h l = push_bit 64 (ucast h) OR ucast l"

section \<open>The type and its words\<close>

definition NUM_WORDS :: nat where
  "NUM_WORDS = 4"

definition U64_RESOLUTION :: nat where
  "U64_RESOLUTION = 64"

datatype u256 = U256Muldiv u64 u64 u64 u64

fun items :: "u256 \<Rightarrow> u64 list" where
  "items (U256Muldiv a b c d) = [a, b, c, d]"

definition u256_new :: "u128 \<Rightarrow> u128 \<Rightarrow> u256" where
  "u256_new h l = U256Muldiv (lo l) (hi l) (lo h) (hi h)"

text \<open>
  \<open>get_word\<close>, \<open>get_word_u128\<close> and \<open>update_word\<close> index the array; an index that is not below
  4 panics. The loops over \<open>0..NUM_WORDS\<close> use the total versions, whose index is in
  bounds by the loop's range; the division, whose indices are computed, uses the checked
  ones.
\<close>

definition get_word :: "u256 \<Rightarrow> nat \<Rightarrow> u64" where
  "get_word u i = items u ! i"

definition get_word_u128 :: "u256 \<Rightarrow> nat \<Rightarrow> u128" where
  "get_word_u128 u i = ucast (items u ! i)"

fun update_word :: "u256 \<Rightarrow> nat \<Rightarrow> u64 \<Rightarrow> u256" where
  "update_word (U256Muldiv a b c d) i v =
     U256Muldiv (if i = 0 then v else a) (if i = 1 then v else b)
       (if i = 2 then v else c) (if i = 3 then v else d)"

definition checked_get_word :: "u256 \<Rightarrow> nat \<Rightarrow> u64 result" where
  "checked_get_word u i = (if i < NUM_WORDS then Ok (get_word u i) else Inl Panic)"

definition checked_get_word_u128 :: "u256 \<Rightarrow> nat \<Rightarrow> u128 result" where
  "checked_get_word_u128 u i = (if i < NUM_WORDS then Ok (get_word_u128 u i) else Inl Panic)"

definition checked_update_word :: "u256 \<Rightarrow> nat \<Rightarrow> u64 \<Rightarrow> u256 result" where
  "checked_update_word u i v = (if i < NUM_WORDS then Ok (update_word u i v) else Inl Panic)"

text \<open>The number of words up to the highest one that is not zero.\<close>

fun num_words_loop :: "nat \<Rightarrow> u256 \<Rightarrow> nat" where
  "num_words_loop 0 u = 0"
| "num_words_loop (Suc i) u = (if items u ! i \<noteq> 0 then i + 1 else num_words_loop i u)"

definition num_words :: "u256 \<Rightarrow> nat" where
  "num_words u = num_words_loop (length (items u)) u"

section \<open>Shifts\<close>

definition shift_word_left :: "u256 \<Rightarrow> u256" where
  "shift_word_left u =
     fold (\<lambda>i r. update_word r (i + 1) (items u ! i)) (rev [0..<NUM_WORDS - 1]) (u256_new 0 0)"

definition checked_shift_word_left :: "u256 \<Rightarrow> u256 option" where
  "checked_shift_word_left u =
     (if last (items u) > 0 then None else Some (shift_word_left u))"

function shift_left_words :: "u256 \<Rightarrow> nat \<Rightarrow> u256 \<times> nat" where
  "shift_left_words r s =
     (if U64_RESOLUTION \<le> s then shift_left_words (shift_word_left r) (s - U64_RESOLUTION)
      else (r, s))"
  by pat_completeness auto
termination
  by (relation "measure snd") (auto simp: U64_RESOLUTION_def)

definition shift_left :: "u256 \<Rightarrow> nat \<Rightarrow> u256" where
  "shift_left u s =
     (if U64_RESOLUTION * NUM_WORDS \<le> s then u256_new 0 0
      else
        let (r, s) = shift_left_words u s in
        if s = 0 then r
        else
          let r = fold (\<lambda>i r. update_word r i
                    (push_bit s (items r ! i) OR drop_bit (U64_RESOLUTION - s) (items r ! (i - 1))))
                  (rev [1..<NUM_WORDS]) r
          in update_word r 0 (push_bit s (items r ! 0)))"

definition shift_word_right :: "u256 \<Rightarrow> u256" where
  "shift_word_right u =
     fold (\<lambda>i r. update_word r i (items u ! (i + 1))) [0..<NUM_WORDS - 1] (u256_new 0 0)"

function shift_right_words :: "u256 \<Rightarrow> nat \<Rightarrow> u256 \<times> nat" where
  "shift_right_words r s =
     (if U64_RESOLUTION \<le> s then shift_right_words (shift_word_right r) (s - U64_RESOLUTION)
      else (r, s))"
  by pat_completeness auto
termination
  by (relation "measure snd") (auto simp: U64_RESOLUTION_def)

definition shift_right :: "u256 \<Rightarrow> nat \<Rightarrow> u256" where
  "shift_right u s =
     (if U64_RESOLUTION * NUM_WORDS \<le> s then u256_new 0 0
      else
        let (r, s) = shift_right_words u s in
        if s = 0 then r
        else
          let r = fold (\<lambda>i r. update_word r i
                    (drop_bit s (items r ! i) OR push_bit (U64_RESOLUTION - s) (items r ! (i + 1))))
                  [0..<NUM_WORDS - 1] r
          in update_word r 3 (drop_bit s (items r ! 3)))"

declare shift_left_words.simps [simp del] shift_right_words.simps [simp del]

section \<open>Comparisons\<close>

fun eq_loop :: "nat list \<Rightarrow> u256 \<Rightarrow> u256 \<Rightarrow> bool" where
  "eq_loop [] a b = True"
| "eq_loop (i # is) a b = (if items a ! i \<noteq> items b ! i then False else eq_loop is a b)"

definition u256_eq :: "u256 \<Rightarrow> u256 \<Rightarrow> bool" where
  "u256_eq a b = eq_loop [0..<length (items a)] a b"

text \<open>
  The four order comparisons run over the words from the most significant one and differ in
  the answers for a smaller word, a greater word and the end of the loop.
\<close>

fun cmp_loop :: "bool \<Rightarrow> bool \<Rightarrow> bool \<Rightarrow> nat list \<Rightarrow> u256 \<Rightarrow> u256 \<Rightarrow> bool" where
  "cmp_loop on_less on_greater on_equal [] a b = on_equal"
| "cmp_loop on_less on_greater on_equal (i # is) a b =
     (if items a ! i < items b ! i then on_less
      else if items a ! i > items b ! i then on_greater
      else cmp_loop on_less on_greater on_equal is a b)"

definition u256_lt :: "u256 \<Rightarrow> u256 \<Rightarrow> bool" where
  "u256_lt a b = cmp_loop True False False (rev [0..<length (items a)]) a b"

definition u256_gt :: "u256 \<Rightarrow> u256 \<Rightarrow> bool" where
  "u256_gt a b = cmp_loop False True False (rev [0..<length (items a)]) a b"

definition u256_lte :: "u256 \<Rightarrow> u256 \<Rightarrow> bool" where
  "u256_lte a b = cmp_loop True False True (rev [0..<length (items a)]) a b"

definition u256_gte :: "u256 \<Rightarrow> u256 \<Rightarrow> bool" where
  "u256_gte a b = cmp_loop False True True (rev [0..<length (items a)]) a b"

fun is_zero_loop :: "nat list \<Rightarrow> u256 \<Rightarrow> bool" where
  "is_zero_loop [] u = True"
| "is_zero_loop (i # is) u = (if items u ! i \<noteq> 0 then False else is_zero_loop is u)"

definition is_zero :: "u256 \<Rightarrow> bool" where
  "is_zero u = is_zero_loop [0..<NUM_WORDS] u"

definition try_into_u128 :: "u256 \<Rightarrow> u128 result" where
  "try_into_u128 u =
     (if num_words u > 2 then Fail NumberDownCastError
      else Ok (push_bit U64_RESOLUTION (ucast (items u ! 1)) OR ucast (items u ! 0)))"

section \<open>Addition, subtraction, multiplication\<close>

definition u256_add :: "u256 \<Rightarrow> u256 \<Rightarrow> u256" where
  "u256_add a b = fst (fold (\<lambda>i (r, carry).
       let x = get_word_u128 a i; y = get_word_u128 b i; t = x + y + carry
       in (update_word r i (lo t), hi_u128 t)) [0..<NUM_WORDS] (u256_new 0 0, 0))"

definition u256_sub :: "u256 \<Rightarrow> u256 \<Rightarrow> u256" where
  "u256_sub a b = fst (fold (\<lambda>i (r, carry).
       let x = get_word a i; y = get_word b i;
           (t0, overflowing0) = overflowing_sub x y;
           (t1, overflowing1) = overflowing_sub t0 carry
       in (update_word r i t1, if overflowing0 \<or> overflowing1 then 1 else 0))
     [0..<NUM_WORDS] (u256_new 0 0, 0))"

definition get_add_inverse :: "u256 \<Rightarrow> u256" where
  "get_add_inverse u =
     (if u256_eq u (u256_new 0 0) then u256_new 0 0
      else u256_add (u256_sub (u256_new (-1) (-1)) u) (u256_new 0 1))"

definition mul_row :: "u256 \<Rightarrow> u256 \<Rightarrow> nat \<Rightarrow> nat \<Rightarrow> u256 \<Rightarrow> u256 \<times> u128" where
  "mul_row a b j m r = fold (\<lambda>i (r, k).
       if i + j < NUM_WORDS then
         let x = get_word_u128 a i; y = get_word_u128 b j; z = get_word_u128 r (i + j);
             t = x * y + z + k
         in (update_word r (i + j) (lo t), hi_u128 t)
       else (r, k)) [0..<m] (r, 0)"

definition u256_mul :: "u256 \<Rightarrow> u256 \<Rightarrow> u256" where
  "u256_mul a b =
     (let m = num_words a; n = num_words b
      in fold (\<lambda>j r. let (r, k) = mul_row a b j m r
                    in if j + m < NUM_WORDS then update_word r (j + m) (ucast k) else r)
           [0..<n] (u256_new 0 0))"

definition mul_u256 :: "u128 \<Rightarrow> u128 \<Rightarrow> u256" where
  "mul_u256 v n =
     (let c0 = lo_u128 v * lo_u128 n;
          a1 = lo_u128 v * hi_u128 n;
          b0 = hi_u128 v * lo_u128 n;
          c1 = hi_u128 c0 + lo_u128 a1 + lo_u128 b0;
          c0 = hi_lo (lo c1) (lo c0);
          c1 = hi_u128 v * hi_u128 n + hi_u128 c1 + hi_u128 a1 + hi_u128 b0
      in u256_new c1 c0)"

section \<open>Values of the halves\<close>

lemma unat_lo_u128 [unat_simps]: "unat (lo_u128 x) = unat x mod 2 ^ 64"
  unfolding lo_u128_def take_bit_eq_mask [symmetric] unsigned_take_bit_eq
  by (simp add: take_bit_eq_mod)
lemma unat_lo [unat_simps]: "unat (lo x) = unat x mod 2 ^ 64"
  using unat_lo_u128 [of x] by (simp add: lo_def lo_u128_def unat_ucast_down)
lemma unat_hi_u128 [unat_simps]: "unat (hi_u128 x) = unat x div 2 ^ 64"
  unfolding hi_u128_def unat_drop_bit ..
lemma unat_hi [unat_simps]: "unat (hi x) = unat x div 2 ^ 64"
proof -
  have "unat x div 2 ^ 64 < 2 ^ 64" using unat_less_size[of x] by (simp add: less_mult_imp_div_less)
  then show ?thesis unfolding hi_def unat_ucast_down unat_drop_bit by simp
qed
lemma unat_u64_less: "unat (x::u64) < 2^64"
  using unat_less_size[of x] by simp
lemma unat_ucast_u128 [unat_simps]: "unat (ucast (x::u64) :: u128) = unat x"
  by (rule unat_ucast_up) simp
lemma unat_hi_lo [unat_simps]: "unat (hi_lo h l) = unat h * 2 ^ 64 + unat l"
proof -
  have h: "unat (push_bit 64 (ucast h :: u128)) = unat h * 2 ^ 64"
    using unat_u64_less[of h] by (simp only: unat_push_bit unat_ucast_u128) simp
  show ?thesis unfolding hi_lo_def
    by (subst unat_or_disjoint [where k = 64]) (use h unat_u64_less [of l] in \<open>simp_all add: unat_ucast_u128\<close>)
qed

section \<open>The value of a number\<close>

fun uval :: "u256 \<Rightarrow> nat" where
  "uval (U256Muldiv a b c d) =
     unat a + 2 ^ 64 * unat b + 2 ^ 128 * unat c + 2 ^ 192 * unat d"

lemma uval_less: "uval u < 2 ^ 256"
proof (cases u)
  case (U256Muldiv a b c d)
  then show ?thesis
    using unat_u64_less [of a] unat_u64_less [of b] unat_u64_less [of c] unat_u64_less [of d]
    by simp
qed

lemma limbs_halves:
  "2 ^ 64 * qh + mh = (h::nat) \<Longrightarrow> 2 ^ 64 * ql + ml = l \<Longrightarrow>
   ml + 2 ^ 64 * ql + 2 ^ 128 * mh + 2 ^ 192 * qh = 2 ^ 128 * h + l"
  by simp

lemma uval_new: "uval (u256_new h l) = 2 ^ 128 * unat h + unat l"
  unfolding u256_new_def uval.simps unat_lo unat_hi
  by (rule limbs_halves) (rule mult_div_mod_eq)+

lemma range_words: "[0..<NUM_WORDS] = [0, 1, 2, 3]" "[0..<NUM_WORDS - 1] = [0, 1, 2]" "[1..<NUM_WORDS] = [1, 2, 3]"
  "[0..<NUM_WORDS - Suc 0] = [0, 1, 2]" "[Suc 0..<NUM_WORDS] = [1, 2, 3]"
  by (simp_all add: NUM_WORDS_def upt_rec)

subsection \<open>Addition and subtraction, modulo \<open>2 ^ 256\<close>\<close>

lemma add_limb:
  fixes x y :: u64 and c :: u128
  assumes c: "unat c \<le> 1"
  defines "t \<equiv> ucast x + ucast y + c"
  shows "unat (lo t) + 2 ^ 64 * unat (hi_u128 t) = unat x + unat y + unat c" "unat (hi_u128 t) \<le> 1"
proof -
  have xy: "unat (ucast x + ucast y :: u128) = unat x + unat y"
    using unat_u64_less[of x] unat_u64_less[of y] by (subst unat_add_less) (simp_all add: unat_ucast_u128)
  have t: "unat t = unat x + unat y + unat c"
    unfolding t_def using c unat_u64_less[of x] unat_u64_less[of y]
    by (subst unat_add_less) (simp_all add: xy)
  then show "unat (lo t) + 2 ^ 64 * unat (hi_u128 t) = unat x + unat y + unat c"
    by (simp add: unat_lo unat_hi_u128)
  have "unat t < 2 * 2 ^ 64" using t c unat_u64_less[of x] unat_u64_less[of y] by simp
  then show "unat (hi_u128 t) \<le> 1"
    unfolding unat_hi_u128 by (simp add: less_mult_imp_div_less less_Suc_eq_le [symmetric])
qed

lemma mod_eqI: "r + m * k = (x::nat) \<Longrightarrow> r < m \<Longrightarrow> r = x mod m"
  by (metis mod_less mod_mult_self2)

lemma uval_add: "uval (u256_add a b) = (uval a + uval b) mod 2 ^ 256"
proof (cases a; cases b)
  fix a0 a1 a2 a3 b0 b1 b2 b3
  assume a: "a = U256Muldiv a0 a1 a2 a3" and b: "b = U256Muldiv b0 b1 b2 b3"
  define t0 :: u128 where "t0 = ucast a0 + ucast b0 + 0"
  define t1 where "t1 = ucast a1 + ucast b1 + hi_u128 t0"
  define t2 where "t2 = ucast a2 + ucast b2 + hi_u128 t1"
  define t3 where "t3 = ucast a3 + ucast b3 + hi_u128 t2"
  have r: "u256_add a b = U256Muldiv (lo t0) (lo t1) (lo t2) (lo t3)"
    by (simp add: u256_add_def a b range_words get_word_u128_def u256_new_def t0_def t1_def t2_def t3_def Let_def)
  have z: "unat (0::u128) \<le> 1" by simp
  note 0 = add_limb [of 0 a0 b0, folded t0_def, OF z]
  note 1 = add_limb [of "hi_u128 t0" a1 b1, folded t1_def, OF 0(2)]
  note 2 = add_limb [of "hi_u128 t1" a2 b2, folded t2_def, OF 1(2)]
  note 3 = add_limb [of "hi_u128 t2" a3 b3, folded t3_def, OF 2(2)]
  have "uval (u256_add a b) + 2 ^ 256 * unat (hi_u128 t3) = uval a + uval b"
    using 0(1) 1(1) 2(1) 3(1) unfolding r unfolding a b by simp
  then show ?thesis by (rule mod_eqI) (rule uval_less)
qed

lemma sub_limb:
  fixes x y c :: u64
  assumes c: "unat c \<le> 1"
  defines "t0 \<equiv> x - y" defines "t1 \<equiv> t0 - c"
  defines "c' \<equiv> (if x < y \<or> t0 < c then 1 else 0 :: u64)"
  shows "unat t1 + unat y + unat c = unat x + 2 ^ 64 * unat c'" "unat c' \<le> 1"
proof -
  show "unat c' \<le> 1" by (simp add: c'_def)
  have t0: "unat t0 = (if x < y then unat x + 2 ^ 64 - unat y else unat x - unat y)"
    unfolding t0_def by (simp add: unat_sub_if' word_less_nat_alt not_less)
  have t1: "unat t1 = (if t0 < c then unat t0 + 2 ^ 64 - unat c else unat t0 - unat c)"
    unfolding t1_def by (simp add: unat_sub_if' word_less_nat_alt not_less)
  show "unat t1 + unat y + unat c = unat x + 2 ^ 64 * unat c'"
    using unat_u64_less[of x] unat_u64_less[of y] c t0 t1
    by (auto simp: c'_def word_less_nat_alt split: if_splits)
qed

lemma uval_sub: "uval (u256_sub a b) = (uval a + 2 ^ 256 - uval b) mod 2 ^ 256"
proof (cases a; cases b)
  fix a0 a1 a2 a3 b0 b1 b2 b3
  assume a: "a = U256Muldiv a0 a1 a2 a3" and b: "b = U256Muldiv b0 b1 b2 b3"
  define bor :: "u64 \<Rightarrow> u64 \<Rightarrow> u64 \<Rightarrow> u64" where "bor x y c = (if x < y \<or> x - y < c then 1 else 0)" for x y c
  define c0 where "c0 = bor a0 b0 0"
  define c1 where "c1 = bor a1 b1 c0"
  define c2 where "c2 = bor a2 b2 c1"
  define c3 where "c3 = bor a3 b3 c2"
  have r: "u256_sub a b = U256Muldiv (a0 - b0 - 0) (a1 - b1 - c0) (a2 - b2 - c1) (a3 - b3 - c2)"
    by (simp add: u256_sub_def a b range_words get_word_def u256_new_def overflowing_sub_def
        c0_def c1_def c2_def bor_def Let_def)
  note limb = sub_limb [folded bor_def]
  have z: "unat (0::u64) \<le> 1" by simp
  note 0 = limb [of 0 a0 b0, folded c0_def, OF z]
  note 1 = limb [of c0 a1 b1, folded c1_def, OF 0(2)]
  note 2 = limb [of c1 a2 b2, folded c2_def, OF 1(2)]
  note 3 = limb [of c2 a3 b3, folded c3_def, OF 2(2)]
  have *: "uval (u256_sub a b) + uval b = uval a + 2 ^ 256 * unat c3"
    using 0(1) 1(1) 2(1) 3(1) unfolding r unfolding a b by simp
  then show ?thesis using 3(2) uval_less [of "u256_sub a b"] uval_less [of a] uval_less [of b]
    by (cases "unat c3 = 0") (auto simp: le_Suc_eq mod_if)
qed

subsection \<open>The double-width product and the shifts\<close>

lemma div_eqI: "r * m + k = (x::nat) \<Longrightarrow> k < m \<Longrightarrow> r = x div m"
  by auto

lemma prod_halves:
  assumes "2 ^ 64 * vh + vl = (v::nat)" "2 ^ 64 * nh + nl = n"
    and "2 ^ 64 * hc0 + lc0 = vl * nl" "2 ^ 64 * ha1 + la1 = vl * nh" "2 ^ 64 * hb0 + lb0 = vh * nl"
    and "2 ^ 64 * hc1 + lc1 = hc0 + la1 + lb0"
  shows "2 ^ 128 * (vh * nh + hc1 + ha1 + hb0) + (lc1 * 2 ^ 64 + lc0) = v * n"
proof -
  have "v * n = 2 ^ 128 * (vh * nh) + 2 ^ 64 * (vl * nh) + 2 ^ 64 * (vh * nl) + vl * nl"
    unfolding assms(1,2) [symmetric] by (simp add: algebra_simps)
  then show ?thesis using assms(3-6) by simp
qed

lemma unat_mult_halves:
  "unat x < 2 ^ 64 \<Longrightarrow> unat y < 2 ^ 64 \<Longrightarrow> unat (x * y :: u128) = unat x * unat y"
proof (rule unat_mult_less)
  assume "unat x < 2 ^ 64" "unat y < 2 ^ 64"
  then have "unat x * unat y < 2 ^ 64 * 2 ^ 64" by (rule mult_strict_mono) simp_all
  then show "unat x * unat y < 2 ^ LENGTH(128)" by simp
qed

lemma unat_add3: "unat (a::'a::len word) + unat b + unat c < 2 ^ LENGTH('a) \<Longrightarrow>
   unat (a + b + c) = unat a + unat b + unat c"
  by (simp add: unat_add_less)

lemma uval_mul_u256: "uval (mul_u256 v n) = unat v * unat n"
proof -
  define c0 where "c0 = lo_u128 v * lo_u128 n"
  define a1 where "a1 = lo_u128 v * hi_u128 n"
  define b0 where "b0 = hi_u128 v * lo_u128 n"
  define d where "d = hi_u128 v * hi_u128 n"
  define c1 where "c1 = hi_u128 c0 + lo_u128 a1 + lo_u128 b0"
  define e where "e = d + hi_u128 c1 + hi_u128 a1 + hi_u128 b0"
  have lt: "unat (lo_u128 x) < 2 ^ 64" "unat (hi_u128 x) < 2 ^ 64" for x
    using unat_less_size [of x] by (simp_all add: unat_lo_u128 unat_hi_u128 less_mult_imp_div_less)
  have m: "unat c0 = unat (lo_u128 v) * unat (lo_u128 n)" "unat a1 = unat (lo_u128 v) * unat (hi_u128 n)"
    "unat b0 = unat (hi_u128 v) * unat (lo_u128 n)" "unat d = unat (hi_u128 v) * unat (hi_u128 n)"
    unfolding c0_def a1_def b0_def d_def by (rule unat_mult_halves; rule lt)+
  have c1: "unat c1 = unat (hi_u128 c0) + unat (lo_u128 a1) + unat (lo_u128 b0)"
    unfolding c1_def by (rule unat_add3) (use lt [of c0] lt [of a1] lt [of b0] in simp)
  have split: "2 ^ 64 * unat (hi_u128 x) + unat (lo_u128 x) = unat x" for x
    by (simp only: unat_lo_u128 unat_hi_u128 mult_div_mod_eq)
  have sum: "2 ^ 128 * (unat d + unat (hi_u128 c1) + unat (hi_u128 a1) + unat (hi_u128 b0))
      + (unat (lo_u128 c1) * 2 ^ 64 + unat (lo_u128 c0)) = unat v * unat n"
    unfolding m(4) by (rule prod_halves [OF split split]) (simp_all only: split m c1)
  have "unat v * unat n < 2 ^ 128 * 2 ^ 128"
    by (rule mult_strict_mono) (use unat_less_size [of v] unat_less_size [of n] in simp_all)
  then have "unat d + unat (hi_u128 c1) + unat (hi_u128 a1) + unat (hi_u128 b0) < 2 ^ 128"
    using sum by simp
  then have e: "unat e = unat d + unat (hi_u128 c1) + unat (hi_u128 a1) + unat (hi_u128 b0)"
    by (simp add: e_def unat_add_less)
  have "mul_u256 v n = u256_new e (hi_lo (lo c1) (lo c0))"
    by (simp add: mul_u256_def Let_def e_def d_def c1_def a1_def b0_def c0_def)
  then show ?thesis
    using sum by (simp add: uval_new e unat_hi_lo unat_lo unat_lo_u128)
qed

lemma unat_shl_or:
  fixes x y :: u64 assumes "0 < s" "s < 64"
  shows "unat (push_bit s x OR drop_bit (64 - s) y) =
    (unat x mod 2 ^ (64 - s)) * 2 ^ s + unat y div 2 ^ (64 - s)"
proof -
  have L: "LENGTH(64) = 64" by simp
  have p: "(2::nat) ^ 64 = 2 ^ (64 - s) * 2 ^ s" using assms by (simp flip: power_add)
  have 1: "unat (push_bit s x) = (unat x mod 2 ^ (64 - s)) * 2 ^ s"
    unfolding unat_push_bit L p by (rule mult_mod_left [symmetric])
  have "unat y < 2 ^ s * 2 ^ (64 - s)" using unat_u64_less [of y] p by (simp add: mult.commute)
  then have 2: "unat (drop_bit (64 - s) y) < 2 ^ s"
    unfolding unat_drop_bit by (rule less_mult_imp_div_less)
  show ?thesis by (subst unat_or_disjoint [OF 2]) (simp_all only: 1 unat_drop_bit dvd_triv_right)
qed

lemma uval_shift_word_left: "uval (shift_word_left u) = (uval u * 2 ^ 64) mod 2 ^ 256"
proof (cases u)
  case (U256Muldiv a b c d)
  have "uval (shift_word_left u) + 2 ^ 256 * unat d = uval u * 2 ^ 64"
    by (simp add: U256Muldiv shift_word_left_def range_words u256_new_def lo_def hi_def)
  then show ?thesis by (rule mod_eqI) (rule uval_less)
qed

lemma uval_shift_word_right: "uval (shift_word_right u) = uval u div 2 ^ 64"
proof (cases u)
  case (U256Muldiv a b c d)
  have "uval (shift_word_right u) * 2 ^ 64 + unat a = uval u"
    by (simp add: U256Muldiv shift_word_right_def range_words u256_new_def lo_def hi_def)
  then show ?thesis by (rule div_eqI) (rule unat_u64_less)
qed

lemma shift_left_words:
  "shift_left_words r s = (r', s') \<Longrightarrow> s' = s mod 64 \<and> uval r' = (uval r * 2 ^ (s - s mod 64)) mod 2 ^ 256"
proof (induction r s arbitrary: r' s' rule: shift_left_words.induct)
  case (1 r s)
  show ?case
  proof (cases "64 \<le> s")
    case True
    then have "shift_left_words (shift_word_left r) (s - 64) = (r', s')"
      using "1.prems" by (simp add: shift_left_words.simps [of r s] U64_RESOLUTION_def)
    then have IH: "s' = (s - 64) mod 64" "uval r' = (uval (shift_word_left r) * 2 ^ (s - 64 - (s - 64) mod 64)) mod 2 ^ 256"
      using "1.IH" [of r' s'] True by (simp_all add: U64_RESOLUTION_def)
    have m: "(s - 64) mod 64 = s mod 64" using True by (simp add: mod_if)
    have e: "64 + (s - 64 - s mod 64) = s - s mod 64"
      using True m by (metis add_diff_assoc le_add_diff_inverse mod_less_eq_dividend)
    have "uval r * 2 ^ 64 mod 2 ^ 256 * 2 ^ (s - 64 - s mod 64) mod 2 ^ 256 = uval r * 2 ^ (s - s mod 64) mod 2 ^ 256"
      unfolding mod_mult_left_eq mult.assoc power_add [symmetric] e ..
    then show ?thesis using IH m by (simp only: uval_shift_word_left)
  next
    case False
    then show ?thesis using "1.prems" uval_less [of r]
      by (simp add: shift_left_words.simps [of r s] U64_RESOLUTION_def)
  qed
qed

lemma shift_right_words:
  "shift_right_words r s = (r', s') \<Longrightarrow> s' = s mod 64 \<and> uval r' = uval r div 2 ^ (s - s mod 64)"
proof (induction r s arbitrary: r' s' rule: shift_right_words.induct)
  case (1 r s)
  show ?case
  proof (cases "64 \<le> s")
    case True
    then have "shift_right_words (shift_word_right r) (s - 64) = (r', s')"
      using "1.prems" by (simp add: shift_right_words.simps [of r s] U64_RESOLUTION_def)
    then have IH: "s' = (s - 64) mod 64" "uval r' = uval (shift_word_right r) div 2 ^ (s - 64 - (s - 64) mod 64)"
      using "1.IH" [of r' s'] True by (simp_all add: U64_RESOLUTION_def)
    have m: "(s - 64) mod 64 = s mod 64" using True by (simp add: mod_if)
    have e: "64 + (s - 64 - s mod 64) = s - s mod 64"
      using True m by (metis add_diff_assoc le_add_diff_inverse mod_less_eq_dividend)
    show ?thesis using IH m by (simp only: uval_shift_word_right div_mult2_eq [symmetric] power_add [symmetric] e)
  next
    case False
    then show ?thesis using "1.prems"
      by (simp add: shift_right_words.simps [of r s] U64_RESOLUTION_def)
  qed
qed

lemma shift_left_bits:
  fixes p q :: nat
  assumes "x0 = h0 * q + l0" "x1 = h1 * q + l1" "x2 = h2 * q + l2" "x3 = h3 * q + l3" "p * q = 2 ^ 64"
  shows "(l0 * p + 2 ^ 64 * (l1 * p + h0) + 2 ^ 128 * (l2 * p + h1) + 2 ^ 192 * (l3 * p + h2)) + 2 ^ 256 * h3
    = (x0 + 2 ^ 64 * x1 + 2 ^ 128 * x2 + 2 ^ 192 * x3) * p"
proof -
  have x: "x0 * p = 2 ^ 64 * h0 + l0 * p" "x1 * p = 2 ^ 64 * h1 + l1 * p"
    "x2 * p = 2 ^ 64 * h2 + l2 * p" "x3 * p = 2 ^ 64 * h3 + l3 * p"
    unfolding assms(1-4) assms(5) [symmetric] by (simp_all add: algebra_simps)
  show ?thesis unfolding distrib_right mult.assoc x by simp
qed

lemma shift_right_bits:
  fixes p q :: nat
  assumes "x0 = h0 * p + l0" "x1 = h1 * p + l1" "x2 = h2 * p + l2" "x3 = h3 * p + l3" "p * q = 2 ^ 64"
  shows "((h0 + l1 * q) + 2 ^ 64 * (h1 + l2 * q) + 2 ^ 128 * (h2 + l3 * q) + 2 ^ 192 * h3) * p + l0
    = x0 + 2 ^ 64 * x1 + 2 ^ 128 * x2 + 2 ^ 192 * x3"
proof -
  have l: "l1 * q * p = 2 ^ 64 * l1" "l2 * q * p = 2 ^ 64 * l2" "l3 * q * p = 2 ^ 64 * l3"
    unfolding assms(5) [symmetric] by (simp_all add: algebra_simps)
  show ?thesis unfolding distrib_right mult.assoc [of "2 ^ _"] l assms(1-4) by simp
qed

lemma uval_shift_left: "s < 256 \<Longrightarrow> uval (shift_left u s) = (uval u * 2 ^ s) mod 2 ^ 256"
proof -
  assume s: "s < 256"
  obtain r t where rt: "shift_left_words u s = (r, t)" by fastforce
  then have t: "t = s mod 64" and r: "uval r = (uval u * 2 ^ (s - t)) mod 2 ^ 256"
    using shift_left_words by blast+
  have pw: "2 ^ (s - t) * 2 ^ t = (2::nat) ^ s" using t by (simp flip: power_add)
  show ?thesis
  proof (cases "t = 0")
    case True
    then show ?thesis using s rt r by (simp add: shift_left_def U64_RESOLUTION_def NUM_WORDS_def)
  next
    case False
    then have t64: "0 < t" "t < 64" using t by simp_all
    obtain a b c d where abcd: "r = U256Muldiv a b c d" by (cases r)
    let ?w = "\<lambda>x y. push_bit t x OR drop_bit (64 - t) y :: u64"
    have res: "shift_left u s = U256Muldiv (push_bit t a) (?w b a) (?w c b) (?w d c)"
      using s False unfolding shift_left_def rt
      by (simp add: U64_RESOLUTION_def NUM_WORDS_def Let_def range_words [unfolded NUM_WORDS_def] abcd upt_rec)
    have pq: "2 ^ t * 2 ^ (64 - t) = (2::nat) ^ 64" using t64 by (simp flip: power_add)
    have a0: "unat (push_bit t a) = (unat a mod 2 ^ (64 - t)) * 2 ^ t"
      using unat_shl_or [OF t64, of a 0] by simp
    have "uval (shift_left u s) + 2 ^ 256 * (unat d div 2 ^ (64 - t)) = uval r * 2 ^ t"
      unfolding res abcd uval.simps a0 unat_shl_or [OF t64]
      by (rule shift_left_bits [OF _ _ _ _ pq]) (rule div_mult_mod_eq [symmetric])+
    then have "uval (shift_left u s) = (uval r * 2 ^ t) mod 2 ^ 256"
      by (rule mod_eqI) (rule uval_less)
    then show ?thesis unfolding r mod_mult_left_eq mult.assoc pw .
  qed
qed

lemma unat_shr_or:
  fixes x y :: u64 assumes "0 < s" "s < 64"
  shows "unat (drop_bit s x OR push_bit (64 - s) y) =
    unat x div 2 ^ s + (unat y mod 2 ^ s) * 2 ^ (64 - s)"
proof -
  have "unat (push_bit (64 - s) y OR drop_bit (64 - (64 - s)) x) =
    (unat y mod 2 ^ (64 - (64 - s))) * 2 ^ (64 - s) + unat x div 2 ^ (64 - (64 - s))"
    by (rule unat_shl_or) (use assms in simp_all)
  then show ?thesis using assms by (simp add: or.commute)
qed

lemma uval_shift_right: "s < 256 \<Longrightarrow> uval (shift_right u s) = uval u div 2 ^ s"
proof -
  assume s: "s < 256"
  obtain r t where rt: "shift_right_words u s = (r, t)" by fastforce
  then have t: "t = s mod 64" and r: "uval r = uval u div 2 ^ (s - t)"
    using shift_right_words by blast+
  have pw: "2 ^ (s - t) * 2 ^ t = (2::nat) ^ s" using t by (simp flip: power_add)
  show ?thesis
  proof (cases "t = 0")
    case True
    then show ?thesis using s rt r by (simp add: shift_right_def U64_RESOLUTION_def NUM_WORDS_def)
  next
    case False
    then have t64: "0 < t" "t < 64" using t by simp_all
    obtain a b c d where abcd: "r = U256Muldiv a b c d" by (cases r)
    let ?w = "\<lambda>x y. drop_bit t x OR push_bit (64 - t) y :: u64"
    have res: "shift_right u s = U256Muldiv (?w a b) (?w b c) (?w c d) (drop_bit t d)"
      using s False unfolding shift_right_def rt
      by (simp add: U64_RESOLUTION_def NUM_WORDS_def Let_def abcd upt_rec)
    have pq: "2 ^ t * 2 ^ (64 - t) = (2::nat) ^ 64" using t64 by (simp flip: power_add)
    have "uval (shift_right u s) * 2 ^ t + unat a mod 2 ^ t = uval r"
      unfolding res abcd uval.simps unat_shr_or [OF t64] unat_drop_bit
      by (rule shift_right_bits [OF _ _ _ _ pq]) (rule div_mult_mod_eq [symmetric])+
    then have "uval (shift_right u s) = uval r div 2 ^ t"
      by (rule div_eqI) simp
    then show ?thesis unfolding r by (simp only: div_mult2_eq [symmetric] pw)
  qed
qed

subsection \<open>Word count, comparisons and conversion\<close>

lemma num_words_eq:
  "num_words (U256Muldiv a b c d) =
     (if d \<noteq> 0 then 4 else if c \<noteq> 0 then 3 else if b \<noteq> 0 then 2 else if a \<noteq> 0 then 1 else 0)"
  by (simp add: num_words_def eval_nat_numeral)

lemma num_words_le: "num_words u \<le> 4"
  by (cases u) (simp add: num_words_eq)

lemma num_words_bounds:
  "uval u < 2 ^ (64 * num_words u)" "num_words u \<noteq> 0 \<Longrightarrow> 2 ^ (64 * (num_words u - 1)) \<le> uval u"
proof -
  obtain a b c d where u: "u = U256Muldiv a b c d" by (cases u)
  have pos: "x \<noteq> 0 \<Longrightarrow> 0 < unat x" for x :: u64 by (simp add: unat_gt_0)
  show "uval u < 2 ^ (64 * num_words u)"
    using unat_u64_less [of a] unat_u64_less [of b] unat_u64_less [of c] unat_u64_less [of d]
    by (simp add: u num_words_eq)
  show "num_words u \<noteq> 0 \<Longrightarrow> 2 ^ (64 * (num_words u - 1)) \<le> uval u"
    using pos [of a] pos [of b] pos [of c] pos [of d] by (simp add: u num_words_eq split: if_splits)
qed

lemma num_words_le_iff: "k \<le> 4 \<Longrightarrow> num_words u \<le> k \<longleftrightarrow> uval u < 2 ^ (64 * k)"
proof
  assume "num_words u \<le> k"
  then have "(2::nat) ^ (64 * num_words u) \<le> 2 ^ (64 * k)"
    by (intro power_increasing) simp_all
  then show "uval u < 2 ^ (64 * k)" using num_words_bounds(1) [of u] by linarith
next
  assume u: "uval u < 2 ^ (64 * k)"
  show "num_words u \<le> k"
  proof (rule ccontr)
    assume "\<not> num_words u \<le> k"
    then have "k \<le> num_words u - 1" "num_words u \<noteq> 0" by simp_all
    then have "(2::nat) ^ (64 * k) \<le> 2 ^ (64 * (num_words u - 1))"
      by (intro power_increasing) simp_all
    then show False using u num_words_bounds(2) [OF \<open>num_words u \<noteq> 0\<close>] by linarith
  qed
qed

lemma try_into_u128_eq:
  "try_into_u128 u = (if uval u < 2 ^ 128 then Ok (of_nat (uval u)) else Fail NumberDownCastError)"
proof -
  obtain a b c d where u: "u = U256Muldiv a b c d" by (cases u)
  have iff: "num_words u > 2 \<longleftrightarrow> \<not> uval u < 2 ^ 128"
    using num_words_le_iff [of 2 u] by (auto simp: not_less)
  show ?thesis
  proof (cases "uval u < 2 ^ 128")
    case True
    then have "c = 0" "d = 0" using iff by (auto simp: u num_words_eq split: if_splits)
    then have "uval u = unat (hi_lo b a)" by (simp add: u unat_hi_lo)
    then have "hi_lo b a = of_nat (uval u)" by simp
    then show ?thesis using True iff by (simp add: try_into_u128_def u hi_lo_def U64_RESOLUTION_def)
  next
    case False
    then show ?thesis using iff by (simp add: try_into_u128_def)
  qed
qed

lemma try_into_u128_Inr_iff [simp]: "try_into_u128 u = Inr x \<longleftrightarrow> unat x = uval u"
proof
  assume "try_into_u128 u = Inr x"
  then show "unat x = uval u"
    by (auto simp: try_into_u128_eq unat_of_nat split: if_splits)
next
  assume *: "unat x = uval u"
  then have "uval u < 2 ^ 128" using unat_less_size [of x] by simp
  then show "try_into_u128 u = Inr x" by (simp add: try_into_u128_eq flip: *)
qed

lemma digit_eqD:
  assumes "x + m * X = y + m * (Y::nat)" "x < m" "y < m"
  shows "x = y" "X = Y"
proof -
  have "x = (x + m * X) mod m" "y = (y + m * Y) mod m" using assms(2,3) by simp_all
  then show "x = y" using assms(1) by simp
  then show "X = Y" using assms by simp
qed

lemma uval_eq_iff: "uval a = uval b \<longleftrightarrow> a = b"
proof
  assume *: "uval a = uval b"
  obtain a0 a1 a2 a3 where a: "a = U256Muldiv a0 a1 a2 a3" by (cases a)
  obtain b0 b1 b2 b3 where b: "b = U256Muldiv b0 b1 b2 b3" by (cases b)
  note lt = unat_u64_less [of a0] unat_u64_less [of a1] unat_u64_less [of a2] unat_u64_less [of a3]
    unat_u64_less [of b0] unat_u64_less [of b1] unat_u64_less [of b2] unat_u64_less [of b3]
  have horner: "uval (U256Muldiv x y z w) = unat x + 2 ^ 64 * (unat y + 2 ^ 64 * (unat z + 2 ^ 64 * unat w))"
    for x y z w by simp
  have "unat a0 = unat b0 \<and> unat a1 = unat b1 \<and> unat a2 = unat b2 \<and> unat a3 = unat b3"
    using * lt unfolding a b horner by (meson digit_eqD)
  then show "a = b" by (simp add: a b word_unat_eq_iff)
qed simp

lemma u256_eq_iff [simp]: "u256_eq a b \<longleftrightarrow> a = b"
  by (cases a; cases b) (simp add: u256_eq_def upt_rec)

lemma is_zero_iff [simp]: "is_zero u \<longleftrightarrow> uval u = 0"
  by (cases u) (simp add: is_zero_def range_words unat_eq_0)

lemma cmp_loop_iff:
  "cmp_loop l g e (rev [0..<length (items a)]) a b =
     (if uval a < uval b then l else if uval b < uval a then g else e)"
proof -
  obtain a0 a1 a2 a3 where a: "a = U256Muldiv a0 a1 a2 a3" by (cases a)
  obtain b0 b1 b2 b3 where b: "b = U256Muldiv b0 b1 b2 b3" by (cases b)
  note lt = unat_u64_less [of a0] unat_u64_less [of a1] unat_u64_less [of a2] unat_u64_less [of a3]
    unat_u64_less [of b0] unat_u64_less [of b1] unat_u64_less [of b2] unat_u64_less [of b3]
  show ?thesis
    using lt by (simp add: a b upt_rec word_less_nat_alt)
qed

lemma u256_compare [simp]:
  "u256_lt a b \<longleftrightarrow> uval a < uval b" "u256_gt a b \<longleftrightarrow> uval b < uval a"
  "u256_lte a b \<longleftrightarrow> uval a \<le> uval b" "u256_gte a b \<longleftrightarrow> uval b \<le> uval a"
  by (auto simp: u256_lt_def u256_gt_def u256_lte_def u256_gte_def cmp_loop_iff)

lemma uval_sub_le: "uval b \<le> uval a \<Longrightarrow> uval (u256_sub a b) = uval a - uval b"
proof -
  assume *: "uval b \<le> uval a"
  then have "uval a + 2 ^ 256 - uval b = uval a - uval b + 2 ^ 256" by simp
  then show ?thesis using uval_less [of a] by (simp only: uval_sub mod_add_self2) simp
qed

lemma uval_add_less: "uval a + uval b < 2 ^ 256 \<Longrightarrow> uval (u256_add a b) = uval a + uval b"
  by (simp add: uval_add)

lemma uval_add_inverse: "(uval (get_add_inverse u) + uval u) mod 2 ^ 256 = 0"
proof (cases "uval u = 0")
  case True
  then have "u = u256_new 0 0" by (simp add: uval_new flip: uval_eq_iff)
  then show ?thesis by (simp add: get_add_inverse_def uval_new)
next
  case False
  have m: "uval (u256_new (-1) (-1)) = 2 ^ 256 - 1" "uval (u256_new 0 1) = 1"
    by (simp_all add: uval_new unsigned_minus_1_eq_mask mask_eq_exp_minus_1)
  have ne: "u \<noteq> u256_new 0 0" using False by (auto simp: uval_new)
  have "uval (u256_sub (u256_new (-1) (-1)) u) = 2 ^ 256 - 1 - uval u"
    using uval_less [of u] by (subst uval_sub_le) (simp_all add: m)
  then have "uval (get_add_inverse u) = 2 ^ 256 - uval u"
    using uval_less [of u] False ne by (simp add: get_add_inverse_def uval_add m)
  then show ?thesis using uval_less [of u] by simp
qed

subsection \<open>Schoolbook multiplication, modulo \<open>2 ^ 256\<close>\<close>

lemma less_4_iff: "i < (4::nat) \<longleftrightarrow> i = 0 \<or> i = 1 \<or> i = 2 \<or> i = 3"
  by arith

lemma items_update: "i < 4 \<Longrightarrow> w < 4 \<Longrightarrow> items (update_word u i v) ! w = (if w = i then v else items u ! w)"
  by (cases u) (auto simp: less_4_iff)

lemma uval_update: "i < 4 \<Longrightarrow>
   uval (update_word u i v) + unat (items u ! i) * 2 ^ (64 * i) = uval u + unat v * 2 ^ (64 * i)"
  by (cases u) (auto simp: less_4_iff)

definition low_words :: "u256 \<Rightarrow> nat \<Rightarrow> nat" where
  "low_words a n = (\<Sum>i<n. unat (items a ! i) * 2 ^ (64 * i))"

lemma low_words_num_words: "low_words a (num_words a) = uval a"
  by (cases a) (simp add: low_words_def num_words_eq lessThan_nat_numeral lessThan_Suc)

lemma mul_limb:
  fixes x y z :: u64 and k :: u128
  assumes k: "unat k < 2 ^ 64"
  defines "t \<equiv> ucast x * ucast y + ucast z + k"
  shows "unat (lo t) + 2 ^ 64 * unat (hi_u128 t) = unat x * unat y + unat z + unat k"
    and "unat (hi_u128 t) < 2 ^ 64"
proof -
  have "unat x \<le> 2 ^ 64 - 1" "unat y \<le> 2 ^ 64 - 1"
    using unat_u64_less [of x] unat_u64_less [of y] by simp_all
  then have "unat x * unat y \<le> (2 ^ 64 - 1) * (2 ^ 64 - 1)" by (rule mult_le_mono)
  then have le: "unat x * unat y + unat z + unat k < 2 ^ 128"
    using k unat_u64_less [of z] by simp
  have m: "unat (ucast x * ucast y :: u128) = unat x * unat y"
    using le by (subst unat_mult_less) (simp_all add: unat_ucast_u128)
  have t: "unat t = unat x * unat y + unat z + unat k"
    unfolding t_def using le by (subst unat_add3) (simp_all add: m unat_ucast_u128)
  then show "unat (lo t) + 2 ^ 64 * unat (hi_u128 t) = unat x * unat y + unat z + unat k"
    by (simp add: unat_lo unat_hi_u128)
  show "unat (hi_u128 t) < 2 ^ 64"
    unfolding unat_hi_u128 using unat_less_size [of t] by (simp add: less_mult_imp_div_less)
qed


lemma mul_row_Suc:
  "mul_row a b j (Suc m) r = (case mul_row a b j m r of (r', k) \<Rightarrow>
     if m + j < 4 then
       let t = get_word_u128 a m * get_word_u128 b j + get_word_u128 r' (m + j) + k
       in (update_word r' (m + j) (lo t), hi_u128 t)
     else (r', k))"
  by (simp add: mul_row_def NUM_WORDS_def Let_def split: prod.splits)

lemma mod_cong_add: "a mod n = b mod n \<Longrightarrow> c mod n = (d::nat) mod n \<Longrightarrow> (a + c) mod n = (b + d) mod n"
  by (metis mod_add_eq)

lemma pow_high_mod: "4 \<le> n \<Longrightarrow> (x * 2 ^ (64 * n)) mod 2 ^ 256 = (0::nat)"
proof -
  assume "4 \<le> n"
  then have "64 * n = 256 + 64 * (n - 4)" by simp
  then show ?thesis by (simp only: power_add) simp
qed

lemma mul_row_inv:
  assumes "mul_row a b j m r = (r', k)"
  shows "unat k < 2 ^ 64" "\<And>w. j + m \<le> w \<Longrightarrow> w < 4 \<Longrightarrow> items r' ! w = items r ! w"
    and "(uval r' + unat k * 2 ^ (64 * (m + j))) mod 2 ^ 256
        = (uval r + unat (items b ! j) * low_words a m * 2 ^ (64 * j)) mod 2 ^ 256"
  using assms
proof (induction m arbitrary: r' k)
  case 0
  { case 1 then show ?case by (simp add: mul_row_def) }
  { case 2 then show ?case by (simp add: mul_row_def) }
  { case 3 then show ?case by (simp add: mul_row_def low_words_def) }
next
  case (Suc m)
  obtain r1 k1 where row: "mul_row a b j m r = (r1, k1)" by fastforce
  note IH = Suc.IH(1) [OF row] Suc.IH(2) [OF _ _ row] Suc.IH(3) [OF row]
  define x y z where "x = items a ! m" and "y = items b ! j" and "z = items r1 ! (m + j)"
  define t :: u128 where "t = ucast x * ucast y + ucast z + k1"
  note limb = mul_limb [OF IH(1), of x y z, folded t_def]
  let ?B = "\<lambda>n. (2::nat) ^ (64 * n)"
  have B: "?B (Suc m + j) = 2 ^ 64 * ?B (m + j)" by (simp add: power_add)
  have low: "unat y * low_words a (Suc m) * ?B j
      = unat y * low_words a m * ?B j + unat x * unat y * ?B (m + j)"
    by (simp add: low_words_def x_def algebra_simps power_add)
  have step: "mul_row a b j (Suc m) r =
      (if m + j < 4 then (update_word r1 (m + j) (lo t), hi_u128 t) else (r1, k1))"
    by (auto simp: mul_row_Suc row t_def x_def y_def z_def get_word_u128_def Let_def split: if_splits)
  { case 1 then show ?case using 1 step IH(1) limb(2) by (auto split: if_splits) }
  { case 2 then show ?case using 2 step IH(2) by (auto simp: items_update split: if_splits) }
  { case 3
    note st = step [unfolded 3]
    show ?case
    proof (cases "m + j < 4")
      case True
      then have r': "r' = update_word r1 (m + j) (lo t)" and k: "k = hi_u128 t" using st by simp_all
      have "uval r' + unat z * ?B (m + j) = uval r1 + unat (lo t) * ?B (m + j)"
        using uval_update [OF True, of r1 "lo t"] by (simp add: r' z_def)
      moreover have "(unat (lo t) + 2 ^ 64 * unat k) * ?B (m + j)
          = (unat x * unat y + unat z + unat k1) * ?B (m + j)"
        using limb(1) by (simp add: k)
      ultimately have "uval r' + unat k * ?B (Suc m + j)
          = (uval r1 + unat k1 * ?B (m + j)) + unat x * unat y * ?B (m + j)"
        unfolding B by (simp add: algebra_simps)
      then show ?thesis
        unfolding y_def [symmetric] low add.assoc [symmetric]
        using mod_cong_add [OF IH(3) refl, of "unat x * unat y * ?B (m + j)"] by (simp only: y_def)
    next
      case False
      then have r': "r' = r1" and k: "k = k1" using st by simp_all
      have z: "(v * ?B (m + j)) mod 2 ^ 256 = 0" "(v * ?B (Suc m + j)) mod 2 ^ 256 = 0" for v
        using False by (intro pow_high_mod; simp)+
      have "(uval r1 + unat k1 * ?B (Suc m + j)) mod 2 ^ 256
         = ((uval r1 + unat k1 * ?B (m + j)) + unat x * unat y * ?B (m + j)) mod 2 ^ 256"
        unfolding add.assoc by (rule mod_cong_add [OF refl]) (simp only: z distrib_right [symmetric])
      then show ?thesis
        unfolding r' k y_def [symmetric] low add.assoc [symmetric]
        using mod_cong_add [OF IH(3) refl, of "unat x * unat y * ?B (m + j)"] by (simp only: y_def)
    qed }
qed

lemma uval_mul: "uval (u256_mul a b) = (uval a * uval b) mod 2 ^ 256"
proof -
  define m where "m = num_words a"
  define row where "row = (\<lambda>j r. let (r, k) = mul_row a b j m r
                    in if j + m < NUM_WORDS then update_word r (j + m) (ucast k) else r)"
  have inv: "n \<le> 4 \<Longrightarrow> (\<forall>w. n + m \<le> w \<longrightarrow> w < 4 \<longrightarrow> items (fold row [0..<n] (u256_new 0 0)) ! w = 0) \<and>
     uval (fold row [0..<n] (u256_new 0 0)) = (uval a * low_words b n) mod 2 ^ 256" for n
  proof (induction n)
    case 0
    show ?case by (auto simp: uval_new low_words_def u256_new_def lo_def hi_def less_4_iff)
  next
    case (Suc n)
    define r where "r = fold row [0..<n] (u256_new 0 0)"
    obtain r1 k where r1: "mul_row a b n m r = (r1, k)" by fastforce
    note inv = mul_row_inv [OF r1]
    have IH: "\<And>w. n + m \<le> w \<Longrightarrow> w < 4 \<Longrightarrow> items r ! w = 0" "uval r = (uval a * low_words b n) mod 2 ^ 256"
      using Suc by (simp_all add: r_def)
    have "row n r = (if n + m < 4 then update_word r1 (n + m) (ucast k) else r1)"
      by (simp add: row_def r1 NUM_WORDS_def)
    then have fr: "fold row [0..<Suc n] (u256_new 0 0)
        = (if n + m < 4 then update_word r1 (n + m) (ucast k) else r1)"
      by (simp add: r_def)
    have lw: "low_words b (Suc n) = low_words b n + unat (items b ! n) * 2 ^ (64 * n)"
      by (simp add: low_words_def)
    have lm: "low_words a m = uval a" by (simp add: m_def low_words_num_words)
    have v: "uval (fold row [0..<Suc n] (u256_new 0 0)) mod 2 ^ 256
        = (uval r1 + unat k * 2 ^ (64 * (m + n))) mod 2 ^ 256"
    proof (cases "n + m < 4")
      case True
      then have "uval (update_word r1 (n + m) (ucast k)) = uval r1 + unat k * 2 ^ (64 * (n + m))"
        using uval_update [OF True, of r1 "ucast k"] inv(1,2) IH(1) by (simp add: unat_ucast_down)
      then show ?thesis using True by (simp only: fr if_True add.commute [of n m])
    next
      case False
      have "(unat k * 2 ^ (64 * (m + n))) mod 2 ^ 256 = 0"
        by (rule pow_high_mod) (use False in simp)
      then show ?thesis using False by (simp only: fr if_False) (metis add.right_neutral mod_add_right_eq)
    qed
    have "(uval r1 + unat k * 2 ^ (64 * (m + n))) mod 2 ^ 256
       = (uval a * low_words b n + unat (items b ! n) * uval a * 2 ^ (64 * n)) mod 2 ^ 256"
      unfolding inv(3) IH(2) lm by (simp only: mod_add_left_eq)
    also have "\<dots> = (uval a * low_words b (Suc n)) mod 2 ^ 256"
      by (simp only: lw) (simp add: algebra_simps)
    finally have "uval (fold row [0..<Suc n] (u256_new 0 0)) = (uval a * low_words b (Suc n)) mod 2 ^ 256"
      using v uval_less by simp
    moreover have "\<forall>w. Suc n + m \<le> w \<longrightarrow> w < 4 \<longrightarrow> items (fold row [0..<Suc n] (u256_new 0 0)) ! w = 0"
      unfolding fr using inv(2) IH(1) by (auto simp: items_update)
    ultimately show ?case by blast
  qed
  have "u256_mul a b = fold row [0..<num_words b] (u256_new 0 0)"
    unfolding u256_mul_def row_def m_def Let_def ..
  then show ?thesis using inv [of "num_words b"] num_words_le [of b] low_words_num_words [of b] by simp
qed

section \<open>The order of the values\<close>

text \<open>The comparisons of the code make \<open>u256\<close> a linear order, the order of the values.\<close>

instantiation u256 :: linorder
begin

definition less_eq_u256 :: "u256 \<Rightarrow> u256 \<Rightarrow> bool" where
  "less_eq_u256 a b \<longleftrightarrow> u256_lte a b"

definition less_u256 :: "u256 \<Rightarrow> u256 \<Rightarrow> bool" where
  "less_u256 a b \<longleftrightarrow> u256_lt a b"

instance
  by intro_classes (auto simp: less_eq_u256_def less_u256_def uval_eq_iff)

end

lemma u256_order_iff: "a \<le> b \<longleftrightarrow> uval a \<le> uval b" "a < b \<longleftrightarrow> uval a < uval b"
  by (simp_all add: less_eq_u256_def less_u256_def)

section \<open>Properties\<close>

text \<open>C26: The multi-word addition, subtraction and multiplication are exact modulo \<open>2 ^ 256\<close> on
  the numbers the words represent, and the product of two \<open>u128\<close> is exact.\<close>

theorem u256_arithmetic_correct:
  "uval (u256_add a b) = (uval a + uval b) mod 2 ^ 256 \<and>
   uval (u256_sub a b) = (uval a + 2 ^ 256 - uval b) mod 2 ^ 256 \<and>
   uval (u256_mul a b) = (uval a * uval b) mod 2 ^ 256 \<and>
   uval (mul_u256 v n) = unat v * unat n"
  by (simp add: uval_add uval_sub uval_mul uval_mul_u256)

text \<open>Shifting by fewer than 256 bits multiplies by, or divides by, a power of two, and
  \<open>lt\<close>, \<open>gt\<close>, \<open>lte\<close> and \<open>gte\<close> compare the numbers represented.\<close>

theorem u256_shift_compare_correct:
  assumes "s < 256"
  shows "uval (shift_left u s) = (uval u * 2 ^ s) mod 2 ^ 256 \<and> uval (shift_right u s) = uval u div 2 ^ s \<and>
    (u256_lt u v \<longleftrightarrow> uval u < uval v) \<and> (u256_lte u v \<longleftrightarrow> uval u \<le> uval v) \<and>
    (u256_gt u v \<longleftrightarrow> uval v < uval u) \<and> (u256_gte u v \<longleftrightarrow> uval v \<le> uval u) \<and>
    (u256_eq u v \<longleftrightarrow> uval u = uval v)"
  using assms by (simp add: uval_shift_left uval_shift_right uval_eq_iff)

lemma u256_shift_compare_witness:
  "uval (shift_right (U256Muldiv 0 0 5 0) 127) = uval (U256Muldiv 0 0 5 0) div 2 ^ 127"
  using u256_shift_compare_correct [of 127 "U256Muldiv 0 0 5 0" "U256Muldiv 0 0 5 0"] by simp

end
