(* ===== verification/U256_Div.thy ===== *)
theory U256_Div
  imports U256_Math
begin

text \<open>
  The long division of \<^verbatim>\<open>math/u256_math.rs\<close> (\<^verbatim>\<open>U256Muldiv::div\<close> and
  \<^verbatim>\<open>div_loop\<close>): Knuth's algorithm D on 64-bit digits. It returns the quotient and the
  remainder exactly, except on inputs where the digit estimate of the step that uses the extra
  carry word is one too large: there the add-back reads a word past the end of the array and
  panics. The last section characterises these inputs.
\<close>

section \<open>One digit of the quotient\<close>

text \<open>
  The correction loop of the digit estimate. It runs at most twice on a normalised divisor
  (\<open>qhat_loop_correct\<close>), so a fuel of 3 never runs out.
\<close>

fun qhat_loop :: "nat \<Rightarrow> u128 \<Rightarrow> u128 \<Rightarrow> u128 \<Rightarrow> u128 \<Rightarrow> u128 \<Rightarrow> u128 \<Rightarrow> u128 result" where
  "qhat_loop 0 d1 d1_2 qhat rhat cmp1 cmp2 = Inl Diverge"
| "qhat_loop (Suc fuel) d1 d1_2 qhat rhat cmp1 cmp2 =
     (if hi qhat \<noteq> 0 \<or> cmp2 > cmp1 then
        let qhat = qhat - 1; rhat = rhat + d1
        in if hi rhat \<noteq> 0 then Ok qhat
           else qhat_loop fuel d1 d1_2 qhat rhat (hi_lo (lo rhat) (lo cmp1)) (cmp2 - d1_2)
      else Ok qhat)"

text \<open>Subtract \<open>qhat\<close> times the divisor from the window of the dividend.\<close>

fun mul_sub_loop :: "nat list \<Rightarrow> nat \<Rightarrow> u128 \<Rightarrow> u256 \<Rightarrow> u256 \<Rightarrow> u128 \<Rightarrow> (u256 \<times> u128) result" where
  "mul_sub_loop [] index qhat divisor dividend k = Ok (dividend, k)"
| "mul_sub_loop (i # is) index qhat divisor dividend k =
     and_then (checked_get_word_u128 divisor i) (\<lambda>d.
     and_then (checked_get_word_u128 dividend (index + i)) (\<lambda>u.
       let p = qhat * d; t = u - k - lo_u128 p
       in and_then (checked_update_word dividend (index + i) (lo t)) (\<lambda>dividend.
          mul_sub_loop is index qhat divisor dividend
            (ucast ((ucast (drop_bit 64 p) :: u64) - ucast (drop_bit 64 t))))))"

text \<open>Add the divisor back to the window.\<close>

fun add_back_loop :: "nat list \<Rightarrow> nat \<Rightarrow> u256 \<Rightarrow> u256 \<Rightarrow> u128 \<Rightarrow> (u256 \<times> u128) result" where
  "add_back_loop [] index divisor dividend k = Ok (dividend, k)"
| "add_back_loop (i # is) index divisor dividend k =
     and_then (checked_get_word_u128 dividend (index + i)) (\<lambda>u.
     and_then (checked_get_word_u128 divisor i) (\<lambda>d.
       let t = u + d + k
       in and_then (checked_update_word dividend (index + i) (lo t)) (\<lambda>dividend.
          add_back_loop is index divisor dividend (drop_bit 64 t))))"

text \<open>
  \<open>div_loop\<close> returns the quotient, the dividend and the carry space (a \<open>&mut\<close> argument of
  the code). The three parts below follow the code: the estimate, the subtraction, and the
  add-back, which reads the word \<open>index + num_divisor_words\<close> also when that word is the
  carry space.
\<close>

definition div_estimate :: "nat \<Rightarrow> nat \<Rightarrow> u256 \<Rightarrow> u64 \<Rightarrow> u256 \<Rightarrow> u128 result" where
  "div_estimate index num_divisor_words dividend carry_space divisor =
     (let use_carry = (index + num_divisor_words = NUM_WORDS) in
      and_then (if use_carry then Ok carry_space
                else checked_get_word dividend (index + num_divisor_words)) (\<lambda>div_hi.
      and_then (checked_get_word dividend (index + num_divisor_words - 1)) (\<lambda>div_lo.
      and_then (checked_get_word_u128 divisor (num_divisor_words - 1)) (\<lambda>d1.
      and_then (if d1 = 0 then Inl Panic else Ok (hi_lo div_hi div_lo div d1)) (\<lambda>qhat.
      let d0 = hi_lo div_hi div_lo; rhat = d0 - d1 * qhat in
      and_then (checked_get_word dividend (index + num_divisor_words - 2)) (\<lambda>d0_2.
      and_then (checked_get_word_u128 divisor (num_divisor_words - 2)) (\<lambda>d1_2.
      qhat_loop 3 d1 d1_2 qhat rhat (hi_lo (lo rhat) d0_2) (qhat * d1_2))))))))"

definition div_add_back ::
  "nat \<Rightarrow> nat \<Rightarrow> u256 \<Rightarrow> u64 \<Rightarrow> u256 \<Rightarrow> (u256 \<times> u64) result" where
  "div_add_back index num_divisor_words dividend carry_space divisor =
     (let use_carry = (index + num_divisor_words = NUM_WORDS) in
      and_then (add_back_loop [0..<num_divisor_words] index divisor dividend 0) (\<lambda>(dividend, k).
      and_then (checked_get_word_u128 dividend (index + num_divisor_words)) (\<lambda>w.
      let new_carry = lo (w + k)
      in if use_carry then Ok (dividend, new_carry)
         else
           and_then (checked_get_word_u128 dividend (index + num_divisor_words)) (\<lambda>w.
           and_then (checked_update_word dividend (index + num_divisor_words) (lo (w + k)))
             (\<lambda>dividend. Ok (dividend, carry_space))))))"

definition div_loop ::
  "nat \<Rightarrow> nat \<Rightarrow> u256 \<Rightarrow> u64 \<Rightarrow> u256 \<Rightarrow> u256 \<Rightarrow> (u256 \<times> u256 \<times> u64) result" where
  "div_loop index num_divisor_words dividend carry_space divisor quo =
     (let use_carry = (index + num_divisor_words = NUM_WORDS) in
      and_then (div_estimate index num_divisor_words dividend carry_space divisor) (\<lambda>qhat.
      and_then (mul_sub_loop [0..<num_divisor_words] index qhat divisor dividend 0) (\<lambda>(dividend, k).
      and_then (if use_carry then Ok (ucast carry_space)
                else checked_get_word_u128 dividend (index + num_divisor_words)) (\<lambda>d_head.
      let t = d_head - k in
      and_then (if use_carry then Ok (dividend, lo t)
                else and_then (checked_update_word dividend (index + num_divisor_words) (lo t))
                       (\<lambda>dividend. Ok (dividend, carry_space))) (\<lambda>(dividend, carry_space).
      and_then (if k > d_head then
                  and_then (div_add_back index num_divisor_words dividend carry_space divisor)
                    (\<lambda>(dividend, carry_space). Ok (qhat - 1, dividend, carry_space))
                else Ok (qhat, dividend, carry_space)) (\<lambda>(qhat, dividend, carry_space).
      and_then (checked_update_word quo index (lo qhat)) (\<lambda>quo.
      Ok (quo, dividend, carry_space))))))))"

section \<open>The division\<close>

text \<open>Division by a single word.\<close>

fun div_single_loop :: "nat list \<Rightarrow> u256 \<Rightarrow> u256 \<Rightarrow> u128 \<Rightarrow> u256 \<Rightarrow> (u256 \<times> u128) result" where
  "div_single_loop [] dividend divisor k quo = Ok (quo, k)"
| "div_single_loop (j # js) dividend divisor k quo =
     and_then (checked_get_word dividend j) (\<lambda>w.
     and_then (checked_get_word_u128 divisor 0) (\<lambda>d2.
       if d2 = 0 then Inl Panic
       else
         let d1 = hi_lo (lo k) w; q = d1 div d2; k = d1 - d2 * q
         in and_then (checked_update_word quo j (lo q))
              (\<lambda>quo. div_single_loop js dividend divisor k quo)))"

fun div_words_loop ::
  "nat list \<Rightarrow> nat \<Rightarrow> u256 \<Rightarrow> u64 \<Rightarrow> u256 \<Rightarrow> u256 \<Rightarrow> (u256 \<times> u256) result" where
  "div_words_loop [] n dividend carry_space divisor quo = Ok (quo, dividend)"
| "div_words_loop (j # js) n dividend carry_space divisor quo =
     and_then (div_loop j n dividend carry_space divisor quo)
       (\<lambda>(quo, dividend, carry_space).
          div_words_loop js n dividend carry_space divisor quo)"

definition u256_div :: "u256 \<Rightarrow> u256 \<Rightarrow> bool \<Rightarrow> (u256 \<times> u256) result" where
  "u256_div dividend divisor return_remainder =
     (let num_dividend_words = num_words dividend; num_divisor_words = num_words divisor;
          zero = u256_new 0 0
      in if num_divisor_words = 0 then Inl Panic
      else if num_dividend_words = 0 then Ok (zero, zero)
      else if num_dividend_words < num_divisor_words then
        Ok (zero, if return_remainder then dividend else zero)
      else if num_dividend_words < 3 then
        and_then (unwrap (try_into_u128 dividend)) (\<lambda>n.
        and_then (unwrap (try_into_u128 divisor)) (\<lambda>d.
        if d = 0 then Inl Panic
        else Ok (u256_new 0 (n div d), if return_remainder then u256_new 0 (n mod d) else zero)))
      else if num_divisor_words = 1 then
        and_then (div_single_loop (rev [0..<num_dividend_words]) dividend divisor 0 zero)
          (\<lambda>(quo, k). Ok (quo, if return_remainder then u256_new 0 k else zero))
      else
        let s = leading_zeros (get_word divisor (num_divisor_words - 1));
            b = leading_zeros (get_word dividend (num_dividend_words - 1));
            carry_space = (if num_dividend_words = NUM_WORDS \<and> b < s
              then drop_bit (U64_RESOLUTION - s) (get_word dividend (num_dividend_words - 1))
              else 0);
            dividend = shift_left dividend s;
            divisor = shift_left divisor s
        in and_then (div_words_loop (rev [0..<num_dividend_words - num_divisor_words + 1])
                       num_divisor_words dividend carry_space divisor zero)
             (\<lambda>(quo, dividend).
                Ok (quo, if return_remainder then shift_right dividend s else zero)))"

section \<open>Correctness: the estimate loop\<close>

lemma hi_eq_0_iff: "hi x = 0 \<longleftrightarrow> unat x < 2 ^ 64"
proof -
  have "hi x = 0 \<longleftrightarrow> unat (hi x) = 0" by (simp add: unat_eq_0)
  also have "\<dots> \<longleftrightarrow> unat x < 2 ^ 64" unfolding unat_hi by (simp add: div_eq_0_iff)
  finally show ?thesis .
qed

lemma qhat_loop_correct:
  assumes d1: "0 < unat d1" "unat d1 < 2 ^ 64" and u0: "N1 < (unat d1 + 1) * 2 ^ 64"
    and rhat: "unat rhat < 2 ^ 64" "unat rhat + unat d1 * unat qhat = N1"
    and cmp1: "unat cmp1 = unat rhat * 2 ^ 64 + u2" "u2 < 2 ^ 64"
    and cmp2: "unat cmp2 = unat qhat * unat d1_2" and d1_2: "unat d1_2 < 2 ^ 64"
    and fuel: "2 ^ 64 \<le> unat rhat + fuel * unat d1"
  shows "\<exists>q. qhat_loop (Suc fuel) d1 d1_2 qhat rhat cmp1 cmp2 = Ok q \<and> unat q < 2 ^ 64
    \<and> unat q * (unat d1 * 2 ^ 64 + unat d1_2) \<le> N1 * 2 ^ 64 + u2
    \<and> (\<forall>x. x < 2 ^ 64 \<and> x * (unat d1 * 2 ^ 64 + unat d1_2) \<le> N1 * 2 ^ 64 + u2
         \<and> x \<le> unat qhat \<longrightarrow> x \<le> unat q)"
  using rhat cmp1(1) cmp2 fuel
proof (induction fuel arbitrary: qhat rhat cmp1 cmp2)
  case 0
  then show ?case by simp
next
  case (Suc f)
  let ?V = "unat d1 * 2 ^ 64 + unat d1_2" and ?U = "N1 * 2 ^ 64 + u2"
  show ?case
  proof (cases "hi qhat \<noteq> 0 \<or> cmp2 > cmp1")
    case False
    then have "unat qhat < 2 ^ 64" and c: "unat cmp2 \<le> unat cmp1"
      by (simp_all add: hi_eq_0_iff word_less_nat_alt not_less)
    moreover have "unat qhat * ?V \<le> ?U"
      using c Suc.prems by (simp add: algebra_simps)
    ultimately show ?thesis using False by auto
  next
    case True
    define q' r' where "q' = qhat - 1" and "r' = rhat + d1"
    have qpos: "0 < unat qhat"
    proof (rule ccontr)
      assume "\<not> 0 < unat qhat"
      then have "qhat = 0" by (simp add: unat_eq_0)
      then show False using True Suc.prems(4) by (simp add: hi_eq_0_iff word_less_nat_alt)
    qed
    have q': "unat q' = unat qhat - 1"
      unfolding q'_def using qpos by (subst unat_sub) (simp_all add: word_le_nat_alt)
    have r': "unat r' = unat rhat + unat d1"
      unfolding r'_def using Suc.prems(1) d1 by (subst unat_add_less) simp_all
    have inv: "unat r' + unat d1 * unat q' = N1"
      using Suc.prems(2) qpos by (cases "unat qhat") (simp_all add: q' r' algebra_simps)
    have keep: "x \<le> unat q'" if x: "x < 2 ^ 64" "x * ?V \<le> ?U" "x \<le> unat qhat" for x
    proof -
      have "x \<noteq> unat qhat"
      proof
        assume eq: "x = unat qhat"
        then have "cmp2 > cmp1" using True x(1) by (simp add: hi_eq_0_iff)
        then have "unat rhat * 2 ^ 64 + u2 < unat qhat * unat d1_2"
          using Suc.prems(3,4) by (simp add: word_less_nat_alt)
        then have "?U < unat qhat * ?V" using Suc.prems(2) by (simp add: algebra_simps)
        then show False using x(2) eq by simp
      qed
      then show ?thesis using x(3) q' by simp
    qed
    show ?thesis
    proof (cases "hi r' = 0")
      case False
      then have r'64: "2 ^ 64 \<le> unat r'" by (simp add: hi_eq_0_iff)
      have q64: "unat q' < 2 ^ 64"
      proof -
        have "unat d1 * unat q' < unat d1 * 2 ^ 64"
          using inv u0 r'64 unfolding distrib_right by linarith
        then show ?thesis by (rule mult_less_cancel1 [THEN iffD1, THEN conjunct2])
      qed
      have "unat q' * unat d1_2 \<le> 2 ^ 64 * 2 ^ 64"
        using q64 d1_2 by (intro mult_le_mono) simp_all
      also have "\<dots> \<le> unat r' * 2 ^ 64" using r'64 by (intro mult_le_mono) simp_all
      finally have "unat q' * ?V \<le> ?U" using inv by (simp add: algebra_simps)
      then show ?thesis using True False q64 keep by (auto simp: q'_def r'_def)
    next
      case r0: True
      then have r'64: "unat r' < 2 ^ 64" by (simp add: hi_eq_0_iff)
      have l: "unat (lo cmp1) = u2" "unat (lo r') = unat r'"
        using Suc.prems(3) cmp1(2) r'64 by (simp_all add: unat_lo)
      have c1: "unat (hi_lo (lo r') (lo cmp1)) = unat r' * 2 ^ 64 + u2"
        by (simp only: unat_hi_lo l)
      have c2: "unat (cmp2 - d1_2) = unat q' * unat d1_2"
      proof -
        have e: "unat cmp2 = unat d1_2 + unat q' * unat d1_2"
          using Suc.prems(4) qpos by (cases "unat qhat") (simp_all add: q')
        then show ?thesis by (subst unat_sub) (simp_all add: word_le_nat_alt)
      qed
      have fl: "2 ^ 64 \<le> unat r' + f * unat d1" using Suc.prems(5) r' by simp
      obtain q where q: "qhat_loop (Suc f) d1 d1_2 q' r' (hi_lo (lo r') (lo cmp1)) (cmp2 - d1_2) = Ok q"
        "unat q < 2 ^ 64" "unat q * ?V \<le> ?U" "\<forall>x. x < 2 ^ 64 \<and> x * ?V \<le> ?U \<and> x \<le> unat q' \<longrightarrow> x \<le> unat q"
        using Suc.IH [OF r'64 inv c1 c2 fl] by blast
      have "qhat_loop (Suc (Suc f)) d1 d1_2 qhat rhat cmp1 cmp2 = Ok q"
        using True r0 q(1) unfolding q'_def r'_def by (subst qhat_loop.simps(2)) (simp only: if_True Let_def if_False simp_thms)
      then show ?thesis using q keep by blast
    qed
  qed
qed

section \<open>Windows of words\<close>

definition window :: "u256 \<Rightarrow> nat \<Rightarrow> nat \<Rightarrow> nat \<Rightarrow> nat" where
  "window u index i n = (\<Sum>t = i..<n. unat (items u ! (index + t)) * 2 ^ (64 * t))"

lemma window_empty [simp]: "window u index n n = 0"
  by (simp add: window_def)

lemma window_step: "i < n \<Longrightarrow>
   window u index i n = unat (items u ! (index + i)) * 2 ^ (64 * i) + window u index (Suc i) n"
  by (simp add: window_def sum.atLeast_Suc_lessThan)

lemma window_cong: "(\<And>t. i \<le> t \<Longrightarrow> t < n \<Longrightarrow> items u ! (index + t) = items v ! (index + t)) \<Longrightarrow>
   window u index i n = window v index i n"
  by (simp add: window_def)

lemma window_less: "window u index 0 n < 2 ^ (64 * n)"
proof (induction n)
  case (Suc n)
  have "window u index 0 (Suc n) = window u index 0 n + unat (items u ! (index + n)) * 2 ^ (64 * n)"
    by (simp add: window_def)
  also have "\<dots> < 2 ^ (64 * n) + unat (items u ! (index + n)) * 2 ^ (64 * n)" using Suc by simp
  also have "\<dots> = (unat (items u ! (index + n)) + 1) * 2 ^ (64 * n)" by simp
  also have "\<dots> \<le> 2 ^ 64 * 2 ^ (64 * n)"
    using unat_u64_less [of "items u ! (index + n)"] by (intro mult_le_mono1) simp
  finally show ?case by (simp add: power_add)
qed simp

lemma sub_wrap:
  fixes u k p :: nat
  assumes "u < 2 ^ 64" "k < 2 ^ 64" "p < 2 ^ 64" and t: "t < 2 ^ 128"
    and eq: "t + k + p = u \<or> t + k + p = u + 2 ^ 128"
  shows "\<exists>b. b \<le> 2 \<and> t mod 2 ^ 64 + k + p = u + b * 2 ^ 64 \<and> (2 ^ 64 - t div 2 ^ 64) mod 2 ^ 64 = b"
proof -
  define h l where "h = t div 2 ^ 64" and "l = t mod 2 ^ 64"
  have t': "t = 2 ^ 64 * h + l" "l < 2 ^ 64" by (simp_all add: h_def l_def)
  have "h < 2 ^ 64" using t by (simp add: h_def less_mult_imp_div_less)
  show ?thesis
  proof (cases "t + k + p = u")
    case True
    then have "h = 0" using t' assms(1) by simp
    then have "l + k + p = u + 0 * 2 ^ 64" using True t' by simp
    then show ?thesis using \<open>h = 0\<close> unfolding h_def [symmetric] l_def [symmetric]
      by (intro exI [of _ 0]) simp
  next
    case False
    then have *: "2 ^ 64 * h + l + k + p = u + 2 ^ 128" using eq t' by simp
    then have "2 ^ 64 - 2 \<le> h" using t'(2) assms(2,3) by simp
    with \<open>h < 2 ^ 64\<close> consider "h = 2 ^ 64 - 1" | "h = 2 ^ 64 - 2" by force
    then show ?thesis
    proof cases
      case 1
      then have "l + k + p = u + 1 * 2 ^ 64" using * by simp
      then show ?thesis using 1 unfolding h_def [symmetric] l_def [symmetric] by (intro exI [of _ 1]) simp
    next
      case 2
      then have "l + k + p = u + 2 * 2 ^ 64" using * by simp
      then show ?thesis using 2 unfolding h_def [symmetric] l_def [symmetric] by (intro exI [of _ 2]) simp
    qed
  qed
qed

lemma mul_sub_limb:
  fixes d u :: u64 and q k :: u128
  assumes q: "unat q < 2 ^ 64" and k: "unat k < 2 ^ 64"
  defines "p \<equiv> q * ucast d" defines "t \<equiv> ucast u - k - lo_u128 p"
  defines "k' \<equiv> (ucast ((ucast (drop_bit 64 p) :: u64) - ucast (drop_bit 64 t)) :: u128)"
  shows "unat (lo t) + unat q * unat d + unat k = unat u + unat k' * 2 ^ 64" "unat k' < 2 ^ 64"
proof -
  show "unat k' < 2 ^ 64" unfolding k'_def using unat_u64_less by (simp add: unat_ucast_u128)
  have "unat q \<le> 2 ^ 64 - 1" "unat d \<le> 2 ^ 64 - 1" using q unat_u64_less [of d] by simp_all
  then have le: "unat q * unat d \<le> (2 ^ 64 - 1) * (2 ^ 64 - 1)" by (rule mult_le_mono)
  have p: "unat p = unat q * unat d"
    unfolding p_def using le by (subst unat_mult_less) (simp_all add: unat_ucast_u128)
  have plo: "unat (lo_u128 p) < 2 ^ 64" by (simp add: unat_lo_u128)
  define v where "v = ucast u - k"
  have t: "t = v - lo_u128 p" by (simp add: t_def v_def)
  have uu: "unat (ucast u :: u128) = unat u" by (rule unat_ucast_u128)
  note lt = unat_u64_less [of u] unat_less_size [of v] unat_less_size [of t]
  have v: "unat v + k0 = unat u \<or> unat v + k0 = unat u + 2 ^ 128" if "k0 = unat k" for k0
    unfolding v_def that using k uu lt(1) by (simp add: unat_sub_if')
  have "unat t + unat (lo_u128 p) = unat v \<or> unat t + unat (lo_u128 p) = unat v + 2 ^ 128"
    unfolding t using plo lt(2) by (simp add: unat_sub_if')
  then have "unat t + unat k + unat (lo_u128 p) = unat u \<or>
      unat t + unat k + unat (lo_u128 p) = unat u + 2 ^ 128"
    using v [OF refl] lt k plo by auto
  then obtain b where b: "b \<le> 2" "unat t mod 2 ^ 64 + unat k + unat (lo_u128 p) = unat u + b * 2 ^ 64"
    "(2 ^ 64 - unat t div 2 ^ 64) mod 2 ^ 64 = b"
    using sub_wrap [OF lt(1) k plo, of "unat t"] lt(3) by auto
  have pd: "unat p = 2 ^ 64 * (unat p div 2 ^ 64) + unat (lo_u128 p)"
    by (simp add: unat_lo_u128)
  define ph th where "ph = unat p div 2 ^ 64" and "th = unat t div 2 ^ 64"
  have ph: "ph < 2 ^ 64" and th: "th < 2 ^ 64"
    using unat_less_size [of p] lt(3) by (simp_all add: ph_def th_def less_mult_imp_div_less)
  have "unat k' = (ph + 2 ^ 64 - th) mod 2 ^ 64"
    unfolding k'_def unat_ucast_u128 unat_minus_wrap unat_ucast_down unat_drop_bit
    using ph th by (simp add: ph_def th_def)
  also have "\<dots> = (ph + b) mod 2 ^ 64"
  proof -
    have "ph + 2 ^ 64 - th = ph + (2 ^ 64 - th)" using th by simp
    then show ?thesis unfolding b(3) [symmetric] th_def by (simp only: mod_add_right_eq)
  qed
  finally have "unat k' = (ph + b) mod 2 ^ 64" .
  moreover have "ph + b < 2 ^ 64"
  proof -
    have "unat t mod 2 ^ 64 < 2 ^ 64" by simp
    then show ?thesis using pd p le b(2) k unfolding ph_def [symmetric] by simp
  qed
  ultimately have "unat k' = ph + b" by simp
  then show "unat (lo t) + unat q * unat d + unat k = unat u + unat k' * 2 ^ 64"
    using b(2) pd p by (simp add: unat_lo ph_def algebra_simps)
qed

section \<open>The limb loops\<close>

lemma mul_sub_loop_correct:
  assumes "index + n \<le> 4" "unat q < 2 ^ 64" "unat k < 2 ^ 64" "i \<le> n"
  shows "\<exists>u' k'. mul_sub_loop [i..<n] index q d u k = Ok (u', k') \<and> unat k' < 2 ^ 64
    \<and> window u' index i n + unat q * window d 0 i n + unat k * 2 ^ (64 * i)
        = window u index i n + unat k' * 2 ^ (64 * n)
    \<and> (\<forall>w<4. w < index + i \<or> index + n \<le> w \<longrightarrow> items u' ! w = items u ! w)"
  using assms(3,4)
proof (induction "n - i" arbitrary: i k u)
  case 0
  then show ?case by simp
next
  case (Suc m)
  then have i: "i < n" by simp
  then have l: "[i..<n] = i # [Suc i..<n]" by (simp add: upt_conv_Cons)
  define x y where "x = items d ! i" and "y = items u ! (index + i)"
  define p where "p = q * ucast x"
  define t where "t = ucast y - k - lo_u128 p"
  define k1 where "k1 = (ucast ((ucast (drop_bit 64 p) :: u64) - ucast (drop_bit 64 t)) :: u128)"
  note limb = mul_sub_limb [OF assms(2) Suc.prems(1), where d = x and u = y, folded p_def, folded t_def, folded k1_def]
  define u1 where "u1 = update_word u (index + i) (lo t)"
  have b: "index + i < 4" "i < 4" using i assms(1) by simp_all
  obtain u' k' where r: "mul_sub_loop [Suc i..<n] index q d u1 k1 = Ok (u', k')" "unat k' < 2 ^ 64"
    "window u' index (Suc i) n + unat q * window d 0 (Suc i) n + unat k1 * 2 ^ (64 * Suc i)
        = window u1 index (Suc i) n + unat k' * 2 ^ (64 * n)"
    "\<forall>w<4. w < index + Suc i \<or> index + n \<le> w \<longrightarrow> items u' ! w = items u1 ! w"
    using Suc.hyps(1) [of "Suc i" k1 u1] Suc.hyps(2) limb(2) i by fastforce
  have run: "mul_sub_loop [i..<n] index q d u k = Ok (u', k')"
    using r(1) b unfolding l
    by (simp add: checked_get_word_u128_def checked_update_word_def get_word_u128_def NUM_WORDS_def
        u1_def k1_def t_def p_def x_def y_def Let_def)
  have w1: "window u1 index (Suc i) n = window u index (Suc i) n"
    using assms(1) b by (intro window_cong) (simp add: u1_def items_update)
  have yi: "items u' ! (index + i) = lo t" using r(4) b by (simp add: u1_def items_update)
  have "(unat (lo t) + unat q * unat x + unat k) * 2 ^ (64 * i) = (unat y + unat k1 * 2 ^ 64) * 2 ^ (64 * i)"
    using limb(1) by simp
  then have "window u' index i n + unat q * window d 0 i n + unat k * 2 ^ (64 * i)
      = window u index i n + unat k' * 2 ^ (64 * n)"
    using r(3) unfolding window_step [OF i] w1 yi
    by (simp add: x_def y_def algebra_simps power_add)
  moreover have "\<forall>w<4. w < index + i \<or> index + n \<le> w \<longrightarrow> items u' ! w = items u ! w"
    using r(4) i b by (auto simp: u1_def items_update)
  ultimately show ?case using run r(2) by blast
qed

lemma add_back_limb:
  fixes x y :: u64 and k :: u128
  assumes k: "unat k \<le> 1"
  defines "t \<equiv> ucast x + ucast y + k"
  shows "unat (lo t) + 2 ^ 64 * unat (drop_bit 64 t) = unat x + unat y + unat k" "unat (drop_bit 64 t) \<le> 1"
  using add_limb [OF k, of x y] by (simp_all add: t_def hi_u128_def)

lemma add_back_loop_correct:
  assumes "index + n \<le> 4" "unat k \<le> 1" "i \<le> n"
  shows "\<exists>u' k'. add_back_loop [i..<n] index d u k = Ok (u', k') \<and> unat k' \<le> 1
    \<and> window u' index i n + unat k' * 2 ^ (64 * n)
        = window u index i n + window d 0 i n + unat k * 2 ^ (64 * i)
    \<and> (\<forall>w<4. w < index + i \<or> index + n \<le> w \<longrightarrow> items u' ! w = items u ! w)"
  using assms(2,3)
proof (induction "n - i" arbitrary: i k u)
  case 0
  then show ?case by simp
next
  case (Suc m)
  then have i: "i < n" by simp
  then have l: "[i..<n] = i # [Suc i..<n]" by (simp add: upt_conv_Cons)
  define x y where "x = items d ! i" and "y = items u ! (index + i)"
  define t :: u128 where "t = ucast y + ucast x + k"
  note limb = add_back_limb [OF Suc.prems(1), of y x, folded t_def]
  define u1 where "u1 = update_word u (index + i) (lo t)"
  have b: "index + i < 4" "i < 4" using i assms(1) by simp_all
  obtain u' k' where r: "add_back_loop [Suc i..<n] index d u1 (drop_bit 64 t) = Ok (u', k')" "unat k' \<le> 1"
    "window u' index (Suc i) n + unat k' * 2 ^ (64 * n)
        = window u1 index (Suc i) n + window d 0 (Suc i) n + unat (drop_bit 64 t) * 2 ^ (64 * Suc i)"
    "\<forall>w<4. w < index + Suc i \<or> index + n \<le> w \<longrightarrow> items u' ! w = items u1 ! w"
    using Suc.hyps(1) [of "Suc i" "drop_bit 64 t" u1] Suc.hyps(2) limb(2) i by fastforce
  have run: "add_back_loop [i..<n] index d u k = Ok (u', k')"
    using r(1) b unfolding l
    by (simp add: checked_get_word_u128_def checked_update_word_def get_word_u128_def NUM_WORDS_def
        u1_def t_def x_def y_def Let_def)
  have w1: "window u1 index (Suc i) n = window u index (Suc i) n"
    using assms(1) b by (intro window_cong) (simp add: u1_def items_update)
  have yi: "items u' ! (index + i) = lo t" using r(4) b by (simp add: u1_def items_update)
  have "(unat (lo t) + 2 ^ 64 * unat (drop_bit 64 t)) * 2 ^ (64 * i) = (unat y + unat x + unat k) * 2 ^ (64 * i)"
    using limb(1) by simp
  then have "window u' index i n + unat k' * 2 ^ (64 * n)
      = window u index i n + window d 0 i n + unat k * 2 ^ (64 * i)"
    using r(3) unfolding window_step [OF i] w1 yi
    by (simp add: x_def y_def algebra_simps power_add)
  moreover have "\<forall>w<4. w < index + i \<or> index + n \<le> w \<longrightarrow> items u' ! w = items u ! w"
    using r(4) i b by (auto simp: u1_def items_update)
  ultimately show ?case using run r(2) by blast
qed

section \<open>The digit estimate\<close>

definition digit_estimate :: "nat \<Rightarrow> nat \<Rightarrow> nat \<Rightarrow> nat" where
  "digit_estimate n U D =
     min (2 ^ 64 - 1) ((U div 2 ^ (64 * (n - 2))) div (D div 2 ^ (64 * (n - 2))))"

definition overshoots :: "nat \<Rightarrow> nat \<Rightarrow> nat \<Rightarrow> bool" where
  "overshoots n U D \<longleftrightarrow> U < digit_estimate n U D * D"

lemma digit_estimate_bounds:
  assumes U: "U < D * 2 ^ 64" and D: "2 ^ 64 \<le> D div 2 ^ (64 * (n - 2))"
  shows "U div D \<le> digit_estimate n U D" "digit_estimate n U D \<le> U div D + 1"
proof -
  let ?P = "2 ^ (64 * (n - 2)) :: nat"
  define U2 V2 where "U2 = U div ?P" and "V2 = D div ?P"
  define qh where "qh = min (2 ^ 64 - 1) (U2 div V2)"
  have qh: "digit_estimate n U D = qh" by (simp add: digit_estimate_def qh_def U2_def V2_def)
  have Dpos: "0 < D" using U by (cases D) simp_all
  have V2pos: "0 < V2" using D by (simp add: V2_def)
  have DV: "V2 * ?P \<le> D" "D < V2 * ?P + ?P" and UV: "U2 * ?P \<le> U"
    unfolding V2_def U2_def using dividend_less_div_times [of ?P D]
    by (simp_all only: div_times_less_eq_dividend add.commute) simp
  have "U div D * V2 * ?P \<le> U div D * D" using DV(1) by (simp add: mult.assoc)
  also have "\<dots> \<le> U" by (simp add: mult.commute)
  finally have "U div D * V2 \<le> U2" unfolding U2_def by (simp add: less_eq_div_iff_mult_less_eq)
  then have "U div D \<le> U2 div V2" using V2pos by (simp add: less_eq_div_iff_mult_less_eq)
  moreover have "U div D < 2 ^ 64" using U by (simp add: less_mult_imp_div_less mult.commute)
  ultimately show "U div D \<le> digit_estimate n U D" by (simp add: qh qh_def)
  have qh64: "qh < 2 ^ 64" unfolding qh_def by simp
  have "qh * V2 \<le> U2 div V2 * V2" by (intro mult_le_mono1) (simp add: qh_def)
  also have "\<dots> \<le> U2" by simp
  finally have qV: "qh * V2 * ?P \<le> U" using UV by (meson mult_le_mono1 order_trans)
  have "qh * D \<le> qh * (V2 * ?P + ?P)" using DV(2) by (intro mult_le_mono2) simp
  also have "\<dots> = qh * V2 * ?P + qh * ?P" by (simp add: algebra_simps)
  also have "\<dots> < U + D"
  proof -
    have "qh * ?P < 2 ^ 64 * ?P" using qh64 by simp
    also have "\<dots> \<le> V2 * ?P" using D by (simp add: V2_def)
    finally show ?thesis using qV DV(1) by linarith
  qed
  finally have "qh * D < U + D" .
  then have "qh * D < (U div D + 2) * D"
    using dividend_less_div_times [OF Dpos, of U] by (simp add: algebra_simps)
  then have "qh < U div D + 2" by (rule mult_less_cancel2 [THEN iffD1, THEN conjunct2])
  then show "digit_estimate n U D \<le> U div D + 1" using qh by simp
qed

lemma window_split: "a \<le> b \<Longrightarrow> window u index 0 b = window u index 0 a + 2 ^ (64 * a) * window u (index + a) 0 (b - a)"
proof -
  assume ab: "a \<le> b"
  have "window u index 0 b = window u index 0 a + (\<Sum>t = a..<b. unat (items u ! (index + t)) * 2 ^ (64 * t))"
    using ab by (simp add: window_def sum.atLeastLessThan_concat)
  also have "(\<Sum>t = a..<b. unat (items u ! (index + t)) * 2 ^ (64 * t))
      = (\<Sum>t = 0..<b - a. unat (items u ! (index + (t + a))) * 2 ^ (64 * (t + a)))"
    using sum.shift_bounds_nat_ivl [of "\<lambda>t. unat (items u ! (index + t)) * 2 ^ (64 * t)" 0 a "b - a"] ab by simp
  also have "\<dots> = 2 ^ (64 * a) * window u (index + a) 0 (b - a)"
    by (simp add: window_def sum_distrib_left algebra_simps power_add)
  finally show ?thesis .
qed

lemma window_top2: "2 \<le> n \<Longrightarrow> window u index 0 n = (unat (items u ! (index + n - 1)) * 2 ^ 64 + unat (items u ! (index + n - 2))) * 2 ^ (64 * (n - 2))
   + window u index 0 (n - 2)"
proof -
  assume n: "2 \<le> n"
  then have n2: "n = Suc (Suc (n - 2))" by simp
  have "window u index 0 n = window u index 0 (n - 2) + 2 ^ (64 * (n - 2)) * window u (index + (n - 2)) 0 (n - (n - 2))"
    by (rule window_split) simp
  also have "n - (n - 2) = Suc (Suc 0)" using n by simp
  also have "window u (index + (n - 2)) 0 (Suc (Suc 0)) = unat (items u ! (index + (n - 2))) + unat (items u ! (index + (n - 2) + 1)) * 2 ^ 64"
    by (simp add: window_def)
  finally have w: "window u index 0 n = window u index 0 (n - 2) + 2 ^ (64 * (n - 2)) *
      (unat (items u ! (index + (n - 2))) + unat (items u ! (index + (n - 2) + 1)) * 2 ^ 64)" .
  have i: "index + (n - 2) = index + n - 2" "index + (n - 2) + 1 = index + n - 1" using n by simp_all
  show ?thesis unfolding w i(2) unfolding i(1) by (simp add: algebra_simps)
qed

lemma div_estimate_correct:
  assumes n: "2 \<le> n" "index + n \<le> 4"
    and head: "head = (if index + n = 4 then carry else items u ! (index + n))"
    and U: "U = window u index 0 n + unat head * 2 ^ (64 * n)" and D: "D = window d 0 0 n"
    and less: "U < D * 2 ^ 64" and norm: "2 ^ 63 \<le> unat (items d ! (n - 1))"
  shows "\<exists>q. div_estimate index n u carry d = Ok q \<and> unat q = digit_estimate n U D"
proof -
  let ?P = "2 ^ (64 * (n - 2)) :: nat"
  define u1 u2 d1 d2 where "u1 = items u ! (index + n - 1)" and "u2 = items u ! (index + n - 2)"
    and "d1 = items d ! (n - 1)" and "d2 = items d ! (n - 2)"
  have "64 * n = 128 + 64 * (n - 2)" using n by simp
  then have Bn: "(2::nat) ^ (64 * n) = 2 ^ 128 * ?P" by (simp only: power_add)
  define N1 where "N1 = unat head * 2 ^ 64 + unat u1"
  define V2 U2 where "V2 = unat d1 * 2 ^ 64 + unat d2" and "U2 = N1 * 2 ^ 64 + unat u2"
  have U': "U = U2 * ?P + window u index 0 (n - 2)"
    unfolding U window_top2 [OF n(1)] Bn by (simp add: U2_def N1_def u1_def u2_def algebra_simps)
  have D': "D = V2 * ?P + window d 0 0 (n - 2)"
    unfolding D window_top2 [OF n(1)] by (simp add: V2_def d1_def d2_def)
  have Udiv: "U div ?P = U2" unfolding U' using window_less by simp
  have Ddiv: "D div ?P = V2" unfolding D' using window_less by simp
  have d1pos: "0 < unat d1" using norm by (simp add: d1_def)
  have "U2 * ?P \<le> U" "D < (V2 + 1) * ?P"
    unfolding U' D' using window_less [of d 0 "n - 2"] by (simp_all add: algebra_simps)
  then have "U2 * ?P < (V2 + 1) * 2 ^ 64 * ?P" using less by (simp add: algebra_simps)
  then have U2less: "U2 < (V2 + 1) * 2 ^ 64" by (rule mult_less_cancel2 [THEN iffD1, THEN conjunct2])
  have N1less: "N1 < (unat d1 + 1) * 2 ^ 64"
    using U2less unat_u64_less [of d2] by (simp add: U2_def V2_def)
  have N1: "unat (hi_lo head u1) = N1" by (simp add: unat_hi_lo N1_def)
  define dd1 dd2 :: u128 where "dd1 = ucast d1" and "dd2 = ucast d2"
  have dd: "unat dd1 = unat d1" "unat dd2 = unat d2" by (simp_all add: dd1_def dd2_def unat_ucast_u128)
  define qhat where "qhat = hi_lo head u1 div dd1"
  define rhat where "rhat = hi_lo head u1 - dd1 * qhat"
  have qhat: "unat qhat = N1 div unat d1" by (simp add: qhat_def unat_div N1 dd)
  have le: "unat d1 * unat qhat \<le> N1" by (simp add: qhat)
  have pr: "unat (dd1 * qhat) = unat d1 * unat qhat"
    using le unat_less_size [of "hi_lo head u1"] N1 by (subst unat_mult_less) (simp_all add: dd)
  have rhat: "unat rhat = N1 mod unat d1"
    using le by (simp add: rhat_def unat_sub word_le_nat_alt N1 pr qhat modulo_nat_def [symmetric] minus_mult_div_eq_mod)
  have r64: "unat rhat < 2 ^ 64" using d1pos unat_u64_less [of d1] rhat by (simp add: order_less_trans [OF mod_less_divisor])
  have r1: "unat rhat + unat dd1 * unat qhat = N1" by (simp add: rhat qhat dd)
  have c1: "unat (hi_lo (lo rhat) u2) = unat rhat * 2 ^ 64 + unat u2"
    using r64 by (simp add: unat_hi_lo unat_lo)
  have qle: "unat qhat \<le> 2 ^ 64 + 1"
  proof -
    have "unat d1 * unat qhat < unat d1 * 2 ^ 64 + 2 ^ 64" using le N1less by (simp add: algebra_simps)
    also have "\<dots> \<le> unat d1 * (2 ^ 64 + 2)" using norm by (simp add: d1_def algebra_simps)
    finally have "unat qhat < 2 ^ 64 + 2" by (rule mult_less_cancel1 [THEN iffD1, THEN conjunct2])
    then show ?thesis by simp
  qed
  have "unat qhat * unat d2 \<le> (2 ^ 64 + 1) * (2 ^ 64 - 1)"
    using qle unat_u64_less [of d2] by (intro mult_le_mono) simp_all
  then have c2: "unat (qhat * dd2) = unat qhat * unat dd2" by (subst unat_mult_less) (simp_all add: dd)
  have fuel: "2 ^ 64 \<le> unat rhat + 2 * unat dd1" using norm by (simp add: dd d1_def)
  have s3: "(3::nat) = Suc 2" by simp
  obtain q where q: "qhat_loop 3 dd1 dd2 qhat rhat (hi_lo (lo rhat) u2) (qhat * dd2) = Ok q"
    "unat q < 2 ^ 64" "unat q * V2 \<le> U2" "\<And>x. x < 2 ^ 64 \<Longrightarrow> x * V2 \<le> U2 \<Longrightarrow> x \<le> unat qhat \<Longrightarrow> x \<le> unat q"
    using qhat_loop_correct [of dd1 N1 rhat qhat "hi_lo (lo rhat) u2" "unat u2" "qhat * dd2" dd2 2]
      d1pos unat_u64_less [of d1] unat_u64_less [of d2] N1less r64 r1 c1 unat_u64_less [of u2] c2 fuel
    unfolding s3 dd V2_def U2_def by blast
  have V2pos: "0 < V2" using d1pos by (simp add: V2_def)
  have max: "x \<le> unat q" if x: "x < 2 ^ 64" "x * V2 \<le> U2" for x
  proof (rule q(4) [OF x])
    have "x * unat d1 * 2 ^ 64 \<le> x * V2" by (simp add: V2_def algebra_simps)
    also have "\<dots> < (N1 + 1) * 2 ^ 64" using x(2) unat_u64_less [of u2] by (simp add: U2_def)
    finally have "x * unat d1 < N1 + 1" by (rule mult_less_cancel2 [THEN iffD1, THEN conjunct2])
    then show "x \<le> unat qhat" using d1pos by (simp add: qhat less_eq_div_iff_mult_less_eq)
  qed
  have "unat q = min (2 ^ 64 - 1) (U2 div V2)"
  proof (rule antisym)
    show "unat q \<le> min (2 ^ 64 - 1) (U2 div V2)"
      using q(2,3) V2pos by (simp add: less_eq_div_iff_mult_less_eq)
    show "min (2 ^ 64 - 1) (U2 div V2) \<le> unat q"
    proof (rule max)
      have "min (2 ^ 64 - 1) (U2 div V2) * V2 \<le> U2 div V2 * V2" by (intro mult_le_mono1) simp
      also have "\<dots> \<le> U2" by simp
      finally show "min (2 ^ 64 - 1) (U2 div V2) * V2 \<le> U2" .
    qed simp
  qed
  then have "unat q = digit_estimate n U D" by (simp add: digit_estimate_def Udiv Ddiv)
  moreover have "div_estimate index n u carry d = Ok q"
  proof -
    have b: "index + n - 1 < 4" "index + n - 2 < 4" "n - 1 < 4" "n - 2 < 4" using n by simp_all
    have "dd1 \<noteq> 0" using d1pos dd(1) by auto
    then show ?thesis using q(1) b n(2) head
      by (simp add: div_estimate_def checked_get_word_def checked_get_word_u128_def get_word_def get_word_u128_def
          NUM_WORDS_def Let_def u1_def u2_def d1_def d2_def dd1_def dd2_def rhat_def qhat_def split: if_splits)
  qed
  ultimately show ?thesis by blast
qed

section \<open>One step of the division\<close>

text \<open>Arithmetic of the head word after the subtraction.\<close>

lemma head_no_overshoot:
  fixes W W' B D :: nat
  assumes "W' + q * D = W + k * B" "W' < B" "q * D \<le> W + h * B" "W + h * B < q * D + D" "D \<le> B"
  shows "k = h" "W' = W + h * B - q * D"
proof -
  have eq: "W' + h * B + q * D = (W + h * B) + k * B" using assms(1) by (simp add: algebra_simps)
  have "k \<le> h"
  proof (rule ccontr)
    assume "\<not> k \<le> h"
    then have "(h + 1) * B \<le> k * B" by (intro mult_le_mono1) simp
    then show False using eq assms(2,3) by (simp add: algebra_simps)
  qed
  moreover have "h \<le> k"
  proof (rule ccontr)
    assume "\<not> h \<le> k"
    then have "(k + 1) * B \<le> h * B" by (intro mult_le_mono1) simp
    then show False using eq assms(4,5) by (simp add: algebra_simps)
  qed
  ultimately show "k = h" by simp
  then show "W' = W + h * B - q * D" using eq by simp
qed

lemma head_overshoot:
  fixes W W' W'' B D :: nat
  assumes "W' + q * D = W + k * B" "W' < B" "W + h * B < q * D" "q * D \<le> W + h * B + D" "D \<le> B"
    "W'' + k' * B = W' + D" "W'' < B"
  shows "k = h + 1" "k' = 1" "W'' = W + h * B + D - q * D"
proof -
  have eq: "W' + h * B + q * D = (W + h * B) + k * B" using assms(1) by (simp add: algebra_simps)
  have k1: "h < k"
  proof (rule ccontr)
    assume "\<not> h < k"
    then have "k * B \<le> h * B" by (intro mult_le_mono1) simp
    then show False using eq assms(3) by linarith
  qed
  have e2: "W'' + k' * B + h * B + q * D = (W + h * B + D) + k * B" using eq assms(6) by simp
  have "k \<le> h + k'"
  proof (rule ccontr)
    assume "\<not> k \<le> h + k'"
    then have "(h + k' + 1) * B \<le> k * B" by (intro mult_le_mono1) simp
    then show False using e2 assms(4,7) by (simp add: algebra_simps)
  qed
  moreover have "h + k' \<le> k"
  proof (rule ccontr)
    assume "\<not> h + k' \<le> k"
    then have "(k + 1) * B \<le> (h + k') * B" by (intro mult_le_mono1) simp
    then show False using e2 assms(3,5) by (simp add: algebra_simps)
  qed
  moreover have "k' < 2"
  proof (rule ccontr)
    assume "\<not> k' < 2"
    then have "2 * B \<le> k' * B" by (intro mult_le_mono1) simp
    then show False using assms(2,5,6) by linarith
  qed
  ultimately show "k = h + 1" "k' = 1" using k1 by simp_all
  then show "W'' = W + h * B + D - q * D" using e2 by (simp add: algebra_simps)
qed

lemma overshoot_iff:
  assumes "U < D * 2 ^ 64" "2 ^ 64 \<le> D div 2 ^ (64 * (n - 2))"
  shows "overshoots n U D \<longleftrightarrow> digit_estimate n U D = U div D + 1"
    and "\<not> overshoots n U D \<longleftrightarrow> digit_estimate n U D = U div D"
proof -
  have D: "0 < D" using assms(1) by (cases D) simp_all
  have a: "U div D * D \<le> U" "U < (U div D + 1) * D"
    using dividend_less_div_times [OF D, of U] by (simp_all add: algebra_simps)
  have "overshoots n U D = (digit_estimate n U D = U div D + 1) \<and>
    (\<not> overshoots n U D) = (digit_estimate n U D = U div D)"
  proof (cases "digit_estimate n U D = U div D")
    case True
    then have "\<not> overshoots n U D" unfolding overshoots_def using a(1) by (simp only: not_less)
    then show ?thesis using True by simp
  next
    case False
    then have e: "digit_estimate n U D = U div D + 1" using digit_estimate_bounds [OF assms] by linarith
    then have "overshoots n U D" unfolding overshoots_def using a(2) by (simp only:)
    then show ?thesis using e by simp
  qed
  then show "overshoots n U D \<longleftrightarrow> digit_estimate n U D = U div D + 1"
    and "\<not> overshoots n U D \<longleftrightarrow> digit_estimate n U D = U div D" by blast+
qed

lemma div_loop_correct:
  assumes n: "2 \<le> n" "index + n \<le> 4"
    and head: "head = (if index + n = 4 then carry else items u ! (index + n))"
    and U: "U = window u index 0 n + unat head * 2 ^ (64 * n)" and D: "D = window d 0 0 n"
    and less: "U < D * 2 ^ 64" and norm: "2 ^ 63 \<le> unat (items d ! (n - 1))"
  shows "if overshoots n U D \<and> index + n = 4 then div_loop index n u carry d quo = Inl Panic
     else \<exists>u' c'. div_loop index n u carry d quo = Ok (update_word quo index (of_nat (U div D)), u', c')
       \<and> window u' index 0 n = U mod D
       \<and> (index + n < 4 \<longrightarrow> items u' ! (index + n) = 0)
       \<and> (\<forall>w<4. w < index \<or> index + n < w \<longrightarrow> items u' ! w = items u ! w)"
proof -
  let ?B = "2 ^ (64 * n) :: nat" and ?P = "2 ^ (64 * (n - 2)) :: nat"
  obtain q where est: "div_estimate index n u carry d = Ok q" and q: "unat q = digit_estimate n U D"
    using div_estimate_correct [OF assms] by blast
  have q64: "unat q < 2 ^ 64" by (simp add: q digit_estimate_def)
  obtain u1 k where ms: "mul_sub_loop [0..<n] index q d u 0 = Ok (u1, k)" and k: "unat k < 2 ^ 64"
    and w1: "window u1 index 0 n + unat q * D = window u index 0 n + unat k * ?B"
    and fr1: "\<forall>w<4. w < index \<or> index + n \<le> w \<longrightarrow> items u1 ! w = items u ! w"
    using mul_sub_loop_correct [OF n(2) q64, of 0 0 d u] D by auto
  have D_top: "D = (unat (items d ! (n - 1)) * 2 ^ 64 + unat (items d ! (n - 2))) * ?P + window d 0 0 (n - 2)"
    unfolding D using window_top2 [OF n(1), of d 0] by simp
  have "2 ^ 63 * 2 ^ 64 \<le> unat (items d ! (n - 1)) * 2 ^ 64" using norm by (intro mult_le_mono1)
  then have DP: "2 ^ 64 \<le> D div ?P" unfolding D_top using window_less [of d 0 "n - 2"] by simp
  have DB: "D \<le> ?B" unfolding D using window_less [of d 0 n] by simp
  have Dpos: "0 < D" using less by (cases D) simp_all
  have hd: "(if index + n = 4 then Ok (ucast carry) else checked_get_word_u128 u1 (index + n)) = Ok (ucast head :: u128)"
    using head fr1 n(2) by (simp add: checked_get_word_u128_def get_word_u128_def NUM_WORDS_def)
  have uh: "unat (ucast head :: u128) = unat head" by (rule unat_ucast_u128)
  have mdiv: "U mod D = U - U div D * D" by (simp add: modulo_nat_def)
  have dv: "U div D * D \<le> U" "U < U div D * D + D" using dividend_less_div_times [OF Dpos, of U] by simp_all
  show ?thesis
  proof (cases "overshoots n U D")
    case False
    then have qe: "unat q = U div D" using overshoot_iff(2) [OF less DP] q by simp
    have "unat k = unat head" "window u1 index 0 n = U - unat q * D"
      using head_no_overshoot [OF w1 window_less, of "unat head"] dv DB by (simp_all add: qe U)
    then have kh: "k = ucast head" and wm: "window u1 index 0 n = U mod D"
      using mdiv qe by (simp_all add: word_unat_eq_iff uh)
    have lq: "lo q = of_nat (U div D)"
      using q64 by (simp add: word_unat_eq_iff unat_lo qe unat_of_nat)
    have lo0: "lo 0 = 0" by (simp add: lo_def)
    have "div_loop index n u carry d quo =
       Ok (update_word quo index (of_nat (U div D)), if index + n = 4 then u1 else update_word u1 (index + n) 0,
           if index + n = 4 then 0 else carry)"
      using hd n unfolding div_loop_def Let_def est and_then_simps ms prod.case
      by (auto simp: NUM_WORDS_def checked_update_word_def kh lo0 lq split: if_splits)
    moreover have "window (if index + n = 4 then u1 else update_word u1 (index + n) 0) index 0 n = U mod D"
      using n(2) wm by (auto simp: items_update intro!: trans [OF window_cong wm])
    ultimately show ?thesis using False fr1 n(2)
      by (auto simp: items_update)
  next
    case True
    then have qe: "unat q = U div D + 1" using overshoot_iff(1) [OF less DP] q by simp
    define v where "v = (if index + n = 4 then u1 else update_word u1 (index + n) (lo (ucast head - k)))"
    have wv: "window v index 0 n = window u1 index 0 n"
      using n(2) by (intro window_cong) (simp add: v_def items_update)
    obtain u3 k3 where ab: "add_back_loop [0..<n] index d v 0 = Ok (u3, k3)"
      and w3: "window u3 index 0 n + unat k3 * ?B = window u1 index 0 n + D"
      and fr3: "\<forall>w<4. w < index \<or> index + n \<le> w \<longrightarrow> items u3 ! w = items v ! w"
      using add_back_loop_correct [OF n(2), of 0 0 d v] D wv by auto
    have bnd: "window u index 0 n + unat head * ?B < unat q * D" "unat q * D \<le> window u index 0 n + unat head * ?B + D"
      using dv by (simp_all add: qe U)
    note ov = head_overshoot [OF w1 window_less bnd DB w3 window_less]
    have kgt: "ucast head < k" using ov(1) by (simp add: word_less_nat_alt uh)
    have gw: "checked_get_word_u128 u3 4 = Inl Panic"
      by (simp add: checked_get_word_u128_def NUM_WORDS_def)
    show ?thesis
    proof (cases "index + n = 4")
      case c4: True
      have "div_loop index n u carry d quo = Inl Panic"
        using hd n c4 kgt ab unfolding div_loop_def Let_def est and_then_simps ms prod.case
        by (simp add: NUM_WORDS_def div_add_back_def gw v_def)
      then show ?thesis using True c4 by simp
    next
      case c4: False
      then have b: "index + n < 4" using n(2) by simp
      have hk: "unat (ucast head - k) = 2 ^ 128 - 1"
        using ov(1) k unat_u64_less [of head] by (simp add: unat_sub_if' uh)
      then have iv: "items v ! (index + n) = -1"
        using c4 b by (simp add: v_def items_update word_unat_eq_iff unat_lo unsigned_minus_1_eq_mask mask_eq_exp_minus_1)
      then have i3: "items u3 ! (index + n) = -1" using fr3 b by simp
      have l0: "lo (ucast (items u3 ! (index + n)) + k3) = 0"
      proof -
        have "unat (ucast (items u3 ! (index + n)) + k3 :: u128) = 2 ^ 64"
          using ov(2) by (subst unat_add_less) (simp_all add: i3 unat_ucast_u128 unsigned_minus_1_eq_mask mask_eq_exp_minus_1)
        then show ?thesis by (simp add: word_unat_eq_iff unat_lo)
      qed
      have lq: "lo (q - 1) = of_nat (U div D)"
      proof -
        have "unat (q - 1) = U div D"
          using qe by (subst unat_sub) (simp_all add: word_le_nat_alt)
        then show ?thesis using q64 qe by (simp add: word_unat_eq_iff unat_lo unat_of_nat)
      qed
      have "div_loop index n u carry d quo =
         Ok (update_word quo index (of_nat (U div D)), update_word u3 (index + n) 0, carry)"
        using hd n b c4 kgt ab l0 lq unfolding div_loop_def Let_def est and_then_simps ms prod.case
        by (simp add: NUM_WORDS_def div_add_back_def v_def checked_update_word_def
            checked_get_word_u128_def get_word_u128_def)
      moreover have "window (update_word u3 (index + n) 0) index 0 n = U mod D"
      proof -
        have "window (update_word u3 (index + n) 0) index 0 n = window u3 index 0 n"
          using b by (intro window_cong) (simp add: items_update)
        also have "\<dots> = U mod D" unfolding ov(3) using mdiv dv by (simp add: qe U)
        finally show ?thesis .
      qed
      moreover have "\<forall>w<4. w < index \<or> index + n < w \<longrightarrow> items (update_word u3 (index + n) 0) ! w = items u ! w"
        using fr1 fr3 b c4 by (auto simp: items_update v_def)
      ultimately show ?thesis using c4 b by (auto simp: items_update)
    qed
  qed
qed

section \<open>All steps\<close>

lemma window_uval: "window u 0 0 4 = uval u"
  by (cases u) (simp add: window_def atLeast0LessThan lessThan_nat_numeral lessThan_Suc)
lemma window_zero: "n \<le> m \<Longrightarrow> m \<le> 4 \<Longrightarrow> (\<And>w. n \<le> w \<Longrightarrow> w < m \<Longrightarrow> items u ! w = 0) \<Longrightarrow> window u 0 0 m = window u 0 0 n"
proof (induction m)
  case (Suc m)
  show ?case
  proof (cases "n = Suc m")
    case False
    have "window u 0 0 (Suc m) = window u 0 0 m + unat (items u ! m) * 2 ^ (64 * m)"
      by (simp add: window_def)
    then show ?thesis using Suc False by simp
  qed simp
qed simp

lemma div_words_loop_correct:
  assumes D: "D = window d 0 0 n" and norm: "2 ^ 63 \<le> unat (items d ! (n - 1))" and n: "2 \<le> n"
    and jn: "j + n \<le> 4"
    and head: "head = (if j + n = 4 then carry else items u ! (j + n))"
    and U: "U = window u j 0 n + unat head * 2 ^ (64 * n)" and less: "U < D * 2 ^ 64"
    and zero: "\<And>w. j + n < w \<Longrightarrow> w < 4 \<Longrightarrow> items u ! w = 0"
    and quo: "\<And>w. w \<le> j \<Longrightarrow> items quo ! w = 0"
    and R: "R = window u 0 0 (j + n) + unat head * 2 ^ (64 * (j + n))"
  shows "if overshoots n U D \<and> j + n = 4
      then div_words_loop (rev [0..<Suc j]) n u carry d quo = Inl Panic
      else \<exists>quo' u'. div_words_loop (rev [0..<Suc j]) n u carry d quo = Ok (quo', u')
        \<and> uval quo' = uval quo + R div D \<and> uval u' = R mod D"
  using jn head U less zero quo R
proof (induction j arbitrary: u quo carry head U R)
  case 0
  note step = div_loop_correct [OF n 0(1) 0(2) 0(3) D 0(4) norm, of quo]
  have UR: "U = R" by (simp add: 0)
  show ?case
  proof (cases "overshoots n U D \<and> n = 4")
    case True
    then have c: "overshoots n U D \<and> 0 + n = 4" unfolding add_0 .
    show ?thesis using step [unfolded if_P [OF c]] c by auto
  next
    case False
    then obtain u' c' where dl: "div_loop 0 n u carry d quo = Ok (update_word quo 0 (of_nat (U div D)), u', c')"
      and w: "window u' 0 0 n = U mod D" and z: "n < 4 \<longrightarrow> items u' ! n = 0"
      and fr: "\<forall>w<4. n < w \<longrightarrow> items u' ! w = items u ! w"
      using step by auto
    have q64: "U div D < 2 ^ 64" using 0(4) by (simp add: less_mult_imp_div_less mult.commute)
    have "uval (update_word quo 0 (of_nat (U div D))) = uval quo + U div D"
      using uval_update [of 0 quo "of_nat (U div D)"] 0(6) [of 0] q64 by (simp add: unat_of_nat)
    moreover have "uval u' = U mod D"
      using window_zero [of n 4 u'] w z fr 0(1,5) by (auto simp: window_uval [symmetric] le_less)
    ultimately show ?thesis using False dl UR by auto
  qed
next
  case (Suc j)
  note prems = Suc.prems
  note step = div_loop_correct [OF n prems(1) prems(2) prems(3) D prems(4) norm, of quo]
  have l: "rev [0..<Suc (Suc j)] = Suc j # rev [0..<Suc j]" by simp
  show ?case
  proof (cases "overshoots n U D \<and> Suc j + n = 4")
    case True
    show ?thesis using step [unfolded if_P [OF True]] True unfolding l by simp
  next
    case False
    then obtain u' c' where dl: "div_loop (Suc j) n u carry d quo = Ok (update_word quo (Suc j) (of_nat (U div D)), u', c')"
      and w: "window u' (Suc j) 0 n = U mod D" and z: "Suc j + n < 4 \<longrightarrow> items u' ! (Suc j + n) = 0"
      and fr: "\<forall>w<4. w < Suc j \<or> Suc j + n < w \<longrightarrow> items u' ! w = items u ! w"
      using step by auto
    define quo1 where "quo1 = update_word quo (Suc j) (of_nat (U div D))"
    define h1 where "h1 = items u' ! (j + n)"
    define U1 where "U1 = window u' j 0 n + unat h1 * 2 ^ (64 * n)"
    define R1 where "R1 = window u' 0 0 (j + n) + unat h1 * 2 ^ (64 * (j + n))"
    have Dpos: "0 < D" using prems(4) by (cases D) simp_all
    have jn: "j + n < 4" using prems(1) by simp
    have j4: "Suc j < 4" using prems(1) n by simp
    have q64: "U div D < 2 ^ 64" using prems(4) by (simp add: less_mult_imp_div_less mult.commute)
    have U1': "U1 = window u' j 0 (Suc n)" by (simp add: U1_def h1_def window_def)
    also have "\<dots> = unat (items u' ! j) + 2 ^ 64 * window u' (Suc j) 0 n"
      using window_split [of 1 "Suc n" u' j] by (simp add: window_def)
    finally have "U1 = unat (items u' ! j) + 2 ^ 64 * (U mod D)" by (simp add: w)
    moreover have "U mod D + 1 \<le> D" using mod_less_divisor [OF Dpos, of U] by simp
    then have "2 ^ 64 * (U mod D + 1) \<le> 2 ^ 64 * D" by (rule mult_le_mono2)
    ultimately have U1less: "U1 < D * 2 ^ 64" using unat_u64_less [of "items u' ! j"] by simp
    have R1': "R1 = window u' 0 0 (Suc j + n)" by (simp add: R1_def h1_def window_def add.commute)
    also have "\<dots> = window u' 0 0 (Suc j) + 2 ^ (64 * Suc j) * (U mod D)"
      using window_split [of "Suc j" "Suc j + n" u' 0] w by simp
    also have "window u' 0 0 (Suc j) = window u 0 0 (Suc j)"
      using fr j4 by (intro window_cong) simp
    finally have R1v: "R1 = window u 0 0 (Suc j) + 2 ^ (64 * Suc j) * (U mod D)" .
    have "R = window u 0 0 (Suc j) + 2 ^ (64 * Suc j) * U"
      unfolding prems(7) prems(3) using window_split [of "Suc j" "Suc j + n" u 0]
      by (simp add: algebra_simps power_add)
    also have "2 ^ (64 * Suc j) * U = 2 ^ (64 * Suc j) * (U mod D) + D * (2 ^ (64 * Suc j) * (U div D))"
    proof -
      define qd rm where "qd = U div D" and "rm = U mod D"
      have "U = D * qd + rm" by (simp add: qd_def rm_def)
      then have "2 ^ (64 * Suc j) * U = 2 ^ (64 * Suc j) * rm + D * (2 ^ (64 * Suc j) * qd)"
        by (simp only: distrib_left) (simp only: ac_simps)
      then show ?thesis by (simp only: qd_def rm_def)
    qed
    finally have RR1: "R = R1 + D * (2 ^ (64 * Suc j) * (U div D))"
      unfolding R1v by (simp only: add.assoc)
    then have Rdm: "R div D = R1 div D + 2 ^ (64 * Suc j) * (U div D)" "R mod D = R1 mod D"
      using Dpos by simp_all
    have hd: "h1 = (if j + n = 4 then c' else items u' ! (j + n))" using jn by (simp add: h1_def)
    have z1: "items u' ! w = 0" if "j + n < w" "w < 4" for w
      using that z fr prems(5) [of w] by (cases "w = Suc j + n") auto
    have qz: "items quo1 ! w = 0" if "w \<le> j" for w
      using that prems(6) [of w] j4 by (simp add: quo1_def items_update)
    obtain quo' u'' where r: "div_words_loop (rev [0..<Suc j]) n u' c' d quo1 = Ok (quo', u'')"
      "uval quo' = uval quo1 + R1 div D" "uval u'' = R1 mod D"
      using Suc.IH [OF less_imp_le [OF jn] hd U1_def U1less z1 qz R1_def] jn by auto
    have "uval quo1 = uval quo + 2 ^ (64 * Suc j) * (U div D)"
      using uval_update [OF j4, of quo "of_nat (U div D)"] prems(6) [of "Suc j"] q64
      by (simp add: quo1_def unat_of_nat mult.commute)
    then show ?thesis using False r Rdm dl unfolding l by (auto simp: quo1_def)
  qed
qed

section \<open>The division as a function on values\<close>

lemma div_single_loop_correct:
  assumes d: "unat (items d ! 0) = D" "0 < D"
  shows "j \<le> 4 \<Longrightarrow> unat k < D \<Longrightarrow> (\<And>w. w < j \<Longrightarrow> items quo ! w = 0) \<Longrightarrow>
    R = window u 0 0 j + unat k * 2 ^ (64 * j) \<Longrightarrow>
    \<exists>quo' k'. div_single_loop (rev [0..<j]) u d k quo = Ok (quo', k') \<and>
      uval quo' = uval quo + R div D \<and> unat k' = R mod D"
proof (induction j arbitrary: k quo R)
  case 0
  then show ?case by simp
next
  case (Suc j)
  have D64: "D < 2 ^ 64" using unat_u64_less d(1) by metis
  have k64: "unat k < 2 ^ 64" using Suc.prems(2) D64 by simp
  define x where "x = items u ! j"
  define d1 where "d1 = hi_lo (lo k) x"
  define d2 where "d2 = (ucast (items d ! 0) :: u128)"
  define q where "q = d1 div d2"
  define k1 where "k1 = d1 - d2 * q"
  define quo1 where "quo1 = update_word quo j (lo q)"
  have d1: "unat d1 = unat k * 2 ^ 64 + unat x" using k64 by (simp add: d1_def unat_hi_lo unat_lo)
  have d2: "unat d2 = D" by (simp add: d2_def unat_ucast_u128 d)
  have q: "unat q = unat d1 div D" by (simp add: q_def unat_div d2)
  have qD: "unat (d2 * q) = D * (unat d1 div D)"
    using unat_less_size [of d1] by (subst unat_mult_less) (simp_all add: d2 q order_le_less_trans [OF div_times_less_eq_dividend] mult.commute [of D])
  have k1: "unat k1 = unat d1 mod D"
    by (simp add: k1_def unat_sub word_le_nat_alt qD minus_mult_div_eq_mod)
  have "unat k + 1 \<le> D" using Suc.prems(2) by simp
  then have "(unat k + 1) * 2 ^ 64 \<le> D * 2 ^ 64" by (rule mult_le_mono1)
  then have "unat d1 < D * 2 ^ 64" using unat_u64_less [of x] by (simp add: d1)
  then have q64: "unat q < 2 ^ 64" unfolding q by (simp add: less_mult_imp_div_less mult.commute) 
  have j4: "j < 4" using Suc.prems(1) by simp
  have uq: "uval quo1 = uval quo + unat q * 2 ^ (64 * j)"
    using uval_update [OF j4, of quo "lo q"] Suc.prems(3) [of j] q64 by (simp add: quo1_def unat_lo)
  define R1 where "R1 = window u 0 0 j + unat k1 * 2 ^ (64 * j)"
  have "R = window u 0 0 j + unat d1 * 2 ^ (64 * j)"
    unfolding Suc.prems(4) by (simp add: window_def d1 x_def algebra_simps power_add)
  also have "unat d1 = D * unat q + unat k1" by (simp add: q k1)
  finally have "R = R1 + D * (unat q * 2 ^ (64 * j))" by (simp add: R1_def algebra_simps)
  then have R: "R div D = R1 div D + unat q * 2 ^ (64 * j)" "R mod D = R1 mod D" using d(2) by simp_all
  have z: "items quo1 ! w = 0" if "w < j" for w using that Suc.prems(3) [of w] j4 by (simp add: quo1_def items_update)
  obtain quo' k' where r: "div_single_loop (rev [0..<j]) u d k1 quo1 = Ok (quo', k')"
     "uval quo' = uval quo1 + R1 div D" "unat k' = R1 mod D"
    using Suc.IH [OF _ _ z R1_def] k1 d(2) j4 by auto
  have "d2 \<noteq> 0" using d2 d(2) by auto
  then have "div_single_loop (rev [0..<Suc j]) u d k quo = Ok (quo', k')"
    using r(1) j4 by (simp add: checked_get_word_def get_word_def checked_get_word_u128_def get_word_u128_def
        checked_update_word_def NUM_WORDS_def Let_def x_def d1_def d2_def q_def k1_def quo1_def)
  then show ?case using r R uq by simp
qed

text \<open>The normalised problem.\<close>

definition top_window :: "nat \<Rightarrow> nat \<Rightarrow> nat \<Rightarrow> nat \<Rightarrow> nat" where
  "top_window N s m n = N * 2 ^ s div 2 ^ (64 * (m - n))"

text \<open>
  The inputs on which the division panics although the divisor is not zero: a dividend of
  four words, a divisor of three or four, and a first digit estimate that is one too large.
\<close>

definition div_overshoots :: "u256 \<Rightarrow> u256 \<Rightarrow> bool" where
  "div_overshoots a b \<longleftrightarrow>
     (let n = num_words b; s = leading_zeros (get_word b (n - 1))
      in num_words a = 4 \<and> 2 \<le> n \<and> overshoots n (top_window (uval a) s 4 n) (uval b * 2 ^ s))"

lemma window_Suc: "window u i 0 (Suc n) = window u i 0 n + unat (items u ! (i + n)) * 2 ^ (64 * n)"
  by (simp add: window_def)

lemma window_mod: "n \<le> 4 \<Longrightarrow> window u 0 0 n = uval u mod 2 ^ (64 * n)"
  using window_split [of n 4 u 0] window_less [of u 0 n] by (simp add: window_uval)

lemma window_all: "n \<le> 4 \<Longrightarrow> uval u < 2 ^ (64 * n) \<Longrightarrow> window u 0 0 n = uval u"
  by (simp add: window_mod)

lemma top_word:
  assumes "num_words b = n" "0 < n"
  shows "items b ! (n - 1) \<noteq> 0"
    and "uval b = window b 0 0 (n - 1) + unat (items b ! (n - 1)) * 2 ^ (64 * (n - 1))"
proof -
  have n4: "n \<le> 4" using assms(1) num_words_le [of b] by simp
  show "uval b = window b 0 0 (n - 1) + unat (items b ! (n - 1)) * 2 ^ (64 * (n - 1))"
    using window_all [OF n4, of b] num_words_bounds(1) [of b] window_Suc [of b 0 "n - 1"] assms by simp
  show "items b ! (n - 1) \<noteq> 0"
    using assms by (cases b) (auto simp: num_words_eq split: if_splits)
qed

lemma normalised_divisor:
  assumes n: "num_words b = n" "2 \<le> n"
  defines "s \<equiv> leading_zeros (get_word b (n - 1))"
  shows "s < 64" "uval (shift_left b s) = uval b * 2 ^ s" "2 ^ 63 \<le> unat (items (shift_left b s) ! (n - 1))"
    "window (shift_left b s) 0 0 n = uval b * 2 ^ s"
proof -
  let ?C = "2 ^ (64 * (n - 1)) :: nat"
  have n4: "n \<le> 4" using n(1) num_words_le [of b] by simp
  have n0: "0 < n" using n(2) by simp
  define w where "w = items b ! (n - 1)"
  note tw = top_word [OF n(1) n0, folded w_def]
  have sw: "s = leading_zeros w" by (simp add: s_def w_def get_word_def)
  note lz = leading_zeros_bounds [OF tw(1), folded sw, simplified]
  show s: "s < 64" by (rule lz(1))
  have p63: "(2::nat) ^ (63 - s) * 2 ^ s = 2 ^ 63" and p64: "(2::nat) ^ (64 - s) * 2 ^ s = 2 ^ 64"
    using s by (simp_all flip: power_add)
  have "64 * n = 64 + 64 * (n - 1)" using n0 by simp
  then have Cn: "(2::nat) ^ (64 * n) = 2 ^ 64 * ?C" by (simp only: power_add)
  have wlo: "2 ^ 63 \<le> unat w * 2 ^ s" using mult_le_mono1 [OF lz(2), of "2 ^ s"] p63 by simp
  have "unat w + 1 \<le> 2 ^ (64 - s)" using lz(3) by simp
  from mult_le_mono1 [OF this, of "2 ^ s"] have whi: "(unat w + 1) * 2 ^ s \<le> 2 ^ 64" unfolding p64 .
  have "uval b < (unat w + 1) * ?C" using tw(2) window_less [of b 0 "n - 1"] by simp
  then have "uval b * 2 ^ s < (unat w + 1) * ?C * 2 ^ s" by simp
  also have "\<dots> = (unat w + 1) * 2 ^ s * ?C" by (simp only: ac_simps)
  also have "\<dots> \<le> 2 ^ 64 * ?C" using whi by (rule mult_le_mono1)
  finally have bs: "uval b * 2 ^ s < 2 ^ (64 * n)" unfolding Cn .
  also have "(2::nat) ^ (64 * n) \<le> 2 ^ 256" by (rule power_increasing) (use n4 in simp_all)
  finally show v: "uval (shift_left b s) = uval b * 2 ^ s" using s by (simp add: uval_shift_left)
  show win: "window (shift_left b s) 0 0 n = uval b * 2 ^ s"
    using window_all [OF n4, of "shift_left b s"] bs v by simp
  define t where "t = unat (items (shift_left b s) ! (n - 1))"
  have "2 ^ 63 * ?C \<le> unat w * 2 ^ s * ?C" using wlo by (rule mult_le_mono1)
  also have "\<dots> \<le> uval b * 2 ^ s" using tw(2) by (simp add: algebra_simps)
  also have "\<dots> < (t + 1) * ?C"
    using win window_Suc [of "shift_left b s" 0 "n - 1"] window_less [of "shift_left b s" 0 "n - 1"] n0
    by (simp add: t_def)
  finally have "2 ^ 63 < t + 1" by (rule mult_less_cancel2 [THEN iffD1, THEN conjunct2])
  then show "2 ^ 63 \<le> unat (items (shift_left b s) ! (n - 1))" by (simp add: t_def)
qed

lemma normalised_dividend:
  assumes m: "num_words a = m" "3 \<le> m" and s: "s < 64"
    and c: "c = (if m = 4 \<and> leading_zeros (get_word a (m - 1)) < s
              then drop_bit (64 - s) (get_word a (m - 1)) else 0)"
    and head: "head = (if m = 4 then c else items (shift_left a s) ! m)"
  shows "uval a * 2 ^ s = window (shift_left a s) 0 0 m + unat head * 2 ^ (64 * m)"
proof -
  define u where "u = shift_left a s"
  define N where "N = uval a"
  have u: "uval u = (N * 2 ^ s) mod 2 ^ 256" using s by (simp add: u_def N_def uval_shift_left)
  consider "m = 3" | "m = 4" using m num_words_le [of a] by linarith
  then show ?thesis
  proof cases
    case 1
    have "N < 2 ^ 192" using num_words_bounds(1) [of a] m 1 by (simp add: N_def)
    moreover have "(2::nat) ^ s \<le> 2 ^ 64" by (rule power_increasing) (use s in simp_all)
    ultimately have "N * 2 ^ s < 2 ^ 192 * 2 ^ 64" by (intro mult_less_le_imp_less) simp_all
    then have "uval u = N * 2 ^ s" using u by simp
    then show ?thesis using window_Suc [of u 0 3] 1 head by (simp add: u_def N_def flip: window_uval)
  next
    case 2
    define w where "w = items a ! 3"
    have tw: "w \<noteq> 0" "N = window a 0 0 3 + unat w * 2 ^ 192"
      using top_word [of a 4] m 2 by (simp_all add: w_def N_def)
    have p: "(2::nat) ^ (64 - s) * 2 ^ s = 2 ^ 64" using s by (simp flip: power_add)
    have "unat c = unat w div 2 ^ (64 - s)"
    proof (cases "leading_zeros w < s")
      case True
      then show ?thesis using 2 by (simp add: c get_word_def w_def unat_drop_bit)
    next
      case False
      then have "(2::nat) ^ (64 - leading_zeros w) \<le> 2 ^ (64 - s)" by (intro power_increasing) simp_all
      moreover have "unat w < 2 ^ (64 - leading_zeros w)" using leading_zeros_bounds(3) [OF tw(1)] by simp
      ultimately have "unat w < 2 ^ (64 - s)" by linarith
      then show ?thesis using 2 False by (simp add: c get_word_def w_def)
    qed
    also have "\<dots> = N div 2 ^ 192 div 2 ^ (64 - s)"
      using window_less [of a 0 3] by (simp add: tw(2))
    also have "\<dots> = N div (2 ^ 192 * 2 ^ (64 - s))"
      by (rule div_mult2_eq [symmetric])
    also have "\<dots> = (N * 2 ^ s) div ((2 ^ 192 * 2 ^ (64 - s)) * 2 ^ s)"
      by (rule div_mult_mult2 [symmetric]) simp
    also have "(2 ^ 192 * 2 ^ (64 - s)) * 2 ^ s = (2::nat) ^ 256"
      unfolding mult.assoc p by simp
    finally have "unat c = (N * 2 ^ s) div 2 ^ 256" .
    then have "N * 2 ^ s = uval u + unat c * 2 ^ 256" using u by simp
    then show ?thesis using 2 head by (simp add: u_def N_def window_uval)
  qed
qed

lemma u256_div_long:
  assumes m: "num_words a = m" "3 \<le> m" and n: "num_words b = n" "2 \<le> n" "n \<le> m"
  shows "if div_overshoots a b then u256_div a b rr = Inl Panic
     else \<exists>q r. u256_div a b rr = Ok (q, r) \<and> uval q = uval a div uval b \<and>
       uval r = (if rr then uval a mod uval b else 0)"
proof -
  define s where "s = leading_zeros (get_word b (n - 1))"
  note nb = normalised_divisor [OF n(1,2), folded s_def]
  define u d where "u = shift_left a s" and "d = shift_left b s"
  define c where "c = (if m = 4 \<and> leading_zeros (get_word a (m - 1)) < s
              then drop_bit (64 - s) (get_word a (m - 1)) else 0)"
  define head where "head = (if m = 4 then c else items u ! m)"
  define R U D where "R = uval a * 2 ^ s" and "U = R div 2 ^ (64 * (m - n))" and "D = uval b * 2 ^ s"
  have m4: "m \<le> 4" using m(1) num_words_le [of a] by simp
  have R: "R = window u 0 0 m + unat head * 2 ^ (64 * m)"
    unfolding R_def u_def by (rule normalised_dividend [OF m nb(1) c_def]) (simp add: head_def u_def)
  have "window u 0 0 m = window u 0 0 (m - n) + 2 ^ (64 * (m - n)) * window u (m - n) 0 n"
    using window_split [of "m - n" m u 0] n(3) by simp
  moreover have "(2::nat) ^ (64 * m) = 2 ^ (64 * (m - n)) * 2 ^ (64 * n)"
    using n(3) by (simp flip: power_add)
  ultimately have RU: "R = window u 0 0 (m - n) + 2 ^ (64 * (m - n)) * (window u (m - n) 0 n + unat head * 2 ^ (64 * n))"
    unfolding R by (simp add: algebra_simps)
  then have U: "U = window u (m - n) 0 n + unat head * 2 ^ (64 * n)"
    unfolding U_def using window_less [of u 0 "m - n"] by simp
  have Ulow: "2 ^ (64 * (m - n)) * U \<le> R" unfolding U_def by simp
  have "R < 2 ^ (64 * m) * 2 ^ s" unfolding R_def using num_words_bounds(1) [of a] m(1) by simp
  also have "64 * m = 64 * (m - n) + (64 * (n - 1) + 64)" using n(2,3) by simp
  also have "(2::nat) ^ (64 * (m - n) + (64 * (n - 1) + 64)) = 2 ^ (64 * (m - n)) * (2 ^ (64 * (n - 1)) * 2 ^ 64)"
    by (simp only: power_add)
  also have "2 ^ (64 * (m - n)) * (2 ^ (64 * (n - 1)) * 2 ^ 64) * 2 ^ s \<le> 2 ^ (64 * (m - n)) * (uval b * 2 ^ 64) * 2 ^ s"
    using num_words_bounds(2) [of b] n by (intro mult_le_mono) simp_all
  also have "2 ^ (64 * (m - n)) * (uval b * 2 ^ 64) * 2 ^ s = 2 ^ (64 * (m - n)) * (D * 2 ^ 64)"
    by (simp only: D_def ac_simps)
  finally have "R < 2 ^ (64 * (m - n)) * (D * 2 ^ 64)" .
  with Ulow have "2 ^ (64 * (m - n)) * U < 2 ^ (64 * (m - n)) * (D * 2 ^ 64)" by (rule le_less_trans)
  then have less: "U < D * 2 ^ 64" by (rule mult_less_cancel1 [THEN iffD1, THEN conjunct2])
  have z: "\<And>w. m - n + n < w \<Longrightarrow> w < 4 \<Longrightarrow> items u ! w = 0" using m n(3) by simp
  have jn: "m - n + n \<le> 4" using m4 n(3) by simp
  have h: "head = (if m - n + n = 4 then c else items u ! (m - n + n))" using n(3) by (simp add: head_def)
  have R': "R = window u 0 0 (m - n + n) + unat head * 2 ^ (64 * (m - n + n))" using R n(3) by simp
  have q0: "\<And>w. w \<le> m - n \<Longrightarrow> items (u256_new 0 0) ! w = 0"
    using m4 n(2) by (auto simp: u256_new_def lo_def hi_def nth_Cons split: nat.splits)
  note loop = div_words_loop_correct [OF nb(4) [folded d_def D_def, symmetric] nb(3) [folded d_def] n(2) jn h U less z q0 R']
  have ov: "div_overshoots a b \<longleftrightarrow> overshoots n U D \<and> m - n + n = 4"
    using m(1) n by (auto simp: div_overshoots_def Let_def top_window_def U_def R_def D_def s_def)
  have run: "u256_div a b rr = and_then (div_words_loop (rev [0..<Suc (m - n)]) n u c d (u256_new 0 0))
      (\<lambda>(quo, dividend). Ok (quo, if rr then shift_right dividend s else u256_new 0 0))"
    using m(2) n(2,3) unfolding u256_div_def Let_def m(1) n(1) NUM_WORDS_def U64_RESOLUTION_def
      s_def [symmetric] c_def [symmetric] u_def [symmetric] d_def [symmetric]
    by (simp del: upt_Suc)
  have uz: "uval (u256_new 0 0) = 0" by (simp add: uval_new)
  have bpos: "0 < uval b" using num_words_bounds(2) [of b] n by (cases "uval b") simp_all
  show ?thesis
  proof (cases "div_overshoots a b")
    case True
    then show ?thesis using loop unfolding ov run by simp
  next
    case False
    then obtain q r where l: "div_words_loop (rev [0..<Suc (m - n)]) n u c d (u256_new 0 0) = Ok (q, r)"
      "uval q = R div D" "uval r = R mod D"
      using loop unfolding ov uz by auto
    have q: "uval q = uval a div uval b" using l(2) by (simp add: R_def D_def)
    have r: "uval (shift_right r s) = uval a mod uval b"
      using nb(1) l(3) by (simp add: uval_shift_right R_def D_def flip: mult_mod_left)
    show ?thesis using False l(1) q r unfolding run by (auto simp: uz)
  qed
qed

text \<open>The number with a given value.\<close>

definition u256_of_nat :: "nat \<Rightarrow> u256" where
  "u256_of_nat x = U256Muldiv (of_nat x) (of_nat (x div 2 ^ 64)) (of_nat (x div 2 ^ 128)) (of_nat (x div 2 ^ 192))"

lemma limb_of_nat: "(of_nat (unat w + 2 ^ 64 * y) :: u64) = w"
  using unat_u64_less [of w] by (simp only: word_unat_eq_iff unat_of_nat) simp

lemma u256_of_nat_uval [simp]: "u256_of_nat (uval u) = u"
proof (cases u)
  case (U256Muldiv a b c d)
  note lt = unat_u64_less [of a] unat_u64_less [of b] unat_u64_less [of c] unat_u64_less [of d]
  define x1 x2 where "x1 = unat b + 2 ^ 64 * (unat c + 2 ^ 64 * unat d)" and "x2 = unat c + 2 ^ 64 * unat d"
  have v: "uval u = unat a + 2 ^ 64 * x1" "x1 = unat b + 2 ^ 64 * x2" "x2 = unat c + 2 ^ 64 * unat d"
    by (simp_all add: U256Muldiv x1_def x2_def)
  have "uval u div 2 ^ 64 = x1" "x1 div 2 ^ 64 = x2" "x2 div 2 ^ 64 = unat d"
    using lt by (simp_all add: v)
  then have dv: "uval u div 2 ^ 64 = x1" "uval u div 2 ^ 128 = x2" "uval u div 2 ^ 192 = unat d"
    using div_mult2_eq [of "uval u" "2 ^ 64" "2 ^ 64"] div_mult2_eq [of "uval u" "2 ^ 128" "2 ^ 64"] by simp_all
  have "(of_nat (uval u) :: u64) = a" "(of_nat x1 :: u64) = b" "(of_nat x2 :: u64) = c"
    unfolding v by (rule limb_of_nat)+
  then show ?thesis unfolding u256_of_nat_def dv by (simp add: U256Muldiv)
qed

lemma uval_u256_of_nat: "x < 2 ^ 256 \<Longrightarrow> uval (u256_of_nat x) = x"
proof -
  assume x: "x < 2 ^ 256"
  define x1 x2 x3 where "x1 = x div 2 ^ 64" and "x2 = x1 div 2 ^ 64" and "x3 = x2 div 2 ^ 64"
  have dv: "x div 2 ^ 128 = x2" "x div 2 ^ 192 = x3"
    using div_mult2_eq [of x "2 ^ 64" "2 ^ 64"] div_mult2_eq [of x "2 ^ 128" "2 ^ 64"]
    by (simp_all add: x1_def x2_def x3_def)
  have "x3 < 2 ^ 64" using x dv(2) by (simp add: less_mult_imp_div_less flip: dv(2))
  then have "x3 mod 2 ^ 64 = x3" by simp
  then have "uval (u256_of_nat x) = x mod 2 ^ 64 + 2 ^ 64 * (x1 mod 2 ^ 64 + 2 ^ 64 * (x2 mod 2 ^ 64 + 2 ^ 64 * x3))"
    unfolding u256_of_nat_def dv x1_def [symmetric] by (simp add: unat_of_nat)
  also have "x2 mod 2 ^ 64 + 2 ^ 64 * x3 = x2" unfolding x3_def by (rule mod_mult_div_eq)
  also have "x1 mod 2 ^ 64 + 2 ^ 64 * x2 = x1" unfolding x2_def by (rule mod_mult_div_eq)
  also have "x mod 2 ^ 64 + 2 ^ 64 * x1 = x" unfolding x1_def by (rule mod_mult_div_eq)
  finally show ?thesis .
qed

lemma u256_of_natI: "uval u = x \<Longrightarrow> u = u256_of_nat x"
  by (metis u256_of_nat_uval)

lemma u256_div_value:
  "if uval b = 0 \<or> div_overshoots a b then u256_div a b rr = Inl Panic
   else \<exists>q r. u256_div a b rr = Ok (q, r) \<and> uval q = uval a div uval b \<and>
     uval r = (if rr then uval a mod uval b else 0)"
proof -
  define m n where "m = num_words a" and "n = num_words b"
  note defs = m_def [symmetric] n_def [symmetric]
  have m4: "m \<le> 4" unfolding m_def by (rule num_words_le)
  have zero: "num_words u = 0 \<longleftrightarrow> uval u = 0" for u
    using num_words_le_iff [of 0 u] by simp
  have uz: "uval (u256_new 0 0) = 0" by (simp add: uval_new)
  have nov: "div_overshoots a b \<Longrightarrow> m = 4 \<and> 2 \<le> n" by (simp add: div_overshoots_def m_def n_def Let_def)
  consider "n = 0" | "n \<noteq> 0" "m = 0" | "n \<noteq> 0" "m \<noteq> 0" "m < n" | "n \<noteq> 0" "n \<le> m" "m < 3"
    | "3 \<le> m" "n = 1" | "3 \<le> m" "2 \<le> n" "n \<le> m" by linarith
  then show ?thesis
  proof cases
    case 1
    then show ?thesis using zero [of b] by (simp add: u256_div_def defs)
  next
    case 2
    then show ?thesis using zero [of b] zero [of a] nov by (auto simp: u256_div_def defs uz Let_def)
  next
    case 3
    have "uval a < 2 ^ (64 * m)" using num_words_bounds(1) [of a] by (simp add: defs)
    also have "(2::nat) ^ (64 * m) \<le> 2 ^ (64 * (n - 1))" by (rule power_increasing) (use 3 in simp_all)
    also have "\<dots> \<le> uval b" using num_words_bounds(2) [of b] 3 by (simp add: defs)
    finally have "uval a < uval b" .
    then show ?thesis using zero [of b] nov 3 num_words_le [of b] by (auto simp: u256_div_def defs uz Let_def)
  next
    case 4
    have ab: "uval a < 2 ^ 128" "uval b < 2 ^ 128"
      using num_words_le_iff [of 2 a] num_words_le_iff [of 2 b] 4 by (simp_all add: defs)
    have b0: "0 < uval b" using zero [of b] 4 by (simp add: defs)
    have "(of_nat (uval b) :: u128) \<noteq> 0" using ab b0 by (simp add: word_unat_eq_iff unat_of_nat)
    moreover have "uval a div uval b < 2 ^ 128" "uval a mod uval b < 2 ^ 128"
      using ab b0 by (simp_all add: order_le_less_trans [OF div_le_dividend] order_le_less_trans [OF mod_less_eq_dividend])
    ultimately show ?thesis using zero [of b] nov 4 ab b0
      by (auto simp: u256_div_def defs uz try_into_u128_eq Let_def uval_new unat_div unat_mod unat_of_nat)
  next
    case 5
    have b64: "uval b = unat (items b ! 0)"
      using top_word [of b 1] 5 by (simp add: n_def)
    have b0: "0 < uval b" using zero [of b] 5 by (simp add: defs)
    have z0: "\<And>w. w < m \<Longrightarrow> items (u256_new 0 0) ! w = 0"
      using m4 by (auto simp: u256_new_def lo_def hi_def nth_Cons split: nat.splits)
    have wa: "window a 0 0 m = uval a" using window_all [OF m4, of a] num_words_bounds(1) [of a] by (simp add: m_def)
    have R: "uval a = window a 0 0 m + unat (0::u128) * 2 ^ (64 * m)" using wa by simp
    have k0: "unat (0::u128) < uval b" using b0 by simp
    obtain quo' k' where l: "div_single_loop (rev [0..<m]) a b 0 (u256_new 0 0) = Ok (quo', k')"
      "uval quo' = uval (u256_new 0 0) + uval a div uval b" "unat k' = uval a mod uval b"
      using div_single_loop_correct [OF b64 [symmetric] b0 m4 k0 z0 R] by blast
    show ?thesis using 5 l zero [of b] nov m4 by (auto simp: u256_div_def defs uz Let_def uval_new)
  next
    case 6
    then have "uval b \<noteq> 0" using zero [of b] by (simp add: defs)
    then show ?thesis using u256_div_long [of a m b n rr] 6 by (simp add: m_def n_def)
  qed
qed

lemma u256_div_spec:
  "u256_div a b rr =
     (if uval b = 0 \<or> div_overshoots a b then Inl Panic
      else Ok (u256_of_nat (uval a div uval b), u256_of_nat (if rr then uval a mod uval b else 0)))"
  using u256_div_value [of b a rr] by (auto dest: u256_of_natI split: if_splits)

lemma overshoots_words: "div_overshoots a b \<Longrightarrow> num_words a = 4 \<and> 3 \<le> num_words b"
proof -
  assume ov: "div_overshoots a b"
  have no: "\<not> overshoots 2 U D" for U D
  proof -
    have "digit_estimate 2 U D * D \<le> U div D * D" by (rule mult_le_mono1) (simp add: digit_estimate_def)
    also have "\<dots> \<le> U" by simp
    finally show ?thesis unfolding overshoots_def by (rule leD)
  qed
  then have "num_words b \<noteq> 2" using ov by (auto simp: div_overshoots_def Let_def)
  then show ?thesis using ov by (auto simp: div_overshoots_def Let_def)
qed

section \<open>Properties\<close>

text \<open>C25: The 256-bit division returns the exact quotient and, when asked for, the exact
  remainder, for every dividend and divisor except a zero divisor and the inputs on which the
  digit estimate overshoots in the step that uses the carry word; on those it panics.\<close>

theorem u256_div_correct:
  "u256_div a b return_remainder =
     (if uval b = 0 \<or> div_overshoots a b then Inl Panic
      else Ok (u256_of_nat (uval a div uval b),
               u256_of_nat (if return_remainder then uval a mod uval b else 0)))"
  by (rule u256_div_spec)

text \<open>C27: Division never panics for a non-zero divisor of at most two words, or for a dividend of
  at most three, and quotient and remainder recompose the dividend.\<close>

theorem u256_div_total:
  assumes "uval b \<noteq> 0" "uval b < 2 ^ 128 \<or> uval a < 2 ^ 192"
  shows "\<exists>q r. u256_div a b return_remainder = Ok (q, r) \<and> uval a = uval b * uval q + (if return_remainder then uval r else uval a mod uval b)"
proof -
  have "\<not> div_overshoots a b"
    using assms(2) overshoots_words [of a b] num_words_le_iff [of 2 b] num_words_le_iff [of 3 a] by auto
  then show ?thesis using u256_div_value [of b a return_remainder] assms(1)
    by (cases return_remainder) auto
qed

lemma u256_div_total_witness:
  "\<exists>q r. u256_div (U256Muldiv 7 0 9 4) (U256Muldiv 5 3 0 0) True = Ok (q, r) \<and>
     uval (U256Muldiv 7 0 9 4) = uval (U256Muldiv 5 3 0 0) * uval q + uval r"
  using u256_div_total [of "U256Muldiv 5 3 0 0" "U256Muldiv 7 0 9 4" True] by simp

text \<open>An example of the panic: the division of \<open>2 ^ 255\<close> by \<open>2 ^ 191 + 1\<close>, both in range, panics: the add-back of
  \<open>div_loop\<close> reads a fifth word of the dividend.\<close>

lemma u256_div_add_back_panics:
  "u256_div (U256Muldiv 0 0 0 (2 ^ 63)) (U256Muldiv 1 0 (2 ^ 63) 0) True = Inl Panic"
  by code_simp

end
