(* ===== verification/Bit_Math.thy ===== *)
theory Bit_Math
  imports U256_Div Complex_Main
begin

text \<open>
  Multiplication, division and shifting with an explicit rounding direction
  (\<^verbatim>\<open>math/bit_math.rs\<close>), and the signed changes of a liquidity
  (\<^verbatim>\<open>math/liquidity_math.rs\<close>). The specification \<open>quot up a b\<close> is the exact quotient
  \<open>a / b\<close> rounded up or down; every routine is shown equal to it on its whole domain, with
  the error it returns outside.
\<close>

section \<open>Definitions\<close>

definition Q64_RESOLUTION :: nat where
  "Q64_RESOLUTION = 64"

definition Q64_MASK :: u128 where
  "Q64_MASK = 0xFFFFFFFFFFFFFFFF"

definition checked_mul_div_round_up_if :: "u128 \<Rightarrow> u128 \<Rightarrow> u128 \<Rightarrow> bool \<Rightarrow> u128 result" where
  "checked_mul_div_round_up_if n0 n1 d round_up =
     (if d = 0 then Fail DivideByZero
      else and_then (ok_or (checked_mul n0 n1) MulDivOverflow) (\<lambda>p.
        let n = p div d
        in Ok (if round_up \<and> p mod d > 0 then n + 1 else n)))"

definition checked_mul_div :: "u128 \<Rightarrow> u128 \<Rightarrow> u128 \<Rightarrow> u128 result" where
  "checked_mul_div n0 n1 d = checked_mul_div_round_up_if n0 n1 d False"

definition checked_mul_div_round_up :: "u128 \<Rightarrow> u128 \<Rightarrow> u128 \<Rightarrow> u128 result" where
  "checked_mul_div_round_up n0 n1 d = checked_mul_div_round_up_if n0 n1 d True"

definition checked_mul_shift_right_round_up_if :: "u128 \<Rightarrow> u128 \<Rightarrow> bool \<Rightarrow> u64 result" where
  "checked_mul_shift_right_round_up_if n0 n1 round_up =
     (if n0 = 0 \<or> n1 = 0 then Ok 0
      else and_then (ok_or (checked_mul n0 n1) MultiplicationShiftRightOverflow) (\<lambda>p.
        let result = ucast (drop_bit Q64_RESOLUTION p) :: u64;
            should_round = round_up \<and> p AND Q64_MASK > 0
        in if should_round \<and> result = - 1 then Fail MultiplicationOverflow
           else Ok (if should_round then result + 1 else result)))"

definition checked_mul_shift_right :: "u128 \<Rightarrow> u128 \<Rightarrow> u64 result" where
  "checked_mul_shift_right n0 n1 = checked_mul_shift_right_round_up_if n0 n1 False"

definition div_round_up_if :: "u128 \<Rightarrow> u128 \<Rightarrow> bool \<Rightarrow> u128 result" where
  "div_round_up_if n d round_up =
     (if d = 0 then Fail DivideByZero
      else let q = n div d in Ok (if round_up \<and> n mod d > 0 then q + 1 else q))"

definition div_round_up :: "u128 \<Rightarrow> u128 \<Rightarrow> u128 result" where
  "div_round_up n d = div_round_up_if n d True"

definition div_round_up_if_u256 :: "u256 \<Rightarrow> u256 \<Rightarrow> bool \<Rightarrow> u128 result" where
  "div_round_up_if_u256 n d round_up =
     and_then (u256_div n d round_up) (\<lambda>(quo, remainder).
       let result = (if round_up \<and> \<not> is_zero remainder then u256_add quo (u256_new 0 1) else quo)
       in try_into_u128 result)"

text \<open>\<open>delta.abs() as u128\<close> wraps for \<open>i128::MIN\<close>, whose magnitude is still the right one.\<close>

definition add_liquidity_delta :: "u128 \<Rightarrow> i128 \<Rightarrow> u128 result" where
  "add_liquidity_delta liquidity delta =
     (if delta = 0 then Ok liquidity
      else if delta > 0 then ok_or (checked_add liquidity (of_int delta)) LiquidityOverflow
      else ok_or (checked_sub liquidity (of_int (wrap_i128 \<bar>delta\<bar>))) LiquidityUnderflow)"

definition convert_to_liquidity_delta :: "u128 \<Rightarrow> bool \<Rightarrow> i128 result" where
  "convert_to_liquidity_delta liquidity_amount positive =
     (if liquidity_amount > 2 ^ 127 - 1 then Fail LiquidityTooHigh
      else Ok (if positive then wrap_i128 (uint liquidity_amount)
               else wrap_i128 (- wrap_i128 (uint liquidity_amount))))"

section \<open>Rounded quotients\<close>

text \<open>The exact quotient, rounded up or down.\<close>

definition quot :: "bool \<Rightarrow> nat \<Rightarrow> nat \<Rightarrow> nat" where
  "quot up a b = nat (if up then \<lceil>real a / real b\<rceil> else \<lfloor>real a / real b\<rfloor>)"

lemma quot_down [simp]: "quot False a b = a div b"
  by (simp add: quot_def floor_divide_of_nat_eq)

lemma quot_up_le_iff: "0 < b \<Longrightarrow> quot True a b \<le> c \<longleftrightarrow> a \<le> c * b"
proof -
  assume b: "0 < b"
  have "quot True a b \<le> c \<longleftrightarrow> \<lceil>real a / real b\<rceil> \<le> int c"
    unfolding quot_def if_True nat_le_iff ..
  also have "\<dots> \<longleftrightarrow> real a \<le> real c * real b" using b by (simp add: ceiling_le_iff divide_le_eq)
  also have "\<dots> \<longleftrightarrow> a \<le> c * b" by (simp flip: of_nat_mult)
  finally show ?thesis .
qed

lemma le_quot_down_iff: "0 < b \<Longrightarrow> c \<le> quot False a b \<longleftrightarrow> c * b \<le> a"
  by (simp add: less_eq_div_iff_mult_less_eq)

lemma quot_up: "quot True a b = a div b + (if a mod b = 0 \<or> b = 0 then 0 else 1)"
proof (cases "b = 0")
  case False
  define q where "q = a div b + (if a mod b = 0 then 0 else 1)"
  have "quot True a b \<le> c \<longleftrightarrow> q \<le> c" for c
  proof -
    have "a \<le> c * b \<longleftrightarrow> q \<le> c"
    proof (cases "a mod b = 0")
      case True
      then show ?thesis using False by (auto simp: q_def)
    next
      case nz: False
      have "a \<le> c * b \<longleftrightarrow> a < c * b" using nz by (metis le_eq_less_or_eq mod_mult_self2_is_0)
      also have "\<dots> \<longleftrightarrow> a div b < c" using False by (simp add: div_less_iff_less_mult)
      finally show ?thesis using nz by (simp add: q_def Suc_le_eq)
    qed
    then show ?thesis using False quot_up_le_iff [of b a c] by simp
  qed
  then have "quot True a b = q" by (meson eq_iff order_refl)
  then show ?thesis using False by (simp add: q_def)
qed (simp add: quot_def)

lemma quot_if: "quot up a b = a div b + (if up \<and> a mod b \<noteq> 0 \<and> b \<noteq> 0 then 1 else 0)"
  by (cases up) (simp_all add: quot_up)

lemma quot_mono:
  assumes "a \<le> a'"
  shows "quot up a b \<le> quot up a' b"
proof (cases "b = 0 \<or> \<not> up")
  case True
  then show ?thesis using assms by (auto simp: quot_if div_le_mono)
next
  case False
  then show ?thesis using assms quot_up_le_iff [of b a "quot True a' b"] quot_up_le_iff [of b a' "quot True a' b"] by auto
qed

lemma quot_le: "quot up a b \<le> a"
proof (cases "0 < b \<and> up")
  case True
  then show ?thesis by (cases b) (simp_all add: quot_up_le_iff)
next
  case False
  then show ?thesis by (auto simp: quot_if)
qed

section \<open>The routines compute rounded quotients\<close>

lemma word_of_nat_eqI: "unat (w::'a::len word) = n \<Longrightarrow> w = of_nat n"
  by auto

lemma word_gt_0_unat: "(w::'a::len word) > 0 \<longleftrightarrow> unat w \<noteq> 0"
  by (simp add: word_gt_0 unat_eq_0)

lemma quot_word: "d \<noteq> 0 \<Longrightarrow> (if up \<and> n mod d > 0 then n div d + 1 else n div d) = (of_nat (quot up (unat n) (unat d)) :: 'a::len word)"
proof -
  assume d: "d \<noteq> 0"
  let ?r = "if up \<and> n mod d > 0 then n div d + 1 else n div d"
  have "unat ?r = quot up (unat n) (unat d)"
  proof (cases "up \<and> n mod d > 0")
    case True
    then have *: "quot up (unat n) (unat d) = unat (n div d) + 1"
      using d by (simp add: quot_if word_gt_0_unat unat_mod unat_div unat_eq_0)
    moreover have "quot up (unat n) (unat d) < 2 ^ LENGTH('a)"
      using quot_le [of up "unat n" "unat d"] unat_less_size [of n] by linarith
    ultimately show ?thesis using True by (simp add: unat_add_less)
  next
    case False
    then show ?thesis using d by (auto simp: quot_if word_gt_0_unat unat_mod unat_div unat_eq_0)
  qed
  then show ?thesis by (rule word_of_nat_eqI)
qed

lemma checked_mul_div_round_up_if_spec:
  "checked_mul_div_round_up_if n0 n1 d up =
     (if d = 0 then Fail DivideByZero
      else if 2 ^ 128 \<le> unat n0 * unat n1 then Fail MulDivOverflow
      else Ok (of_nat (quot up (unat n0 * unat n1) (unat d))))"
  by (auto simp: checked_mul_div_round_up_if_def checked_mul_def Let_def quot_word unat_mult_less)

lemma div_round_up_if_spec:
  "div_round_up_if n d up =
     (if d = 0 then Fail DivideByZero else Ok (of_nat (quot up (unat n) (unat d))))"
  by (simp add: div_round_up_if_def Let_def quot_word)

lemma checked_mul_shift_right_round_up_if_spec:
  "checked_mul_shift_right_round_up_if n0 n1 up =
     (if 2 ^ 128 \<le> unat n0 * unat n1 then Fail MultiplicationShiftRightOverflow
      else if 2 ^ 64 \<le> quot up (unat n0 * unat n1) (2 ^ 64) then Fail MultiplicationOverflow
      else Ok (of_nat (quot up (unat n0 * unat n1) (2 ^ 64))))"
proof (cases "n0 = 0 \<or> n1 = 0 \<or> 2 ^ 128 \<le> unat n0 * unat n1")
  case True
  then show ?thesis
    by (auto simp: checked_mul_shift_right_round_up_if_def checked_mul_def quot_if)
next
  case False
  define p where "p = n0 * n1"
  have p: "unat p = unat n0 * unat n1" using False by (simp add: p_def unat_mult_less)
  define r where "r = (ucast (drop_bit 64 p) :: u64)"
  have p128: "unat p < 2 ^ 64 * 2 ^ 64" using unat_less_size [of p] by simp
  have r: "unat r = unat p div 2 ^ 64"
    using p128 by (simp add: r_def unat_ucast_down unat_drop_bit less_mult_imp_div_less)
  have mask: "unat (p AND Q64_MASK) = unat p mod 2 ^ 64"
  proof -
    have "p AND Q64_MASK = take_bit 64 p" by (simp add: take_bit_eq_mask Q64_MASK_def mask_eq_exp_minus_1)
    then show ?thesis by (simp add: take_bit_eq_mod unat_mod)
  qed
  have m1: "r = - 1 \<longleftrightarrow> unat r = 2 ^ 64 - 1"
    by (simp add: word_unat_eq_iff unsigned_minus_1_eq_mask mask_eq_exp_minus_1)
  have q: "quot up (unat n0 * unat n1) (2 ^ 64) = unat r + (if up \<and> p AND Q64_MASK > 0 then 1 else 0)"
    by (simp add: quot_if r mask word_gt_0_unat flip: p)
  show ?thesis
    using False unat_u64_less [of r] unfolding q
    by (auto simp: checked_mul_shift_right_round_up_if_def checked_mul_def Let_def Q64_RESOLUTION_def m1
        simp flip: p_def r_def)
qed

lemma div_round_up_if_u256_spec:
  "div_round_up_if_u256 n d up =
     (if uval d = 0 \<or> div_overshoots n d then Inl Panic
      else if 2 ^ 128 \<le> quot up (uval n) (uval d) then Fail NumberDownCastError
      else Ok (of_nat (quot up (uval n) (uval d))))"
proof -
  have ub: "quot up (uval n) (uval d) < 2 ^ 256" using quot_le [of up "uval n" "uval d"] uval_less [of n] by linarith
  have "uval n div uval d < 2 ^ 256" "uval n mod uval d < 2 ^ 256" 
    using uval_less [of n] by (simp_all add: order_le_less_trans [OF div_le_dividend] order_le_less_trans [OF mod_less_eq_dividend])
  note v = this [THEN uval_u256_of_nat]
  have "uval (if up \<and> \<not> is_zero (u256_of_nat (if up then uval n mod uval d else 0))
     then u256_add (u256_of_nat (uval n div uval d)) (u256_new 0 1) else u256_of_nat (uval n div uval d))
     = quot up (uval n) (uval d)" if "uval d \<noteq> 0"
    using that ub by (auto simp: v quot_if uval_add uval_new)
  then show ?thesis 
    by (auto simp: div_round_up_if_u256_def u256_div_spec Let_def try_into_u128_eq)
qed

section \<open>Liquidity deltas\<close>

lemma unat_of_int: "0 \<le> x \<Longrightarrow> x < 2 ^ LENGTH('a) \<Longrightarrow> unat (of_int x :: 'a::len word) = nat x"
  by (simp add: unsigned_of_int take_bit_int_eq_self)

lemma magnitude_of_min: "in_signed 128 delta \<Longrightarrow> delta < 0 \<Longrightarrow> unat (of_int (wrap_i128 \<bar>delta\<bar>) :: u128) = nat (- delta)"
proof (cases "delta = - (2 ^ 127)")
  case True
  then have "wrap_i128 \<bar>delta\<bar> = - (2 ^ 127)" by (simp add: wrap_signed_def)
  then show ?thesis using True by (simp add: unsigned_of_int take_bit_eq_mod)
next
  case False
  assume d: "in_signed 128 delta" "delta < 0"
  then have w: "wrap_i128 \<bar>delta\<bar> = - delta" using False by simp
  show ?thesis unfolding w by (rule unat_of_int) (use d in simp_all)
qed

lemma add_liquidity_delta_spec:
  assumes "in_signed 128 delta"
  shows "add_liquidity_delta liquidity delta =
     (let v = int (unat liquidity) + delta
      in if 2 ^ 128 \<le> v then Fail LiquidityOverflow
         else if v < 0 then Fail LiquidityUnderflow
         else Ok (of_int v))"
proof -
  have L: "unat liquidity < 2 ^ 128" using unat_less_size [of liquidity] by simp
  have L': "uint liquidity < 2 ^ 128" "0 \<le> uint liquidity" using uint_lt2p [of liquidity] by simp_all
  have of: "w = of_int (int n)" if "unat w = n" for w :: u128 and n using that by auto
  consider "delta = 0" | "delta > 0" | "delta < 0" by linarith
  then show ?thesis
  proof cases
    case 1
    then show ?thesis using L' by (simp add: add_liquidity_delta_def Let_def)
  next
    case 2
    then have u: "unat (of_int delta :: u128) = nat delta" using assms by (simp add: unat_of_int)
    have "int (unat liquidity + nat delta) = uint liquidity + delta" using 2 by simp
    then have c: "unat liquidity + nat delta < 2 ^ 128 \<longleftrightarrow> \<not> 2 ^ 128 \<le> uint liquidity + delta"
      by (simp only: not_le of_nat_less_numeral_power_cancel_iff [where 'a = int, symmetric])
    have "\<not> uint liquidity + delta < 0" using 2 L' by linarith
    moreover have "liquidity + of_int delta = of_int (uint liquidity + delta)" by simp
    ultimately show ?thesis using 2 c
      by (simp add: add_liquidity_delta_def Let_def checked_add_def u)
  next
    case 3
    note u = magnitude_of_min [OF assms 3]
    define w :: u128 where "w = of_int (wrap_i128 \<bar>delta\<bar>)"
    have w: "of_int (wrap_i128 (- delta)) = w" using 3 by (simp add: w_def)
    have uw: "uint w = - delta" using u [folded w_def] 3 uint_nat [of w] by simp
    then have le: "w \<le> liquidity \<longleftrightarrow> 0 \<le> uint liquidity + delta"
      by (simp only: word_le_def uw) linarith
    have "liquidity - w = of_int (uint liquidity - uint w)" by simp
    then show ?thesis using 3 le L'
      by (auto simp: add_liquidity_delta_def Let_def checked_sub_def uw w)
  qed
qed

lemma convert_to_liquidity_delta_spec:
  "convert_to_liquidity_delta liquidity positive =
     (if 2 ^ 127 \<le> unat liquidity then Fail LiquidityTooHigh
      else Ok (if positive then int (unat liquidity) else - int (unat liquidity)))"
proof -
  have "liquidity > 2 ^ 127 - 1 \<longleftrightarrow> 2 ^ 127 \<le> unat liquidity"
    by (auto simp: word_less_nat_alt)
  moreover have "wrap_i128 (uint liquidity) = uint liquidity" "wrap_i128 (- uint liquidity) = - uint liquidity"
    if "unat liquidity < 2 ^ 127"
  proof -
    define l where "l = unat liquidity"
    have ul: "uint liquidity = int l" by (simp add: l_def)
    show "wrap_i128 (uint liquidity) = uint liquidity" "wrap_i128 (- uint liquidity) = - uint liquidity"
      using that unfolding ul l_def [symmetric] by (auto intro!: wrap_i128_id)
  qed
  ultimately show ?thesis by (auto simp: convert_to_liquidity_delta_def not_le)
qed

lemma add_liquidity_delta_Ok:
  assumes "add_liquidity_delta l d = Ok l'" "in_signed 128 d"
  shows "int (unat l') = int (unat l) + d"
proof -
  have *: "(let v = int (unat l) + d
      in if 2 ^ 128 \<le> v then Fail LiquidityOverflow
         else if v < 0 then Fail LiquidityUnderflow else Ok (of_int v)) = Ok l'"
    using assms(1) unfolding add_liquidity_delta_spec [OF assms(2)] .
  then have "0 \<le> int (unat l) + d" "int (unat l) + d < 2 ^ 128" "l' = of_int (int (unat l) + d)"
    by (auto simp only: Let_def not_le not_less split: if_splits)
  moreover from this have "uint l' = int (unat l) + d"
    by (simp only: unsigned_of_int) (simp add: take_bit_int_eq_self del: of_int_add)
  ultimately show ?thesis by simp
qed

section \<open>Properties\<close>

text \<open>C34: \<open>checked_mul_div\<close> returns the quotient of the full product rounded down, its rounded-up variant
  the quotient rounded up, and \<open>checked_mul_div_round_up_if\<close> the one its flag asks for; all three report \<open>DivideByZero\<close>
  for a zero divisor and otherwise \<open>MulDivOverflow\<close> when the product needs more than 128 bits.\<close>

theorem checked_mul_div_correct:
  "(let result = (\<lambda>up. if d = 0 then Fail DivideByZero
        else if 2 ^ 128 \<le> unat n0 * unat n1 then Fail MulDivOverflow
        else Ok (of_nat (nat (if up then \<lceil>real (unat n0 * unat n1) / real (unat d)\<rceil>
                              else \<lfloor>real (unat n0 * unat n1) / real (unat d)\<rfloor>))))
    in checked_mul_div n0 n1 d = result False \<and>
       checked_mul_div_round_up n0 n1 d = result True \<and>
       checked_mul_div_round_up_if n0 n1 d round_up = result round_up)"
  unfolding checked_mul_div_def checked_mul_div_round_up_def checked_mul_div_round_up_if_spec quot_def Let_def
  by simp

text \<open>\<open>checked_mul_shift_right\<close> and its rounded variant return the product divided by
  \<open>2 ^ 64\<close> with the rounding asked for, and report an overflow of the product or of the rounded
  result.\<close>

theorem checked_mul_shift_right_correct:
  "checked_mul_shift_right_round_up_if n0 n1 round_up =
     (let q = nat (if round_up then \<lceil>real (unat n0 * unat n1) / 2 ^ 64\<rceil>
                   else \<lfloor>real (unat n0 * unat n1) / 2 ^ 64\<rfloor>) in
      if 2 ^ 128 \<le> unat n0 * unat n1 then Fail MultiplicationShiftRightOverflow
      else if 2 ^ 64 \<le> q then Fail MultiplicationOverflow else Ok (of_nat q))"
  unfolding checked_mul_shift_right_round_up_if_spec quot_def Let_def by simp

text \<open>An amount that was added can be removed again.\<close>

lemma liquidity_delta_undone:
  assumes "convert_to_liquidity_delta amount True = Ok d" "add_liquidity_delta l d = Ok l'"
  shows "convert_to_liquidity_delta amount False = Ok (- d) \<and> add_liquidity_delta l' (- d) = Ok l"
proof -
  have d: "d = int (unat amount)" "unat amount < 2 ^ 127"
    using assms(1) by (auto simp: convert_to_liquidity_delta_spec simp del: int_eq_iff_numeral split: if_splits)
  have r: "in_signed 128 d" "in_signed 128 (- d)"
  proof -
    have "int (unat amount) < int (2 ^ 127)" using d(2) by (rule of_nat_less_iff [THEN iffD2])
    then have "0 \<le> d" "d < 170141183460469231731687303715884105728" using d(1) by simp_all
    then show "in_signed 128 d" "in_signed 128 (- d)" by simp_all
  qed
  have l': "int (unat l') = int (unat l) + d" by (rule add_liquidity_delta_Ok [OF assms(2) r(1)])
  have "int (unat l) < 2 ^ 128" using unat_less_size [of l] by (simp flip: of_nat_less_iff [where 'a = int])
  then have "add_liquidity_delta l' (- d) = Ok (of_int (int (unat l)))"
    unfolding add_liquidity_delta_spec [OF r(2)] Let_def l' by simp
  then show ?thesis using d l' by (simp add: convert_to_liquidity_delta_spec)
qed

text \<open>C35: Adding a signed delta to a liquidity is the integer sum, with \<open>LiquidityOverflow\<close> exactly when
  the sum exceeds the range of \<open>u128\<close> and \<open>LiquidityUnderflow\<close> exactly when it is negative; a liquidity amount
  converts to a delta of the sign asked for, with \<open>LiquidityTooHigh\<close> exactly when it exceeds \<open>i128::MAX\<close>; and
  adding an amount and then removing it gives the liquidity back.\<close>

theorem liquidity_delta_roundtrip:
  assumes "in_signed 128 delta"
  shows "add_liquidity_delta l delta =
      (if 2 ^ 128 \<le> int (unat l) + delta then Fail LiquidityOverflow
       else if int (unat l) + delta < 0 then Fail LiquidityUnderflow
       else Ok (of_int (int (unat l) + delta))) \<and>
    convert_to_liquidity_delta amount positive =
      (if 2 ^ 127 \<le> unat amount then Fail LiquidityTooHigh
       else Ok (if positive then int (unat amount) else - int (unat amount))) \<and>
    (\<forall>d l'. convert_to_liquidity_delta amount True = Ok d \<and> add_liquidity_delta l d = Ok l' \<longrightarrow>
       convert_to_liquidity_delta amount False = Ok (- d) \<and> add_liquidity_delta l' (- d) = Ok l)"
proof (intro conjI allI impI)
  show "add_liquidity_delta l delta =
      (if 2 ^ 128 \<le> int (unat l) + delta then Fail LiquidityOverflow
       else if int (unat l) + delta < 0 then Fail LiquidityUnderflow
       else Ok (of_int (int (unat l) + delta)))"
    unfolding add_liquidity_delta_spec [OF assms] Let_def ..
qed (use convert_to_liquidity_delta_spec liquidity_delta_undone in blast)+

lemma liquidity_delta_roundtrip_witness:
  "add_liquidity_delta 12 (- 13) = Fail LiquidityUnderflow \<and> add_liquidity_delta 12 (- 5) = Ok 7 \<and>
   convert_to_liquidity_delta 5 False = Ok (- 5)"
  using liquidity_delta_roundtrip [of "- 13" 12 5 False] liquidity_delta_roundtrip [of "- 5" 12 5 False] by simp

end
