(* ===== verification/Token_Math.thy ===== *)
theory Token_Math
  imports Bit_Math
begin

text \<open>
  Token amounts for a move of the square-root price, and the price reached by a token amount
  (\<^verbatim>\<open>math/token_math.rs\<close>). Square-root prices are Q64.64 numbers. Every routine is shown
  equal to an exact rational expression rounded in the direction the code names, with the
  faults it returns outside its domain; the last section shows that rounding always favours
  the pool.
\<close>

section \<open>Definitions\<close>

definition MAX_SQRT_PRICE_X64 :: u128 where
  "MAX_SQRT_PRICE_X64 = 79226673515401279992447579055"

definition MIN_SQRT_PRICE_X64 :: u128 where
  "MIN_SQRT_PRICE_X64 = 4295048016"

definition MAX_FEE_RATE :: u16 where
  "MAX_FEE_RATE = 30000"

definition FEE_RATE_MUL_VALUE :: u128 where
  "FEE_RATE_MUL_VALUE = 1000000"

definition MAX_PROTOCOL_FEE_RATE :: u16 where
  "MAX_PROTOCOL_FEE_RATE = 2500"

definition PROTOCOL_FEE_RATE_MUL_VALUE :: u128 where
  "PROTOCOL_FEE_RATE_MUL_VALUE = 10000"

definition increasing_price_order :: "u128 \<Rightarrow> u128 \<Rightarrow> u128 \<times> u128" where
  "increasing_price_order sqrt_price_0 sqrt_price_1 =
     (if sqrt_price_0 > sqrt_price_1 then (sqrt_price_1, sqrt_price_0)
      else (sqrt_price_0, sqrt_price_1))"

definition get_amount_delta_a :: "u128 \<Rightarrow> u128 \<Rightarrow> u128 \<Rightarrow> bool \<Rightarrow> u64 result" where
  "get_amount_delta_a sqrt_price_0 sqrt_price_1 liquidity round_up =
     (let (sqrt_price_lower, sqrt_price_upper) = increasing_price_order sqrt_price_0 sqrt_price_1;
          sqrt_price_diff = sqrt_price_upper - sqrt_price_lower
      in and_then (ok_or (checked_shift_word_left (mul_u256 liquidity sqrt_price_diff))
           MultiplicationOverflow) (\<lambda>numerator.
         let denominator = mul_u256 sqrt_price_upper sqrt_price_lower
         in and_then (u256_div numerator denominator round_up) (\<lambda>(quo, remainder).
            and_then (if round_up \<and> \<not> is_zero remainder
                      then try_into_u128 (u256_add quo (u256_new 0 1))
                      else try_into_u128 quo) (\<lambda>result.
            if result > ucast (- 1 :: u64) then Fail TokenMaxExceeded
            else Ok (ucast result)))))"

definition get_amount_delta_b :: "u128 \<Rightarrow> u128 \<Rightarrow> u128 \<Rightarrow> bool \<Rightarrow> u64 result" where
  "get_amount_delta_b sqrt_price_0 sqrt_price_1 liquidity round_up =
     (let (price_lower, price_upper) = increasing_price_order sqrt_price_0 sqrt_price_1
      in checked_mul_shift_right_round_up_if liquidity (price_upper - price_lower) round_up)"

definition get_next_sqrt_price_from_a_round_up :: "u128 \<Rightarrow> u128 \<Rightarrow> u64 \<Rightarrow> bool \<Rightarrow> u128 result" where
  "get_next_sqrt_price_from_a_round_up sqrt_price liquidity amount amount_specified_is_input =
     (if amount = 0 then Ok sqrt_price
      else
        let product = mul_u256 sqrt_price (ucast amount) in
        and_then (ok_or (checked_shift_word_left (mul_u256 liquidity sqrt_price))
          MultiplicationOverflow) (\<lambda>numerator.
        let liquidity_shift_left = shift_word_left (u256_new 0 liquidity) in
        if \<not> amount_specified_is_input \<and> u256_lte liquidity_shift_left product then
          Fail DivideByZero
        else
          let denominator = (if amount_specified_is_input
                             then u256_add liquidity_shift_left product
                             else u256_sub liquidity_shift_left product) in
          and_then (div_round_up_if_u256 numerator denominator True) (\<lambda>price.
          if price < MIN_SQRT_PRICE_X64 then Fail TokenMinSubceeded
          else if price > MAX_SQRT_PRICE_X64 then Fail TokenMaxExceeded
          else Ok price)))"

definition get_next_sqrt_price_from_b_round_down :: "u128 \<Rightarrow> u128 \<Rightarrow> u64 \<Rightarrow> bool \<Rightarrow> u128 result" where
  "get_next_sqrt_price_from_b_round_down sqrt_price liquidity amount amount_specified_is_input =
     (let amount_x64 = push_bit Q64_RESOLUTION (ucast amount) :: u128 in
      and_then (div_round_up_if amount_x64 liquidity (\<not> amount_specified_is_input)) (\<lambda>delta.
      if amount_specified_is_input then
        ok_or (checked_add sqrt_price delta) SqrtPriceOutOfBounds
      else
        ok_or (checked_sub sqrt_price delta) SqrtPriceOutOfBounds))"

definition get_next_sqrt_price :: "u128 \<Rightarrow> u128 \<Rightarrow> u64 \<Rightarrow> bool \<Rightarrow> bool \<Rightarrow> u128 result" where
  "get_next_sqrt_price sqrt_price liquidity amount amount_specified_is_input a_to_b =
     (if amount_specified_is_input = a_to_b then
        get_next_sqrt_price_from_a_round_up sqrt_price liquidity amount amount_specified_is_input
      else
        get_next_sqrt_price_from_b_round_down sqrt_price liquidity amount amount_specified_is_input)"

section \<open>Amounts as rounded quotients\<close>

lemma checked_shift_word_left_spec:
  "checked_shift_word_left u =
     (if uval u < 2 ^ 192 then Some (u256_of_nat (uval u * 2 ^ 64)) else None)"
proof -
  obtain a b c d where u: "u = U256Muldiv a b c d" by (cases u)
  have d0: "d = 0 \<longleftrightarrow> uval u < 2 ^ 192"
    using unat_u64_less [of a] unat_u64_less [of b] unat_u64_less [of c]
    by (auto simp: u word_gt_0_unat unat_eq_0 [symmetric])
  have "shift_word_left u = u256_of_nat (uval u * 2 ^ 64)" if "uval u < 2 ^ 192"
    using that by (intro u256_of_natI) (simp add: uval_shift_word_left)
  then show ?thesis
    by (auto simp: checked_shift_word_left_def d0 u word_gt_0)
qed

lemma increasing_price_order_eq:
  "increasing_price_order p q = (min p q, max p q)"
  by (auto simp: increasing_price_order_def min_def max_def)

lemma unat_min_max: "unat (min p q) = min (unat p) (unat q)" "unat (max p q) = max (unat p) (unat q)"
  for p q :: "'a::len word"
  by (simp_all add: min_def max_def word_le_nat_alt)

text \<open>Distance between two prices.\<close>

definition price_gap :: "nat \<Rightarrow> nat \<Rightarrow> nat" where
  "price_gap p q = max p q - min p q"

lemma unat_price_gap: "unat (max p q - min p q) = price_gap (unat p) (unat q)"
  by (subst unat_sub) (auto simp: price_gap_def unat_min_max min_def max_def word_le_nat_alt)

lemma ucast_of_nat_u64: "n < 2 ^ 64 \<Longrightarrow> (ucast (of_nat n :: u128) :: u64) = of_nat n"
  by (simp add: word_unat_eq_iff unat_ucast_down unat_of_nat)

lemma uval_mul_less: "unat (v::u128) * unat (n::u128) < 2 ^ 256"
  using uval_less [of "mul_u256 v n"] by (simp add: uval_mul_u256)

lemma rounded_division:
  "and_then (u256_div n d up) (\<lambda>(quo, remainder).
     and_then (if up \<and> \<not> is_zero remainder then try_into_u128 (u256_add quo (u256_new 0 1))
               else try_into_u128 quo) f) = and_then (div_round_up_if_u256 n d up) f"
  by (cases "u256_div n d up") (auto simp: div_round_up_if_u256_def Let_def)

lemma get_amount_delta_a_spec:
  "get_amount_delta_a p q L up =
     (let N = unat L * price_gap (unat p) (unat q) * 2 ^ 64; D = unat p * unat q in
      if 2 ^ 256 \<le> N then Fail MultiplicationOverflow
      else if D = 0 \<or> div_overshoots (u256_of_nat N) (u256_of_nat D) then Inl Panic
      else if 2 ^ 128 \<le> quot up N D then Fail NumberDownCastError
      else if 2 ^ 64 \<le> quot up N D then Fail TokenMaxExceeded
      else Ok (of_nat (quot up N D)))"
proof -
  define N D where "N = unat L * price_gap (unat p) (unat q) * 2 ^ 64" and "D = unat p * unat q"
  have num: "checked_shift_word_left (mul_u256 L (max p q - min p q)) = (if 2 ^ 256 \<le> N then None else Some (u256_of_nat N))"
    by (simp add: checked_shift_word_left_spec uval_mul_u256 unat_price_gap N_def)
  have "uval (mul_u256 (max p q) (min p q)) = D"
    by (simp add: uval_mul_u256 unat_min_max D_def min_def max_def)
  then have den: "mul_u256 (max p q) (min p q) = u256_of_nat D" by (rule u256_of_natI)
  have D: "uval (u256_of_nat D) = D" unfolding D_def by (rule uval_u256_of_nat [OF uval_mul_less])
  have "get_amount_delta_a p q L up = (if 2 ^ 256 \<le> N then Fail MultiplicationOverflow else
     and_then (div_round_up_if_u256 (u256_of_nat N) (u256_of_nat D) up)
        (\<lambda>result. if result > ucast (- 1 :: u64) then Fail TokenMaxExceeded else Ok (ucast result)))"
    by (simp add: get_amount_delta_a_def increasing_price_order_eq num den Let_def rounded_division del: is_zero_iff)
  also have "\<dots> = (if 2 ^ 256 \<le> N then Fail MultiplicationOverflow
      else if D = 0 \<or> div_overshoots (u256_of_nat N) (u256_of_nat D) then Inl Panic
      else if 2 ^ 128 \<le> quot up N D then Fail NumberDownCastError
      else if 2 ^ 64 \<le> quot up N D then Fail TokenMaxExceeded
      else Ok (of_nat (quot up N D)))"
  proof (cases "2 ^ 256 \<le> N")
    case False
    then have "uval (u256_of_nat N) = N" by (simp add: uval_u256_of_nat)
    moreover have "(of_nat n :: u128) > ucast (- 1 :: u64) \<longleftrightarrow> 2 ^ 64 \<le> n" if "n < 2 ^ 128" for n
      using that by (simp add: word_less_nat_alt unat_of_nat unat_ucast_u128 unsigned_minus_1_eq_mask mask_eq_exp_minus_1 Suc_le_eq [symmetric])
    ultimately show ?thesis using False by (simp add: div_round_up_if_u256_spec D ucast_of_nat_u64)
  qed simp
  finally show ?thesis unfolding N_def D_def Let_def .
qed

lemma get_amount_delta_b_spec:
  "get_amount_delta_b p q L up =
     (let N = unat L * price_gap (unat p) (unat q) in
      if 2 ^ 128 \<le> N then Fail MultiplicationShiftRightOverflow
      else if 2 ^ 64 \<le> quot up N (2 ^ 64) then Fail MultiplicationOverflow
      else Ok (of_nat (quot up N (2 ^ 64))))"
  by (simp add: get_amount_delta_b_def increasing_price_order_eq checked_mul_shift_right_round_up_if_spec
      unat_price_gap Let_def)

section \<open>The next price\<close>

lemma get_next_sqrt_price_from_a_round_up_spec:
  "get_next_sqrt_price_from_a_round_up p L amount input =
     (let N = unat L * unat p * 2 ^ 64; L2 = unat L * 2 ^ 64; X = unat p * unat amount;
          D = (if input then L2 + X else L2 - X); r = quot True N D in
      if amount = 0 then Ok p
      else if 2 ^ 256 \<le> N then Fail MultiplicationOverflow
      else if \<not> input \<and> L2 \<le> X then Fail DivideByZero
      else if D = 0 \<or> div_overshoots (u256_of_nat N) (u256_of_nat D) then Inl Panic
      else if 2 ^ 128 \<le> r then Fail NumberDownCastError
      else if r < 4295048016 then Fail TokenMinSubceeded
      else if 79226673515401279992447579055 < r then Fail TokenMaxExceeded
      else Ok (of_nat r))"
proof -
  define N L2 X D where "N = unat L * unat p * 2 ^ 64" and "L2 = unat L * 2 ^ 64" and "X = unat p * unat amount"
    and "D = (if input then L2 + X else L2 - X)"
  have "unat L < 2 ^ 128" "unat p < 2 ^ 128" using unat_less_size [of L] unat_less_size [of p] by simp_all
  then have "L2 < 2 ^ 128 * 2 ^ 64" unfolding L2_def by (intro mult_strict_right_mono) simp_all
  then have L2: "L2 < 2 ^ 192" by simp
  have "X < 2 ^ 128 * 2 ^ 64"
    unfolding X_def using \<open>unat p < 2 ^ 128\<close> unat_u64_less [of amount] by (intro mult_strict_mono) simp_all
  then have X: "X < 2 ^ 192" by simp
  have "D \<le> L2 + X" unfolding D_def by (cases input) simp_all
  then have D: "D < 2 ^ 256" using L2 X by simp
  have um: "uval (mul_u256 p (ucast amount)) = X" by (simp add: uval_mul_u256 X_def unat_ucast_u128)
  have ul: "uval (shift_word_left (u256_new 0 L)) = L2" using L2 by (simp add: uval_shift_word_left uval_new L2_def)
  have den: "(if input then u256_add (shift_word_left (u256_new 0 L)) (mul_u256 p (ucast amount))
     else u256_sub (shift_word_left (u256_new 0 L)) (mul_u256 p (ucast amount))) = u256_of_nat D" if "input \<or> X < L2"
    using that L2 X by (intro u256_of_natI) (auto simp: D_def uval_add_less uval_sub_le um ul)
  have num: "checked_shift_word_left (mul_u256 L p) = (if 2 ^ 256 \<le> N then None else Some (u256_of_nat N))"
    by (simp add: checked_shift_word_left_spec uval_mul_u256 N_def)
  have lte: "u256_lte (shift_word_left (u256_new 0 L)) (mul_u256 p (ucast amount)) \<longleftrightarrow> L2 \<le> X"
    by (simp add: um ul)
  have word: "(of_nat r :: u128) < MIN_SQRT_PRICE_X64 \<longleftrightarrow> r < 4295048016"
    "(of_nat r :: u128) > MAX_SQRT_PRICE_X64 \<longleftrightarrow> 79226673515401279992447579055 < r" if "r < 2 ^ 128" for r
    using that by (simp_all add: word_less_nat_alt unat_of_nat MIN_SQRT_PRICE_X64_def MAX_SQRT_PRICE_X64_def)
  show ?thesis
    unfolding N_def [symmetric] L2_def [symmetric] X_def [symmetric] Let_def D_def [symmetric]
  proof (cases "amount = 0 \<or> 2 ^ 256 \<le> N \<or> \<not> input \<and> L2 \<le> X")
    case True
    then show "get_next_sqrt_price_from_a_round_up p L amount input =
     (if amount = 0 then Ok p
      else if 2 ^ 256 \<le> N then Fail MultiplicationOverflow
      else if \<not> input \<and> L2 \<le> X then Fail DivideByZero
      else if D = 0 \<or> div_overshoots (u256_of_nat N) (u256_of_nat D) then Inl Panic
      else if 2 ^ 128 \<le> quot True N D then Fail NumberDownCastError
      else if quot True N D < 4295048016 then Fail TokenMinSubceeded
      else if 79226673515401279992447579055 < quot True N D then Fail TokenMaxExceeded
      else Ok (of_nat (quot True N D)))"
      unfolding get_next_sqrt_price_from_a_round_up_def Let_def num lte by auto
  next
    case False
    then have i: "input \<or> X < L2" by auto
    from False have ne: "amount \<noteq> 0" "\<not> 2 ^ 256 \<le> N" "(\<not> input \<and> L2 \<le> X) = False" by auto
    have uN: "uval (u256_of_nat N) = N" by (rule uval_u256_of_nat) (use ne(2) in simp)
    have uD: "uval (u256_of_nat D) = D" by (rule uval_u256_of_nat [OF D])
    show "get_next_sqrt_price_from_a_round_up p L amount input =
     (if amount = 0 then Ok p
      else if 2 ^ 256 \<le> N then Fail MultiplicationOverflow
      else if \<not> input \<and> L2 \<le> X then Fail DivideByZero
      else if D = 0 \<or> div_overshoots (u256_of_nat N) (u256_of_nat D) then Inl Panic
      else if 2 ^ 128 \<le> quot True N D then Fail NumberDownCastError
      else if quot True N D < 4295048016 then Fail TokenMinSubceeded
      else if 79226673515401279992447579055 < quot True N D then Fail TokenMaxExceeded
      else Ok (of_nat (quot True N D)))"
      unfolding get_next_sqrt_price_from_a_round_up_def Let_def num lte den [OF i] div_round_up_if_u256_spec uN uD ne(3)
      using ne(1,2) by (simp add: word uN)
  qed
qed

lemma get_next_sqrt_price_from_b_round_down_spec:
  "get_next_sqrt_price_from_b_round_down p L amount input =
     (let d = quot (\<not> input) (unat amount * 2 ^ 64) (unat L) in
      if L = 0 then Fail DivideByZero
      else if input then (if 2 ^ 128 \<le> unat p + d then Fail SqrtPriceOutOfBounds else Ok (of_nat (unat p + d)))
      else (if unat p < d then Fail SqrtPriceOutOfBounds else Ok (of_nat (unat p - d))))"
proof -
  define d where "d = quot (\<not> input) (unat amount * 2 ^ 64) (unat L)"
  have a: "unat amount * 2 ^ 64 < 2 ^ 128" using unat_u64_less [of amount] by simp
  then have ua: "unat (push_bit Q64_RESOLUTION (ucast amount) :: u128) = unat amount * 2 ^ 64"
    by (simp add: Q64_RESOLUTION_def unat_push_bit unat_ucast_u128)
  have "d < 2 ^ 128" unfolding d_def using quot_le a by (rule le_less_trans)
  then have ud: "unat (of_nat d :: u128) = d" by (simp add: unat_of_nat)
  show ?thesis
    unfolding get_next_sqrt_price_from_b_round_down_def Let_def div_round_up_if_spec ua d_def [symmetric]
    by (simp add: checked_add_def checked_sub_def ud word_le_nat_alt not_le)
qed

section \<open>Rounding favours the pool\<close>

text \<open>
  The real amounts: the token A and token B held by a liquidity \<open>l\<close> between two prices (both
  as Q64.64 numbers), whose rounded values the code computes.
\<close>

definition exact_a :: "nat \<Rightarrow> nat \<Rightarrow> nat \<Rightarrow> real" where
  "exact_a p q l = real l * 2 ^ 64 * \<bar>1 / real p - 1 / real q\<bar>"

definition exact_b :: "nat \<Rightarrow> nat \<Rightarrow> nat \<Rightarrow> real" where
  "exact_b p q l = real l * \<bar>real p - real q\<bar> / 2 ^ 64"

lemma quot_bounds:
  "0 < b \<Longrightarrow> real a / real b \<le> real (quot True a b)"
  "0 < b \<Longrightarrow> real (quot True a b) < real a / real b + 1"
  "0 < b \<Longrightarrow> real (quot False a b) \<le> real a / real b"
  "0 < b \<Longrightarrow> real a / real b < real (quot False a b) + 1"
  unfolding quot_def by (simp_all add: ceiling_correct) linarith+

lemma real_price_gap: "real (price_gap p q) = \<bar>real p - real q\<bar>"
  by (auto simp: price_gap_def max_def min_def)

lemma exact_a_eq:
  assumes "0 < p" "0 < q"
  shows "real (l * price_gap p q * 2 ^ 64) / real (p * q) = exact_a p q l"
proof -
  have "1 / real p - 1 / real q = (real q - real p) / (real p * real q)"
    using assms by (simp add: diff_frac_eq)
  then have "\<bar>1 / real p - 1 / real q\<bar> = real (price_gap p q) / (real p * real q)"
    by (simp add: real_price_gap abs_minus_commute)
  then show ?thesis by (simp add: exact_a_def)
qed

lemma exact_b_eq: "real (l * price_gap p q) / real (2 ^ 64 :: nat) = exact_b p q l"
  by (simp add: exact_b_def real_price_gap)

lemma get_amount_delta_a_Ok:
  assumes "get_amount_delta_a p q L up = Ok x"
  shows "0 < unat p" "0 < unat q" "unat x = quot up (unat L * price_gap (unat p) (unat q) * 2 ^ 64) (unat p * unat q)"
  using assms by (auto simp: get_amount_delta_a_spec Let_def unat_of_nat split: if_splits)

lemma get_amount_delta_b_Ok:
  assumes "get_amount_delta_b p q L up = Ok x"
  shows "unat x = quot up (unat L * price_gap (unat p) (unat q)) (2 ^ 64)"
  using assms by (auto simp: get_amount_delta_b_spec Let_def unat_of_nat split: if_splits)

lemma get_amount_delta_a_rounding:
  assumes "get_amount_delta_a p q L up = Ok x"
  shows "if up then exact_a (unat p) (unat q) (unat L) \<le> unat x \<and> unat x < exact_a (unat p) (unat q) (unat L) + 1
     else unat x \<le> exact_a (unat p) (unat q) (unat L) \<and> exact_a (unat p) (unat q) (unat L) < unat x + 1"
proof -
  note ok = get_amount_delta_a_Ok [OF assms]
  have "0 < unat p * unat q" using ok by simp
  note quot_bounds [OF this, of "unat L * price_gap (unat p) (unat q) * 2 ^ 64"]
  then show ?thesis by (cases up) (simp_all only: exact_a_eq [OF ok(1,2)] ok(3) if_True if_False simp_thms)
qed

lemma get_amount_delta_b_rounding:
  assumes "get_amount_delta_b p q L up = Ok x"
  shows "if up then exact_b (unat p) (unat q) (unat L) \<le> unat x \<and> unat x < exact_b (unat p) (unat q) (unat L) + 1
     else unat x \<le> exact_b (unat p) (unat q) (unat L) \<and> exact_b (unat p) (unat q) (unat L) < unat x + 1"
proof -
  have "0 < (2::nat) ^ 64" by simp
  note quot_bounds [OF this, of "unat L * price_gap (unat p) (unat q)"]
  then show ?thesis
    by (cases up) (simp_all only: exact_b_eq get_amount_delta_b_Ok [OF assms] if_True if_False simp_thms)
qed

text \<open>The price reached by adding or removing an amount: between the old price and any target
  that the amount does not reach, and the amount that the move needs is covered.\<close>

lemma a_input_nat:
  fixes p l m r D :: nat
  assumes pos: "0 < p" "0 < l" "0 < m" and r: "r = quot True (l * p) (l + p * m)"
  shows "r \<le> p" and "quot True (l * (p - r)) (p * r) \<le> m"
    and "\<And>t. m * (p * t) < l * (p - t) \<Longrightarrow> t \<le> p \<Longrightarrow> t \<le> r"
proof -
  have D: "0 < l + p * m" using pos by simp
  have lp: "l * p \<le> r * (l + p * m)" using quot_up_le_iff [OF D, of "l * p" r] r by simp
  have "l * p \<le> p * (l + p * m)" by (simp add: algebra_simps)
  then show rp: "r \<le> p" unfolding r quot_up_le_iff [OF D] .
  have "0 < r" using lp pos by (cases r) simp_all
  then have pr: "0 < p * r" using pos by simp
  have "l * (p - r) \<le> m * (p * r)"
    using lp rp by (simp add: algebra_simps diff_mult_distrib2)
  then show "quot True (l * (p - r)) (p * r) \<le> m" unfolding quot_up_le_iff [OF pr] .
  fix t assume t: "m * (p * t) < l * (p - t)" "t \<le> p"
  have "t * (l + p * m) < l * p"
    using t by (simp add: algebra_simps diff_mult_distrib2)
  then show "t \<le> r" using lp D by (meson le_less_trans less_imp_le mult_less_cancel2 not_le)
qed

lemma a_output_nat:
  fixes p l m r :: nat
  assumes pos: "0 < p" "p * m < l" and r: "r = quot True (l * p) (l - p * m)"
  shows "p \<le> r" and "m \<le> l * (r - p) div (p * r)"
    and "\<And>t. m * (p * t) \<le> l * (t - p) \<Longrightarrow> p \<le> t \<Longrightarrow> r \<le> t"
proof -
  have D: "0 < l - p * m" using pos by simp
  have lp: "l * p \<le> r * (l - p * m)" using quot_up_le_iff [OF D, of "l * p" r] r by simp
  have "p * (l - p * m) \<le> p * l" by simp
  also have "\<dots> \<le> r * (l - p * m)" using lp by (simp add: mult.commute)
  finally show pr: "p \<le> r" using D by simp
  have "l * p + r * (p * m) \<le> r * l"
  proof -
    have "r * (l - p * m) + r * (p * m) = r * l" using pos by (simp flip: distrib_left)
    then show ?thesis using lp by linarith
  qed
  then have "m * (p * r) \<le> l * (r - p)" using pr by (simp add: algebra_simps diff_mult_distrib2)
  then show "m \<le> l * (r - p) div (p * r)" using pos pr by (simp add: less_eq_div_iff_mult_less_eq)
  fix t assume t: "m * (p * t) \<le> l * (t - p)" "p \<le> t"
  have "l * p \<le> l * t" using t(2) by (rule mult_le_mono2)
  moreover have "m * (p * t) \<le> l * t - l * p" using t(1) by (simp only: diff_mult_distrib2)
  ultimately have "m * (p * t) + l * p \<le> l * t" by (simp only: le_diff_conv2)
  then have "l * p + t * (p * m) \<le> t * l" by (simp only: ac_simps)
  then have "l * p \<le> t * (l - p * m)" by (simp add: algebra_simps diff_mult_distrib2)
  then show "r \<le> t" unfolding r quot_up_le_iff [OF D] .
qed

text \<open>The two roundings of one amount.\<close>

lemma quot_down_le_up: "quot False a b \<le> quot True a b"
  by (simp add: quot_up)

lemma get_amount_delta_a_down_le_up:
  "get_amount_delta_a p q L False = Ok x \<Longrightarrow> get_amount_delta_a p q L True = Ok y \<Longrightarrow> x \<le> y"
  using get_amount_delta_a_Ok [of p q L] quot_down_le_up by (simp add: word_le_nat_alt)

lemma get_amount_delta_b_down_le_up:
  "get_amount_delta_b p q L False = Ok x \<Longrightarrow> get_amount_delta_b p q L True = Ok y \<Longrightarrow> x \<le> y"
  using get_amount_delta_b_Ok [of p q L] quot_down_le_up by (simp add: word_le_nat_alt)

section \<open>Properties\<close>

text \<open>C31: \<open>get_amount_delta_a\<close> and \<open>get_amount_delta_b\<close> return the real amount of the token that
  the liquidity holds between the two prices, rounded up or down to a whole unit as asked, each with every fault:
  for token A \<open>MultiplicationOverflow\<close> when the product of liquidity and price difference does not fit
  192 bits, a panic when a price is zero or the 256-bit division panics, and \<open>NumberDownCastError\<close> or
  \<open>TokenMaxExceeded\<close> when the amount exceeds \<open>u128\<close> or \<open>u64\<close>; for token B
  \<open>MultiplicationShiftRightOverflow\<close> when that product does not fit 128 bits and
  \<open>MultiplicationOverflow\<close> when the amount exceeds \<open>u64\<close>.\<close>

theorem amount_deltas_rounded:
  "let gap = max (unat p) (unat q) - min (unat p) (unat q);
       round_to = (\<lambda>x :: real. nat (if up then \<lceil>x\<rceil> else \<lfloor>x\<rfloor>));
       a = round_to (real (unat L) * 2 ^ 64 * \<bar>1 / real (unat p) - 1 / real (unat q)\<bar>);
       b = round_to (real (unat L) * \<bar>real (unat p) - real (unat q)\<bar> / 2 ^ 64)
   in get_amount_delta_a p q L up =
        (if 2 ^ 192 \<le> unat L * gap then Fail MultiplicationOverflow
         else if p = 0 \<or> q = 0 \<or>
           div_overshoots (u256_of_nat (unat L * gap * 2 ^ 64)) (u256_of_nat (unat p * unat q)) then Inl Panic
         else if 2 ^ 128 \<le> a then Fail NumberDownCastError
         else if 2 ^ 64 \<le> a then Fail TokenMaxExceeded
         else Ok (of_nat a)) \<and>
      get_amount_delta_b p q L up =
        (if 2 ^ 128 \<le> unat L * gap then Fail MultiplicationShiftRightOverflow
         else if 2 ^ 64 \<le> b then Fail MultiplicationOverflow
         else Ok (of_nat b))"
proof -
  have a: "nat (if up then \<lceil>exact_a (unat p) (unat q) (unat L)\<rceil> else \<lfloor>exact_a (unat p) (unat q) (unat L)\<rfloor>) =
      quot up (unat L * price_gap (unat p) (unat q) * 2 ^ 64) (unat p * unat q)" if "p \<noteq> 0" "q \<noteq> 0"
  proof -
    have "0 < unat p" "0 < unat q" using that by (simp_all add: unat_gt_0)
    then show ?thesis unfolding quot_def by (simp only: exact_a_eq)
  qed
  have b: "nat (if up then \<lceil>exact_b (unat p) (unat q) (unat L)\<rceil> else \<lfloor>exact_b (unat p) (unat q) (unat L)\<rfloor>) =
      quot up (unat L * price_gap (unat p) (unat q)) (2 ^ 64)"
    unfolding quot_def by (simp only: exact_b_eq)
  have big: "(2::nat) ^ 256 \<le> n * 2 ^ 64 \<longleftrightarrow> 2 ^ 192 \<le> n" for n by simp
  have z: "unat p * unat q = 0 \<longleftrightarrow> p = 0 \<or> q = 0" by (simp add: unat_eq_0)
  show ?thesis
    unfolding get_amount_delta_a_spec get_amount_delta_b_spec Let_def price_gap_def [symmetric] exact_a_def [symmetric] exact_b_def [symmetric] b big z
    using a by (cases "p = 0"; cases "q = 0") simp_all
qed

text \<open>C32: Adding an amount of token A to a liquidity \<open>L\<close> at price \<open>p\<close>, or removing it, moves the
  price to \<open>p L / (L \<plusminus> p amount)\<close> rounded up, and the result is a price in the supported range.\<close>

theorem next_price_from_a:
  assumes "get_next_sqrt_price_from_a_round_up p L amount input = Ok r" "amount \<noteq> 0"
  shows "int (unat r) = \<lceil>real (unat L * unat p * 2 ^ 64) /
      real (if input then unat L * 2 ^ 64 + unat p * unat amount
            else unat L * 2 ^ 64 - unat p * unat amount)\<rceil> \<and>
    MIN_SQRT_PRICE_X64 \<le> r \<and> r \<le> MAX_SQRT_PRICE_X64"
proof -
  define D where "D = (if input then unat L * 2 ^ 64 + unat p * unat amount
      else unat L * 2 ^ 64 - unat p * unat amount)"
  define q where "q = quot True (unat L * unat p * 2 ^ 64) D"
  have q: "q < 2 ^ 128" "4295048016 \<le> q" "q \<le> 79226673515401279992447579055" "r = of_nat q"
    using assms unfolding get_next_sqrt_price_from_a_round_up_spec Let_def D_def [symmetric] q_def [symmetric]
    by (auto split: if_splits)
  then have ur: "unat r = q" by (simp add: unat_of_nat)
  have "0 \<le> real (unat L * unat p * 2 ^ 64) / real D"
    by (intro divide_nonneg_nonneg of_nat_0_le_iff)
  then have "0 \<le> \<lceil>real (unat L * unat p * 2 ^ 64) / real D\<rceil>" by linarith
  then have "int q = \<lceil>real (unat L * unat p * 2 ^ 64) / real D\<rceil>" by (simp add: q_def quot_def)
  then show ?thesis
    using q(2,3) unfolding D_def [symmetric] ur
    by (simp add: word_le_nat_alt ur MIN_SQRT_PRICE_X64_def MAX_SQRT_PRICE_X64_def)
qed

lemma next_price_from_a_witness:
  "int (unat (18428315757951600016 :: u128)) = \<lceil>real (unat (1000000 :: u128) * unat (2 ^ 64 :: u128) * 2 ^ 64) /
      real (unat (1000000 :: u128) * 2 ^ 64 + unat (2 ^ 64 :: u128) * unat (1000 :: u64))\<rceil>"
proof -
  have "get_next_sqrt_price_from_a_round_up (2 ^ 64) 1000000 1000 True = Ok 18428315757951600016" by code_simp
  from next_price_from_a [OF this] show ?thesis by simp
qed

text \<open>C33: Adding or removing an amount of token B changes the price by the amount per unit of
  liquidity, rounded so that the new price is never above the exact one, and the routine
  reports a price that leaves the range of \<open>u128\<close> and a zero liquidity as errors.\<close>

theorem next_price_from_b:
  "get_next_sqrt_price_from_b_round_down p L amount input =
     (let exact = real (unat amount * 2 ^ 64) / real (unat L);
          d = nat (if input then \<lfloor>exact\<rfloor> else \<lceil>exact\<rceil>) in
      if L = 0 then Fail DivideByZero
      else if input then (if 2 ^ 128 \<le> unat p + d then Fail SqrtPriceOutOfBounds else Ok (of_nat (unat p + d)))
      else (if unat p < d then Fail SqrtPriceOutOfBounds else Ok (of_nat (unat p - d))))"
  unfolding get_next_sqrt_price_from_b_round_down_spec quot_def Let_def by (cases input) simp_all

end
