(* ===== verification/Tick_Math.thy ===== *)
theory Tick_Math
  imports Token_Math
begin

text \<open>
  The square-root price of a tick and the tick of a square-root price
  (\<^verbatim>\<open>math/tick_math.rs\<close>). The tables of factors are those of the code. The main theorem is
  that the price is strictly increasing on the whole range of ticks and ends at the two
  price bounds.
\<close>

section \<open>Definitions\<close>

definition LOG_B_2_X32 :: i128 where
  "LOG_B_2_X32 = 59543866431248"

definition BIT_PRECISION :: nat where
  "BIT_PRECISION = 14"

definition LOG_B_P_ERR_MARGIN_LOWER_X64 :: i128 where
  "LOG_B_P_ERR_MARGIN_LOWER_X64 = 184467440737095516"

definition LOG_B_P_ERR_MARGIN_UPPER_X64 :: i128 where
  "LOG_B_P_ERR_MARGIN_UPPER_X64 = 15793534762490258745"

definition mul_shift_96 :: "u128 \<Rightarrow> u128 \<Rightarrow> u128 result" where
  "mul_shift_96 n0 n1 = unwrap (try_into_u128 (shift_right (mul_u256 n0 n1) 96))"

text \<open>The masks and the factors of the successive \<open>if tick & mask != 0\<close> statements.\<close>

definition POSITIVE_FACTORS :: "(i32 \<times> u128) list" where
  "POSITIVE_FACTORS = [
     (2, 79236085330515764027303304731),
     (4, 79244008939048815603706035061),
     (8, 79259858533276714757314932305),
     (16, 79291567232598584799939703904),
     (32, 79355022692464371645785046466),
     (64, 79482085999252804386437311141),
     (128, 79736823300114093921829183326),
     (256, 80248749790819932309965073892),
     (512, 81282483887344747381513967011),
     (1024, 83390072131320151908154831281),
     (2048, 87770609709833776024991924138),
     (4096, 97234110755111693312479820773),
     (8192, 119332217159966728226237229890),
     (16384, 179736315981702064433883588727),
     (32768, 407748233172238350107850275304),
     (65536, 2098478828474011932436660412517),
     (131072, 55581415166113811149459800483533),
     (262144, 38992368544603139932233054999993551)]"

definition NEGATIVE_FACTORS :: "(i32 \<times> u128) list" where
  "NEGATIVE_FACTORS = [
     (2, 18444899583751176498),
     (4, 18443055278223354162),
     (8, 18439367220385604838),
     (16, 18431993317065449817),
     (32, 18417254355718160513),
     (64, 18387811781193591352),
     (128, 18329067761203520168),
     (256, 18212142134806087854),
     (512, 17980523815641551639),
     (1024, 17526086738831147013),
     (2048, 16651378430235024244),
     (4096, 15030750278693429944),
     (8192, 12247334978882834399),
     (16384, 8131365268884726200),
     (32768, 3584323654723342297),
     (65536, 696457651847595233),
     (131072, 26294789957452057),
     (262144, 37481735321082)]"

fun positive_steps :: "(i32 \<times> u128) list \<Rightarrow> i32 \<Rightarrow> u128 \<Rightarrow> u128 result" where
  "positive_steps [] tick ratio = Ok ratio"
| "positive_steps ((m, factor) # fs) tick ratio =
     and_then (if tick AND m \<noteq> 0 then mul_shift_96 ratio factor else Ok ratio)
       (positive_steps fs tick)"

definition get_sqrt_price_positive_tick :: "i32 \<Rightarrow> u128 result" where
  "get_sqrt_price_positive_tick tick =
     (let ratio = (if tick AND 1 \<noteq> 0 then 79232123823359799118286999567
                   else 79228162514264337593543950336)
      in and_then (positive_steps POSITIVE_FACTORS tick ratio) (\<lambda>ratio. Ok (drop_bit 32 ratio)))"

fun negative_steps :: "(i32 \<times> u128) list \<Rightarrow> i32 \<Rightarrow> u128 \<Rightarrow> u128" where
  "negative_steps [] abs_tick ratio = ratio"
| "negative_steps ((m, factor) # fs) abs_tick ratio =
     negative_steps fs abs_tick
       (if abs_tick AND m \<noteq> 0 then drop_bit 64 (ratio * factor) else ratio)"

definition get_sqrt_price_negative_tick :: "i32 \<Rightarrow> u128" where
  "get_sqrt_price_negative_tick tick =
     (let abs_tick = wrap_i32 \<bar>tick\<bar>;
          ratio = (if abs_tick AND 1 \<noteq> 0 then 18445821805675392311 else 18446744073709551616)
      in negative_steps NEGATIVE_FACTORS abs_tick ratio)"

definition sqrt_price_from_tick_index :: "i32 \<Rightarrow> u128 result" where
  "sqrt_price_from_tick_index tick =
     (if tick \<ge> 0 then get_sqrt_price_positive_tick tick
      else Ok (get_sqrt_price_negative_tick tick))"

text \<open>
  The loop that appends one bit of the logarithm per round. A shift of a \<open>u128\<close> uses its
  amount modulo 128, as the release build does; \<open>>>\<close> of a signed number rounds down.
\<close>

function log2_loop :: "nat \<Rightarrow> i128 \<Rightarrow> u128 \<Rightarrow> i128 \<Rightarrow> i128" where
  "log2_loop precision bit_value r log2p_fraction_x64 =
     (if bit_value > 0 \<and> precision < BIT_PRECISION then
        let r = r * r;
            is_r_more_than_two = drop_bit 127 r;
            r = drop_bit (unat (63 + is_r_more_than_two) mod 128) r
        in log2_loop (precision + 1) (drop_bit 1 bit_value) r
             (wrap_i128 (log2p_fraction_x64 + wrap_i128 (bit_value * uint is_r_more_than_two)))
      else log2p_fraction_x64)"
  by pat_completeness auto

termination
  by (relation "measure (\<lambda>(precision, _, _, _). BIT_PRECISION - precision)") auto

declare log2_loop.simps [simp del]

definition try_into_i32 :: "i128 \<Rightarrow> i32 result" where
  "try_into_i32 x = (if in_signed 32 x then Ok x else Fail NumberCastError)"

definition log2p_x32 :: "u128 \<Rightarrow> i128" where
  "log2p_x32 sqrt_price_x64 =
     (let msb = 128 - of_nat (leading_zeros sqrt_price_x64) - 1 :: 32 word;
          log2p_integer_x32 = wrap_i128 (push_bit 32 (uint msb - 64));
          r = (if msb \<ge> 64 then drop_bit (unat (msb - 63) mod 128) sqrt_price_x64
               else push_bit (unat (63 - msb) mod 128) sqrt_price_x64);
          log2p_fraction_x64 = log2_loop 0 0x8000000000000000 r 0;
          log2p_fraction_x32 = drop_bit 32 log2p_fraction_x64
      in wrap_i128 (log2p_integer_x32 + log2p_fraction_x32))"

definition tick_index_from_sqrt_price :: "u128 \<Rightarrow> i32 result" where
  "tick_index_from_sqrt_price sqrt_price_x64 =
     (let logbp_x64 = wrap_i128 (log2p_x32 sqrt_price_x64 * LOG_B_2_X32) in
      and_then (unwrap (try_into_i32
        (drop_bit 64 (wrap_i128 (logbp_x64 - LOG_B_P_ERR_MARGIN_LOWER_X64))))) (\<lambda>tick_low.
      and_then (unwrap (try_into_i32
        (drop_bit 64 (wrap_i128 (logbp_x64 + LOG_B_P_ERR_MARGIN_UPPER_X64))))) (\<lambda>tick_high.
      if tick_low = tick_high then Ok tick_low
      else
        and_then (sqrt_price_from_tick_index tick_high) (\<lambda>actual_tick_high_sqrt_price_x64.
        if actual_tick_high_sqrt_price_x64 \<le> sqrt_price_x64 then Ok tick_high
        else Ok tick_low))))"

section \<open>Rounded products over the bits of a tick\<close>

lemma mul_shift_96_eq:
  "mul_shift_96 a b = (let q = unat a * unat b div 2 ^ 96 in if q < 2 ^ 128 then Ok (of_nat q) else Inl Panic)"
  by (simp add: mul_shift_96_def try_into_u128_eq uval_shift_right uval_mul_u256 Let_def)

text \<open>The same on integers, for evaluation.\<close>

lemma mul_shift_96_code [code]:
  "mul_shift_96 a b =
    (let q = drop_bit 96 (uint a * uint b) in if q < 2 ^ 128 then Ok (word_of_int q) else Inl Panic)"
proof -
  let ?q = "unat a * unat b div 2 ^ 96"
  have q: "drop_bit 96 (uint a * uint b) = int ?q"
    by (simp add: drop_bit_eq_div zdiv_int)
  have "int ?q < 2 ^ 128 \<longleftrightarrow> int ?q < int (2 ^ 128)" by simp
  then have "int ?q < 2 ^ 128 \<longleftrightarrow> ?q < 2 ^ 128" unfolding of_nat_less_iff .
  then show ?thesis unfolding mul_shift_96_eq q Let_def by (simp only: of_int_of_nat_eq)
qed

text \<open>The steps on naturals: bit \<open>k\<close> of the tick decides on the factor of position \<open>k\<close>.\<close>

fun scaled_steps :: "nat \<Rightarrow> nat list \<Rightarrow> nat \<Rightarrow> nat \<Rightarrow> nat" where
  "scaled_steps s [] t r = r"
| "scaled_steps s (c # cs) t r = scaled_steps s cs (t div 2) (if odd t then r * c div 2 ^ s else r)"

text \<open>The exact product that the steps approximate.\<close>

fun bit_product :: "real list \<Rightarrow> nat \<Rightarrow> real" where
  "bit_product [] t = 1"
| "bit_product (c # cs) t = (if odd t then c else 1) * bit_product cs (t div 2)"

lemma bit_product_pos: "(\<And>c. c \<in> set cs \<Longrightarrow> 0 < c) \<Longrightarrow> 0 < bit_product cs t"
  by (induction cs arbitrary: t) auto

lemma bit_product_nonneg: "(\<And>c. c \<in> set cs \<Longrightarrow> 0 \<le> c) \<Longrightarrow> 0 \<le> bit_product cs t"
  by (induction cs arbitrary: t) auto

lemma bit_product_le_1: "(\<And>c. c \<in> set cs \<Longrightarrow> 0 \<le> c \<and> c \<le> 1) \<Longrightarrow> bit_product cs t \<le> 1"
  by (induction cs arbitrary: t) (auto intro!: mult_le_one bit_product_nonneg)

text \<open>Consecutive numbers: the product grows by more than the factor \<open>x\<close>.\<close>

fun growing :: "real \<Rightarrow> real list \<Rightarrow> bool" where
  "growing x [] = True"
| "growing x (c # cs) \<longleftrightarrow> 0 < c \<and> x \<le> c \<and> growing (x * c) cs"

fun shrinking :: "real \<Rightarrow> real list \<Rightarrow> bool" where
  "shrinking x [] = True"
| "shrinking x (c # cs) \<longleftrightarrow> 0 < c \<and> x * c \<le> 1 \<and> shrinking (x / c) cs"

lemma growing_step:
  "growing x cs \<Longrightarrow> 0 \<le> x \<Longrightarrow> t + 1 < 2 ^ length cs \<Longrightarrow> x * bit_product cs t \<le> bit_product cs (t + 1)"
proof (induction cs arbitrary: x t)
  case (Cons c cs)
  have pos: "0 < bit_product cs t'" for t'
  proof (rule bit_product_pos)
    fix d assume "d \<in> set cs"
    have "growing y cs \<Longrightarrow> d \<in> set cs \<Longrightarrow> 0 < d" for y by (induction cs arbitrary: y) auto
    then show "0 < d" using Cons.prems(1) \<open>d \<in> set cs\<close> by auto
  qed
  show ?case
  proof (cases "odd t")
    case True
    then have "(t + 1) div 2 = t div 2 + 1" by simp
    moreover from this have "t div 2 + 1 < 2 ^ length cs" using Cons.prems(3) by simp
    ultimately show ?thesis using Cons.IH [of "x * c" "t div 2"] Cons.prems(1,2) True by simp
  next
    case False
    then have "(t + 1) div 2 = t div 2" by simp
    then show ?thesis using Cons.prems(1) False pos [of "t div 2"] by simp
  qed
qed simp

lemma shrinking_step:
  "shrinking x cs \<Longrightarrow> 0 \<le> x \<Longrightarrow> t + 1 < 2 ^ length cs \<Longrightarrow> x * bit_product cs (t + 1) \<le> bit_product cs t"
proof (induction cs arbitrary: x t)
  case (Cons c cs)
  have pos: "0 < bit_product cs t'" for t'
  proof (rule bit_product_pos)
    fix d assume "d \<in> set cs"
    have "shrinking y cs \<Longrightarrow> d \<in> set cs \<Longrightarrow> 0 < d" for y by (induction cs arbitrary: y) auto
    then show "0 < d" using Cons.prems(1) \<open>d \<in> set cs\<close> by auto
  qed
  show ?case
  proof (cases "odd t")
    case True
    then have "(t + 1) div 2 = t div 2 + 1" by simp
    moreover from this have "t div 2 + 1 < 2 ^ length cs" using Cons.prems(3) by simp
    ultimately show ?thesis using Cons.IH [of "x / c" "t div 2"] Cons.prems(1,2) True
      by (simp add: field_simps)
  next
    case False
    then have "(t + 1) div 2 = t div 2" by simp
    moreover have "x * c * bit_product cs (t div 2) \<le> 1 * bit_product cs (t div 2)"
      using Cons.prems(1) pos [of "t div 2"] by (intro mult_right_mono) simp_all
    ultimately show ?thesis using False by simp
  qed
qed simp

text \<open>Rounding down costs at most a fixed fraction per step, or at most one unit.\<close>

lemma scaled_steps_upper:
  "real (scaled_steps s cs t r) \<le> real r * bit_product (map (\<lambda>c. real c / 2 ^ s) cs) t"
proof (induction cs arbitrary: t r)
  case (Cons c cs)
  have pos: "0 \<le> bit_product (map (\<lambda>c. real c / 2 ^ s) cs) t'" for t'
    by (induction cs arbitrary: t') auto
  show ?case
  proof (cases "odd t")
    case True
    have "real (r * c div 2 ^ s) \<le> real r * (real c / 2 ^ s)"
      using of_nat_div_le_of_nat [where 'a = real, of "r * c" "2 ^ s"] by simp
    then have "real (r * c div 2 ^ s) * bit_product (map (\<lambda>c. real c / 2 ^ s) cs) (t div 2)
       \<le> real r * (real c / 2 ^ s) * bit_product (map (\<lambda>c. real c / 2 ^ s) cs) (t div 2)"
      using pos by (rule mult_right_mono)
    then show ?thesis using Cons.IH [of "t div 2" "r * c div 2 ^ s"] True by simp
  next
    case False
    then show ?thesis using Cons.IH [of "t div 2" r] by simp
  qed
qed simp

lemma scaled_steps_ge: "(\<And>c. c \<in> set cs \<Longrightarrow> 2 ^ s \<le> c) \<Longrightarrow> r \<le> scaled_steps s cs t r"
proof (induction cs arbitrary: t r)
  case (Cons c cs)
  have "r * 2 ^ s \<le> r * c" using Cons.prems by simp
  then have "r \<le> r * c div 2 ^ s" by (simp add: less_eq_div_iff_mult_less_eq)
  then show ?case using Cons.IH [of "r * c div 2 ^ s" "t div 2"] Cons.IH [of r "t div 2"] Cons.prems by auto
qed simp

text \<open>Lower bounds.\<close>

lemma real_div_lower: "real a / real b - 1 < real (a div b)" if "0 < b"
proof -
  have "real a / real b < real (a div b) + 1"
    using that quot_bounds(4) [of b a] by simp
  then show ?thesis by simp
qed

lemma scaled_steps_lower_shrink:
  assumes "\<And>c. c \<in> set cs \<Longrightarrow> c \<le> 2 ^ s"
  shows "real r * bit_product (map (\<lambda>c. real c / 2 ^ s) cs) t - real (length cs) \<le> real (scaled_steps s cs t r)"
  using assms
proof (induction cs arbitrary: t r)
  case (Cons c cs)
  have le: "bit_product (map (\<lambda>c. real c / 2 ^ s) cs) t' \<le> 1" "0 \<le> bit_product (map (\<lambda>c. real c / 2 ^ s) cs) t'" for t'
    using Cons.prems by (auto intro!: bit_product_le_1 bit_product_nonneg simp: divide_le_eq)
  let ?p = "bit_product (map (\<lambda>c. real c / 2 ^ s) cs) (t div 2)"
  show ?case
  proof (cases "odd t")
    case True
    have "real r * (real c / 2 ^ s) - 1 \<le> real (r * c div 2 ^ s)"
      using real_div_lower [of "2 ^ s" "r * c"] by simp
    then have "(real r * (real c / 2 ^ s) - 1) * ?p \<le> real (r * c div 2 ^ s) * ?p"
      using le(2) by (rule mult_right_mono)
    then have "real r * (real c / 2 ^ s) * ?p - 1 \<le> real (r * c div 2 ^ s) * ?p"
      using le(1) [of "t div 2"] by (simp add: left_diff_distrib)
    then show ?thesis using Cons.IH [of "r * c div 2 ^ s" "t div 2"] Cons.prems True by simp
  next
    case False
    then show ?thesis using Cons.IH [of r "t div 2"] Cons.prems by simp
  qed
qed simp

lemma scaled_steps_lower_grow:
  assumes "\<And>c. c \<in> set cs \<Longrightarrow> 2 ^ s \<le> c" "2 ^ s \<le> r"
  shows "real r * bit_product (map (\<lambda>c. real c / 2 ^ s) cs) t * (1 - 1 / 2 ^ s) ^ length cs \<le> real (scaled_steps s cs t r)"
  using assms
proof (induction cs arbitrary: t r)
  case (Cons c cs)
  let ?p = "bit_product (map (\<lambda>c. real c / 2 ^ s) cs) (t div 2)"
  let ?e = "(1 - 1 / 2 ^ s) :: real"
  have e: "0 \<le> ?e" "?e \<le> 1" by simp_all
  have pos: "0 \<le> ?p * ?e ^ length cs"
  proof -
    have "0 \<le> bit_product (map (\<lambda>c. real c / 2 ^ s) cs) t'" for t' by (induction cs arbitrary: t') auto
    then show ?thesis using e by simp
  qed
  show ?case
  proof (cases "odd t")
    case True
    have "2 ^ s * 2 ^ s \<le> r * c" using Cons.prems by (intro mult_le_mono) simp_all
    then have "2 ^ s \<le> r * c div 2 ^ s" by (simp add: less_eq_div_iff_mult_less_eq)
    note IH = Cons.IH [of "r * c div 2 ^ s" "t div 2", OF _ this]
    have "real (2 ^ s * 2 ^ s) \<le> real (r * c)" using \<open>2 ^ s * 2 ^ s \<le> r * c\<close> of_nat_le_iff by blast
    define X where "X = real r * (real c / 2 ^ s)"
    have "1 \<le> X * (1 / 2 ^ s)" using \<open>real (2 ^ s * 2 ^ s) \<le> real (r * c)\<close> by (simp add: X_def field_simps)
    moreover have "X - 1 < real (r * c div 2 ^ s)" using real_div_lower [of "2 ^ s" "r * c"] by (simp add: X_def)
    moreover have "X * ?e = X - X * (1 / 2 ^ s)" by (simp only: right_diff_distrib mult_1_right)
    ultimately have "real r * (real c / 2 ^ s) * ?e \<le> real (r * c div 2 ^ s)" unfolding X_def by linarith
    from mult_right_mono [OF this pos] have "real r * (real c / 2 ^ s) * ?e * (?p * ?e ^ length cs) \<le> real (r * c div 2 ^ s) * (?p * ?e ^ length cs)" .
    then show ?thesis using IH Cons.prems True by (simp add: ac_simps)
  next
    case False
    have "real r * ?p * ?e ^ length cs * ?e \<le> real r * ?p * ?e ^ length cs"
      by (rule mult_left_le) (use e pos in \<open>simp_all add: mult.assoc\<close>)
    then show ?thesis using Cons.IH [of r "t div 2"] Cons.prems False by (simp add: ac_simps)
  qed
qed simp

section \<open>The steps of the code\<close>

text \<open>The factors of all bits, the lowest first, as naturals.\<close>

definition positive_factors :: "nat list" where
  "positive_factors = [
     79232123823359799118286999567,
     79236085330515764027303304731,
     79244008939048815603706035061,
     79259858533276714757314932305,
     79291567232598584799939703904,
     79355022692464371645785046466,
     79482085999252804386437311141,
     79736823300114093921829183326,
     80248749790819932309965073892,
     81282483887344747381513967011,
     83390072131320151908154831281,
     87770609709833776024991924138,
     97234110755111693312479820773,
     119332217159966728226237229890,
     179736315981702064433883588727,
     407748233172238350107850275304,
     2098478828474011932436660412517,
     55581415166113811149459800483533,
     38992368544603139932233054999993551]"

definition negative_factors :: "nat list" where
  "negative_factors = [
     18445821805675392311,
     18444899583751176498,
     18443055278223354162,
     18439367220385604838,
     18431993317065449817,
     18417254355718160513,
     18387811781193591352,
     18329067761203520168,
     18212142134806087854,
     17980523815641551639,
     17526086738831147013,
     16651378430235024244,
     15030750278693429944,
     12247334978882834399,
     8131365268884726200,
     3584323654723342297,
     696457651847595233,
     26294789957452057,
     37481735321082]"

lemma positive_factors_eq:
  "POSITIVE_FACTORS = map (\<lambda>(k, c). (2 ^ k, of_nat c)) (enumerate 1 (tl positive_factors))"
  by (simp add: POSITIVE_FACTORS_def positive_factors_def)

lemma negative_factors_eq:
  "NEGATIVE_FACTORS = map (\<lambda>(k, c). (2 ^ k, of_nat c)) (enumerate 1 (tl negative_factors))"
  by (simp add: NEGATIVE_FACTORS_def negative_factors_def)

lemma and_power: "int t AND 2 ^ k \<noteq> 0 \<longleftrightarrow> odd (t div 2 ^ k)"
proof -
  have "int t AND 2 ^ k \<noteq> 0 \<longleftrightarrow> bit (int t) k" by (simp add: and_exp_eq_0_iff_not_bit)
  also have "\<dots> \<longleftrightarrow> bit t k" by (simp add: bit_of_nat_iff_bit)
  finally show ?thesis by (simp add: bit_iff_odd)
qed

lemma positive_steps_eq:
  assumes "\<And>c. c \<in> set cs \<Longrightarrow> 2 ^ 96 \<le> c \<and> c < 2 ^ 128"
  shows "positive_steps (map (\<lambda>(k, c). (2 ^ k, of_nat c)) (enumerate k cs)) (int t) r =
     (let x = scaled_steps 96 cs (t div 2 ^ k) (unat r) in if x < 2 ^ 128 then Ok (of_nat x) else Inl Panic)"
  using assms
proof (induction cs arbitrary: k r)
  case Nil
  then show ?case using unat_less_size [of r] by simp
next
  case (Cons c cs)
  have c: "2 ^ 96 \<le> c" "c < 2 ^ 128" using Cons.prems [of c] by simp_all
  then have uc: "unat (of_nat c :: u128) = c" by (simp add: unat_of_nat)
  have dd: "t div 2 ^ k div 2 = t div 2 ^ Suc k" by (simp only: power_Suc2 div_mult2_eq)
  show ?case
  proof (cases "odd (t div 2 ^ k)")
    case True
    define q where "q = unat r * c div 2 ^ 96"
    have q: "unat r * c div 79228162514264337593543950336 = q" by (simp add: q_def)
    have ge: "q \<le> scaled_steps 96 cs (t div 2 ^ Suc k) q" using Cons.prems by (intro scaled_steps_ge) simp
    show ?thesis
    proof (cases "q < 2 ^ 128")
      case True
      then have "unat (of_nat q :: u128) = q" by (simp add: unat_of_nat)
      then show ?thesis using Cons.IH [of "Suc k" "of_nat q"] Cons.prems True \<open>odd (t div 2 ^ k)\<close>
        by (simp add: and_power mul_shift_96_eq uc dd Let_def q)
    next
      case False
      then show ?thesis using ge \<open>odd (t div 2 ^ k)\<close>
        by (simp add: and_power mul_shift_96_eq uc dd Let_def q)
    qed
  next
    case False
    then show ?thesis using Cons.IH [of "Suc k" r] Cons.prems by (simp add: and_power dd)
  qed
qed

lemma negative_steps_eq:
  assumes "\<And>c. c \<in> set cs \<Longrightarrow> c < 2 ^ 64" "unat r \<le> 2 ^ 64"
  shows "unat (negative_steps (map (\<lambda>(k, c). (2 ^ k, of_nat c)) (enumerate k cs)) (int t) r) =
     scaled_steps 64 cs (t div 2 ^ k) (unat r)"
  using assms
proof (induction cs arbitrary: k r)
  case (Cons c cs)
  have c: "c < 2 ^ 64" using Cons.prems(1) [of c] by simp
  then have uc: "unat (of_nat c :: u128) = c" by (simp add: unat_of_nat)
  have dd: "t div 2 ^ k div 2 = t div 2 ^ Suc k" by (simp only: power_Suc2 div_mult2_eq)
  have p: "unat r * c \<le> 2 ^ 64 * (2 ^ 64 - 1)" using Cons.prems(2) c by (intro mult_le_mono) simp_all
  then have u: "unat (drop_bit 64 (r * of_nat c)) = unat r * c div 2 ^ 64"
    by (subst unat_drop_bit, subst unat_mult_less) (simp_all add: uc)
  have "unat r * c div 2 ^ 64 \<le> 2 ^ 64 * (2 ^ 64 - 1) div 2 ^ 64" using p by (rule div_le_mono)
  then have le: "unat r * c div 2 ^ 64 \<le> 2 ^ 64" by simp
  show ?case
    using Cons.IH [of "drop_bit 64 (r * of_nat c)" "Suc k"] Cons.IH [of r "Suc k"] Cons.prems le
    by (simp add: and_power dd u)
qed simp

definition positive_ratio :: "nat \<Rightarrow> nat" where
  "positive_ratio t = scaled_steps 96 positive_factors t (2 ^ 96)"

definition negative_ratio :: "nat \<Rightarrow> nat" where
  "negative_ratio t = scaled_steps 64 negative_factors t (2 ^ 64)"

lemma positive_tick_eq:
  "get_sqrt_price_positive_tick (int t) =
     (if positive_ratio t < 2 ^ 128 then Ok (of_nat (positive_ratio t div 2 ^ 32)) else Inl Panic)"
proof -
  let ?r = "if int t AND 1 \<noteq> 0 then 79232123823359799118286999567 else 79228162514264337593543950336 :: u128"
  have b: "\<And>c. c \<in> set (tl positive_factors) \<Longrightarrow> 2 ^ 96 \<le> c \<and> c < 2 ^ 128"
    by (auto simp: positive_factors_def)
  have "positive_ratio t = scaled_steps 96 (tl positive_factors) (t div 2) (unat ?r)"
  proof -
    have "positive_factors = 79232123823359799118286999567 # tl positive_factors" by (simp add: positive_factors_def)
    from arg_cong [OF this, of "\<lambda>cs. scaled_steps 96 cs t (2 ^ 96)"] show ?thesis
      using and_power [of t 0] unfolding positive_ratio_def scaled_steps.simps(2) by (cases "odd t") simp_all
  qed
  then have "positive_steps POSITIVE_FACTORS (int t) ?r =
     (if positive_ratio t < 2 ^ 128 then Ok (of_nat (positive_ratio t)) else Inl Panic)"
    unfolding positive_factors_eq using positive_steps_eq [OF b, where k = 1 and t = t and r = ?r] by (simp only: power_one_right Let_def)
  moreover have "drop_bit 32 (of_nat x :: u128) = of_nat (x div 2 ^ 32)" if "x < 2 ^ 128" for x
    using that by (intro word_of_nat_eqI) (simp add: unat_drop_bit unat_of_nat)
  ultimately show ?thesis by (simp add: get_sqrt_price_positive_tick_def Let_def)
qed

lemma negative_tick_eq:
  assumes "0 < t" "t < 2 ^ 31"
  shows "unat (get_sqrt_price_negative_tick (- int t)) = negative_ratio t"
proof -
  let ?r = "if int t AND 1 \<noteq> 0 then 18445821805675392311 else 18446744073709551616 :: u128"
  have b: "\<And>c. c \<in> set (tl negative_factors) \<Longrightarrow> c < 2 ^ 64"
    by (auto simp: negative_factors_def)
  have r: "unat ?r \<le> 2 ^ 64" by simp
  have "negative_ratio t = scaled_steps 64 (tl negative_factors) (t div 2) (unat ?r)"
  proof -
    have "negative_factors = 18445821805675392311 # tl negative_factors" by (simp add: negative_factors_def)
    from arg_cong [OF this, of "\<lambda>cs. scaled_steps 64 cs t (2 ^ 64)"] show ?thesis
      using and_power [of t 0] unfolding negative_ratio_def scaled_steps.simps(2) by (cases "odd t") simp_all
  qed
  moreover have "wrap_i32 \<bar>- int t\<bar> = int t" using assms by simp
  ultimately show ?thesis
    using negative_steps_eq [OF b r, where k = 1 and t = t]
    by (simp add: get_sqrt_price_negative_tick_def Let_def negative_factors_eq)
qed

section \<open>The price is strictly increasing\<close>

text \<open>The two conditions on integers, for evaluation: \<open>x\<close> is at most \<open>a / 2 ^ 64\<close>.\<close>

fun growing_nat :: "nat \<Rightarrow> nat \<Rightarrow> nat list \<Rightarrow> bool" where
  "growing_nat s a [] = True"
| "growing_nat s a (c # cs) \<longleftrightarrow> 0 < c \<and> a * 2 ^ s \<le> c * 2 ^ 64 \<and> growing_nat s (a * c div 2 ^ s + 1) cs"

fun shrinking_nat :: "nat \<Rightarrow> nat \<Rightarrow> nat list \<Rightarrow> bool" where
  "shrinking_nat s a [] = True"
| "shrinking_nat s a (c # cs) \<longleftrightarrow> 0 < c \<and> a * c \<le> 2 ^ (s + 64) \<and> shrinking_nat s (a * 2 ^ s div c + 1) cs"

lemma real_le_div_Suc: "0 < b \<Longrightarrow> real a / real b \<le> real (a div b + 1)"
  using quot_bounds(4) [of b a] by simp

lemma growing_nat: "growing_nat s a cs \<Longrightarrow> 0 \<le> x \<Longrightarrow> x * 2 ^ 64 \<le> real a \<Longrightarrow> growing x (map (\<lambda>c. real c / 2 ^ s) cs)"
proof (induction cs arbitrary: a x)
  case (Cons c cs)
  have "a * 2 ^ s \<le> c * 2 ^ 64" using Cons.prems(1) by (simp only: growing_nat.simps)
  then have "real (a * 2 ^ s) \<le> real (c * 2 ^ 64)" unfolding of_nat_le_iff .
  then have "real a * 2 ^ s \<le> real c * 2 ^ 64" by simp
  moreover have "x * 2 ^ 64 * 2 ^ s \<le> real a * 2 ^ s" using Cons.prems(3) by (rule mult_right_mono) simp
  ultimately have "x * 2 ^ s * 2 ^ 64 \<le> real c * 2 ^ 64" by (simp only: ac_simps)
  then have "x * 2 ^ s \<le> real c" by simp
  then have "x \<le> real c / 2 ^ s" by (simp add: field_simps)
  moreover have "growing (x * (real c / 2 ^ s)) (map (\<lambda>c. real c / 2 ^ s) cs)"
  proof (rule Cons.IH)
    show "growing_nat s (a * c div 2 ^ s + 1) cs" using Cons.prems(1) by (simp only: growing_nat.simps)
    show "0 \<le> x * (real c / 2 ^ s)" using Cons.prems(2) by simp
    have "x * 2 ^ 64 * (real c / 2 ^ s) \<le> real a * (real c / 2 ^ s)" using Cons.prems(3) by (rule mult_right_mono) simp
    also have "\<dots> \<le> real (a * c div 2 ^ s + 1)" using real_le_div_Suc [of "2 ^ s" "a * c"] by simp
    finally show "x * (real c / 2 ^ s) * 2 ^ 64 \<le> real (a * c div 2 ^ s + 1)" by (simp only: ac_simps)
  qed
  ultimately show ?case using Cons.prems(1) by simp
qed simp

lemma shrinking_nat: "shrinking_nat s a cs \<Longrightarrow> 0 \<le> x \<Longrightarrow> x * 2 ^ 64 \<le> real a \<Longrightarrow> shrinking x (map (\<lambda>c. real c / 2 ^ s) cs)"
proof (induction cs arbitrary: a x)
  case (Cons c cs)
  have c: "0 < c" using Cons.prems(1) by simp
  have "a * c \<le> 2 ^ (s + 64)" using Cons.prems(1) by (simp only: shrinking_nat.simps)
  then have "real (a * c) \<le> real (2 ^ (s + 64))" unfolding of_nat_le_iff .
  then have "real a * real c \<le> 2 ^ s * 2 ^ 64" by (simp add: power_add)
  moreover have "x * 2 ^ 64 * real c \<le> real a * real c" using Cons.prems(3) by (rule mult_right_mono) simp
  ultimately have "x * real c * 2 ^ 64 \<le> 2 ^ s * 2 ^ 64" by (simp only: ac_simps)
  then have "x * real c \<le> 2 ^ s" by simp
  then have "x * (real c / 2 ^ s) \<le> 1" by (simp add: field_simps)
  moreover have "shrinking (x / (real c / 2 ^ s)) (map (\<lambda>c. real c / 2 ^ s) cs)"
  proof (rule Cons.IH)
    show "shrinking_nat s (a * 2 ^ s div c + 1) cs" using Cons.prems(1) by (simp only: shrinking_nat.simps)
    show "0 \<le> x / (real c / 2 ^ s)" using Cons.prems(2) by simp
    have "x * 2 ^ 64 * (2 ^ s / real c) \<le> real a * (2 ^ s / real c)" using Cons.prems(3) by (rule mult_right_mono) simp
    also have "\<dots> \<le> real (a * 2 ^ s div c + 1)" using real_le_div_Suc [of c "a * 2 ^ s"] c by simp
    finally show "x / (real c / 2 ^ s) * 2 ^ 64 \<le> real (a * 2 ^ s div c + 1)" by (simp add: ac_simps)
  qed
  ultimately show ?case using c by simp
qed simp

lemma positive_growing: "growing (100004 / 100000) (map (\<lambda>c. real c / 2 ^ 96) positive_factors)"
  by (rule growing_nat [where a = "2 ^ 64 * 100004 div 100000 + 1"]) (simp_all add: positive_factors_def)

lemma negative_shrinking: "shrinking (100004 / 100000) (map (\<lambda>c. real c / 2 ^ 64) negative_factors)"
  by (rule shrinking_nat [where a = "2 ^ 64 * 100004 div 100000 + 1"]) (simp_all add: negative_factors_def)

lemma pf: "c \<in> set positive_factors \<Longrightarrow> 2 ^ 96 \<le> c"
  by (auto simp: positive_factors_def)

lemma nf: "c \<in> set negative_factors \<Longrightarrow> c \<le> 2 ^ 64"
  by (auto simp: negative_factors_def)

lemma lengths: "length positive_factors = 19" "length negative_factors = 19"
  by (simp_all add: positive_factors_def negative_factors_def)

lemma positive_ratio_ge: "2 ^ 96 \<le> positive_ratio t"
  unfolding positive_ratio_def by (rule scaled_steps_ge) (auto simp: positive_factors_def)

lemma positive_ratio_step:
  assumes "t + 1 < 2 ^ 19"
  shows "positive_ratio t + 2 ^ 32 \<le> positive_ratio (t + 1)"
proof -
  define P where "P = bit_product (map (\<lambda>c. real c / 2 ^ 96) positive_factors)"
  define e where "e = (1 - 1 / 2 ^ 96 :: real) ^ 19"
  have up: "real (positive_ratio t) \<le> 2 ^ 96 * P t"
    using scaled_steps_upper [of 96 positive_factors t "2 ^ 96"] by (simp add: positive_ratio_def P_def)
  have low: "real (2 ^ 96) * P (t + 1) * e \<le> positive_ratio (t + 1)"
    using scaled_steps_lower_grow [of positive_factors 96 "2 ^ 96" "t + 1", OF pf]
    unfolding positive_ratio_def lengths(1) P_def e_def by simp
  have grow: "100004 / 100000 * P t \<le> P (t + 1)"
    using growing_step [OF positive_growing, of t] assms lengths by (simp add: P_def)
  have "1 + real 19 * (- (1 / 2 ^ 96)) \<le> (1 + (- (1 / 2 ^ 96 :: real))) ^ 19"
    by (rule Bernoulli_inequality) simp
  then have e: "100003 / 100000 \<le> 100004 / 100000 * e" by (simp add: e_def)
  then have e0: "0 \<le> e" by simp
  have "100003 / 100000 * real (positive_ratio t) \<le> (100004 / 100000 * e) * (2 ^ 96 * P t)"
    using e up e0 by (intro mult_mono) simp_all
  also have "\<dots> = 2 ^ 96 * e * (100004 / 100000 * P t)" by (simp only: ac_simps)
  also have "\<dots> \<le> 2 ^ 96 * e * P (t + 1)"
    using grow e0 by (intro mult_left_mono) simp_all
  also have "\<dots> = real (2 ^ 96) * P (t + 1) * e" by (simp add: ac_simps)
  also note low
  finally have "100003 / 100000 * real (positive_ratio t) \<le> real (positive_ratio (t + 1))" .
  moreover have "real (2 ^ 96) \<le> real (positive_ratio t)" using positive_ratio_ge [of t] of_nat_le_iff by blast
  ultimately have "real (positive_ratio t) + real (2 ^ 32) \<le> real (positive_ratio (t + 1))" by simp
  then have "real (positive_ratio t + 2 ^ 32) \<le> real (positive_ratio (t + 1))" by simp
  then show ?thesis unfolding of_nat_le_iff .
qed

lemma negative_ratio_step:
  assumes "t + 1 < 2 ^ 19" "4295048016 \<le> negative_ratio (t + 1)"
  shows "negative_ratio (t + 1) < negative_ratio t"
proof -
  define P where "P = bit_product (map (\<lambda>c. real c / 2 ^ 64) negative_factors)"
  have "real (negative_ratio (t + 1)) \<le> 2 ^ 64 * P (t + 1)"
    using scaled_steps_upper [of 64 negative_factors "t + 1" "2 ^ 64"] by (simp add: negative_ratio_def P_def)
  moreover have "real (2 ^ 64) * P t - real (length negative_factors) \<le> negative_ratio t"
    using scaled_steps_lower_shrink [of negative_factors 64 "2 ^ 64" t, OF nf] unfolding negative_ratio_def P_def
    by simp
  moreover have "100004 / 100000 * P (t + 1) \<le> P t"
    using shrinking_step [OF negative_shrinking, of t] assms(1) lengths by (simp add: P_def)
  moreover have "real 4295048016 \<le> real (negative_ratio (t + 1))"
    using assms(2) unfolding of_nat_le_iff .
  ultimately have "real (negative_ratio (t + 1)) < real (negative_ratio t)"
    by (simp add: lengths)
  then show ?thesis by simp
qed

lemma ratios_at_bounds:
  "positive_ratio 443636 div 2 ^ 32 = 79226673515401279992447579055" "positive_ratio 443636 < 2 ^ 128"
  "negative_ratio 443636 = 4295048016" "positive_ratio 0 = 2 ^ 96" "negative_ratio 0 = 2 ^ 64"
  by (simp_all add: positive_ratio_def negative_ratio_def positive_factors_def negative_factors_def)

lemma strict_mono_steps:
  fixes f :: "nat \<Rightarrow> nat"
  assumes "\<And>t. a \<le> t \<Longrightarrow> t < n \<Longrightarrow> f t < f (t + 1)"
  shows "a \<le> s \<Longrightarrow> s < t \<Longrightarrow> t \<le> n \<Longrightarrow> f s < f t"
proof (induction t)
  case (Suc t)
  have "f t < f (Suc t)" using assms [of t] Suc.prems by simp
  then show ?case using Suc by (cases "s = t") auto
qed simp

lemma positive_ratio_mono:
  assumes "s < t" "t \<le> 443636"
  shows "positive_ratio s + 2 ^ 32 \<le> positive_ratio t"
proof -
  have step: "positive_ratio u < positive_ratio (u + 1)" if "u < 443636" for u
    using positive_ratio_step [of u] that by simp
  have "positive_ratio s + 2 ^ 32 \<le> positive_ratio (s + 1)"
    by (rule positive_ratio_step) (use assms in simp)
  moreover have "positive_ratio (s + 1) \<le> positive_ratio t"
    using strict_mono_steps [of 0 443636 positive_ratio "s + 1" t] step assms by (cases "s + 1 = t") (auto intro: less_imp_le)
  ultimately show ?thesis by linarith
qed

lemma negative_ratio_mono:
  assumes "s < t" "t \<le> 443636"
  shows "negative_ratio t < negative_ratio s" "4295048016 \<le> negative_ratio s"
proof -
  have ge: "4295048016 \<le> negative_ratio (443636 - k)" if "k \<le> 443636" for k
    using that
  proof (induction k)
    case 0
    then show ?case by (simp add: ratios_at_bounds)
  next
    case (Suc k)
    then obtain u where u: "443636 - Suc k = u" "443636 - k = u + 1" "u < 443636" by simp
    show ?case using negative_ratio_step [of u] Suc u(3) unfolding u(1,2) by simp
  qed
  then have ge': "4295048016 \<le> negative_ratio u" if "u \<le> 443636" for u
    using ge [of "443636 - u"] that by simp
  then show "4295048016 \<le> negative_ratio s" using assms by simp
  have "- int (negative_ratio u) < - int (negative_ratio (u + 1))" if "u < 443636" for u
    using negative_ratio_step [of u] ge' [of "u + 1"] that by simp
  show "negative_ratio t < negative_ratio s"
    using assms
  proof (induction t)
    case (Suc t)
    have "negative_ratio (Suc t) < negative_ratio t" using negative_ratio_step [of t] ge' [of "t + 1"] Suc.prems by simp
    then show ?case using Suc by (cases "s = t") auto
  qed simp
qed

text \<open>The price of a tick as a number.\<close>

definition tick_price :: "int \<Rightarrow> nat" where
  "tick_price t = (if 0 \<le> t then positive_ratio (nat t) div 2 ^ 32 else negative_ratio (nat (- t)))"

lemma tick_price_correct:
  assumes "\<bar>t\<bar> \<le> 443636"
  shows "sqrt_price_from_tick_index t = Ok (of_nat (tick_price t))" "tick_price t < 2 ^ 128"
proof -
  show "sqrt_price_from_tick_index t = Ok (of_nat (tick_price t))"
  proof (cases "0 \<le> t")
    case True
    have "nat t \<le> 443636" using assms by simp
    then have "positive_ratio (nat t) \<le> positive_ratio 443636"
      using positive_ratio_mono [of "nat t" 443636] by (cases "nat t = 443636") auto
    then have "positive_ratio (nat t) < 2 ^ 128" using ratios_at_bounds(2) by linarith
    then show ?thesis using True positive_tick_eq [of "nat t"] by (simp add: sqrt_price_from_tick_index_def tick_price_def)
  next
    case False
    then have "unat (get_sqrt_price_negative_tick t) = negative_ratio (nat (- t))"
      using negative_tick_eq [of "nat (- t)"] assms by simp
    then show ?thesis using False word_of_nat_eqI [of "get_sqrt_price_negative_tick t"] by (auto simp: sqrt_price_from_tick_index_def tick_price_def)
  qed
  show "tick_price t < 2 ^ 128"
  proof (cases "0 \<le> t")
    case True
    have "nat t \<le> 443636" using assms by simp
    then have "positive_ratio (nat t) \<le> positive_ratio 443636"
      using positive_ratio_mono [of "nat t" 443636] by (cases "nat t = 443636") auto
    then have "positive_ratio (nat t) < 2 ^ 128" using ratios_at_bounds(2) by linarith
    then show ?thesis using True by (simp add: tick_price_def less_imp_diff_less div_le_dividend [THEN le_less_trans])
  next
    case False
    then have "negative_ratio (nat (- t)) < negative_ratio 0" using negative_ratio_mono(1) [of 0 "nat (- t)"] assms by simp
    then show ?thesis using False by (simp add: tick_price_def ratios_at_bounds)
  qed
qed

lemma tick_price_strict_mono:
  assumes "-443636 \<le> s" "s < t" "t \<le> 443636"
  shows "tick_price s < tick_price t"
proof -
  consider "0 \<le> s" | "s < 0" "0 \<le> t" | "t < 0" by linarith
  then show ?thesis
  proof cases
    case 1
    have "positive_ratio (nat s) + 2 ^ 32 \<le> positive_ratio (nat t)"
      using 1 assms by (intro positive_ratio_mono) simp_all
    then have "(positive_ratio (nat s) + 2 ^ 32) div 2 ^ 32 \<le> positive_ratio (nat t) div 2 ^ 32" by (rule div_le_mono)
    then show ?thesis using 1 assms by (simp add: tick_price_def)
  next
    case 2
    have "negative_ratio (nat (- s)) < 2 ^ 64"
      using negative_ratio_mono(1) [of 0 "nat (- s)"] 2 assms ratios_at_bounds by simp
    moreover have "2 ^ 96 div 2 ^ 32 \<le> positive_ratio (nat t) div 2 ^ 32" using positive_ratio_ge by (rule div_le_mono)
    ultimately show ?thesis using 2 by (simp add: tick_price_def)
  next
    case 3
    then have "negative_ratio (nat (- s)) < negative_ratio (nat (- t))"
      using assms by (intro negative_ratio_mono) simp_all
    then show ?thesis using 3 assms by (simp add: tick_price_def)
  qed
qed

lemma tick_price_bounds:
  assumes "\<bar>t\<bar> \<le> 443636"
  shows "4295048016 \<le> tick_price t" "tick_price t \<le> 79226673515401279992447579055"
proof -
  have t: "-443636 \<le> t" "t \<le> 443636" using assms by simp_all
  have b: "tick_price (-443636) = 4295048016" "tick_price 443636 = 79226673515401279992447579055"
    using ratios_at_bounds by (simp_all add: tick_price_def)
  show "4295048016 \<le> tick_price t"
    using tick_price_strict_mono [of "-443636" t] t b by (cases "t = -443636") auto
  show "tick_price t \<le> 79226673515401279992447579055"
    using tick_price_strict_mono [of t 443636] t b by (cases "t = 443636") auto
qed

lemma sqrt_price_increasing:
  assumes "-443636 \<le> s" "s < t" "t \<le> 443636"
  shows "\<exists>p q. sqrt_price_from_tick_index s = Ok p \<and> sqrt_price_from_tick_index t = Ok q
     \<and> MIN_SQRT_PRICE_X64 \<le> p \<and> p < q \<and> q \<le> MAX_SQRT_PRICE_X64"
proof -
  have st: "\<bar>s\<bar> \<le> 443636" "\<bar>t\<bar> \<le> 443636" using assms by simp_all
  note s = tick_price_correct [OF st(1)] and t = tick_price_correct [OF st(2)]
  show ?thesis
    using s t tick_price_strict_mono [OF assms] tick_price_bounds [OF st(1)] tick_price_bounds [OF st(2)]
    by (simp add: word_less_nat_alt word_le_nat_alt unat_of_nat MIN_SQRT_PRICE_X64_def MAX_SQRT_PRICE_X64_def)
qed

lemma sqrt_price_at_end_points:
  "sqrt_price_from_tick_index (-443636) = Ok MIN_SQRT_PRICE_X64"
  "sqrt_price_from_tick_index 0 = Ok (2 ^ 64)"
  "sqrt_price_from_tick_index 443636 = Ok MAX_SQRT_PRICE_X64"
  using ratios_at_bounds by (simp_all add: tick_price_correct tick_price_def MIN_SQRT_PRICE_X64_def MAX_SQRT_PRICE_X64_def)

section \<open>Properties\<close>

text \<open>C28: The prices of the supported ticks are strictly increasing in the tick, and all lie in
  the range of supported prices.\<close>

theorem sqrt_price_strictly_increasing:
  assumes "-443636 \<le> s" "s < t" "t \<le> 443636"
  shows "\<exists>p q. sqrt_price_from_tick_index s = Ok p \<and> sqrt_price_from_tick_index t = Ok q
     \<and> MIN_SQRT_PRICE_X64 \<le> p \<and> p < q \<and> q \<le> MAX_SQRT_PRICE_X64"
  by (rule sqrt_price_increasing [OF assms])

lemma sqrt_price_strictly_increasing_witness:
  "\<exists>p q. sqrt_price_from_tick_index (-64) = Ok p \<and> sqrt_price_from_tick_index 128 = Ok q \<and> p < q"
  using sqrt_price_strictly_increasing [of "-64" 128] by auto

text \<open>The smallest tick has exactly the minimum price, tick 0 the price 1 and the largest
  tick exactly the maximum price.\<close>

lemma sqrt_price_at_bounds:
  "sqrt_price_from_tick_index (-443636) = Ok MIN_SQRT_PRICE_X64 \<and>
   sqrt_price_from_tick_index 0 = Ok (2 ^ 64) \<and>
   sqrt_price_from_tick_index 443636 = Ok MAX_SQRT_PRICE_X64"
  using sqrt_price_at_end_points by blast

end
