(* ===== verification/Pool_State.thy ===== *)
theory Pool_State
  imports Tick_Math
begin

text \<open>
  The accounts that configure a market and the pool account itself:
  \<^verbatim>\<open>state/config.rs\<close>, \<^verbatim>\<open>state/fee_tier.rs\<close> and \<^verbatim>\<open>state/pool.rs\<close>. Methods that take
  \<open>&mut self\<close> return the updated record. The key of an account, which Anchor provides, is an
  argument where a method stores it.
\<close>

section \<open>Fixed-size reward arrays\<close>

text \<open>\<open>[T; NUM_REWARDS]\<close>: a type of exactly three elements; indexing out of range panics.\<close>

datatype 'a arr3 = Arr3 'a 'a 'a

definition NUM_REWARDS :: nat where
  "NUM_REWARDS = 3"

fun arr_list :: "'a arr3 \<Rightarrow> 'a list" where
  "arr_list (Arr3 a b c) = [a, b, c]"

definition arr_get :: "'a arr3 \<Rightarrow> nat \<Rightarrow> 'a result" where
  "arr_get xs i = (if i < NUM_REWARDS then Ok (arr_list xs ! i) else Inl Panic)"

fun arr_put :: "'a arr3 \<Rightarrow> nat \<Rightarrow> 'a \<Rightarrow> 'a arr3" where
  "arr_put (Arr3 a b c) i x = (if i = 0 then Arr3 x b c else if i = 1 then Arr3 a x c else Arr3 a b x)"

definition arr_set :: "'a arr3 \<Rightarrow> nat \<Rightarrow> 'a \<Rightarrow> 'a arr3 result" where
  "arr_set xs i x = (if i < NUM_REWARDS then Ok (arr_put xs i x) else Inl Panic)"

fun arr_zip :: "('a \<Rightarrow> 'b \<Rightarrow> 'c) \<Rightarrow> 'a arr3 \<Rightarrow> 'b arr3 \<Rightarrow> 'c arr3" where
  "arr_zip f (Arr3 a b c) (Arr3 a' b' c') = Arr3 (f a a') (f b b') (f c c')"

abbreviation arr_const :: "'a \<Rightarrow> 'a arr3" where
  "arr_const x \<equiv> Arr3 x x x"

section \<open>Configuration\<close>

record pools_config =
  fee_authority :: pubkey
  collect_protocol_fees_authority :: pubkey
  reward_emissions_super_authority :: pubkey
  default_protocol_fee_rate :: u16

definition update_fee_authority :: "pubkey \<Rightarrow> pools_config \<Rightarrow> pools_config" where
  "update_fee_authority key self = self\<lparr>fee_authority := key\<rparr>"

definition update_collect_protocol_fees_authority :: "pubkey \<Rightarrow> pools_config \<Rightarrow> pools_config" where
  "update_collect_protocol_fees_authority key self = self\<lparr>collect_protocol_fees_authority := key\<rparr>"

definition update_reward_emissions_super_authority :: "pubkey \<Rightarrow> pools_config \<Rightarrow> pools_config" where
  "update_reward_emissions_super_authority key self = self\<lparr>reward_emissions_super_authority := key\<rparr>"

definition update_default_protocol_fee_rate :: "u16 \<Rightarrow> pools_config \<Rightarrow> pools_config result" where
  "update_default_protocol_fee_rate rate self =
     (if rate > MAX_PROTOCOL_FEE_RATE then Fail ProtocolFeeRateMaxExceeded
      else Ok (self\<lparr>default_protocol_fee_rate := rate\<rparr>))"

definition config_initialize ::
  "pubkey \<Rightarrow> pubkey \<Rightarrow> pubkey \<Rightarrow> u16 \<Rightarrow> pools_config \<Rightarrow> pools_config result" where
  "config_initialize fee_auth collect_auth reward_auth rate self =
     update_default_protocol_fee_rate rate
       (self\<lparr>fee_authority := fee_auth, collect_protocol_fees_authority := collect_auth,
             reward_emissions_super_authority := reward_auth\<rparr>)"

section \<open>Fee tiers\<close>

record fee_tier =
  tier_pools_config :: pubkey
  tier_tick_spacing :: u16
  default_fee_rate :: u16

definition update_default_fee_rate :: "u16 \<Rightarrow> fee_tier \<Rightarrow> fee_tier result" where
  "update_default_fee_rate rate self =
     (if rate > MAX_FEE_RATE then Fail FeeRateMaxExceeded
      else Ok (self\<lparr>default_fee_rate := rate\<rparr>))"

definition fee_tier_initialize :: "pubkey \<Rightarrow> u16 \<Rightarrow> u16 \<Rightarrow> fee_tier \<Rightarrow> fee_tier result" where
  "fee_tier_initialize config_key spacing rate self =
     update_default_fee_rate rate
       (self\<lparr>tier_pools_config := config_key, tier_tick_spacing := spacing\<rparr>)"

section \<open>Pools\<close>

record pool_reward_info =
  reward_mint :: pubkey
  reward_vault :: pubkey
  reward_authority :: pubkey
  emissions_per_second_x64 :: u128
  growth_global_x64 :: u128

definition default_reward_info :: pool_reward_info where
  "default_reward_info = \<lparr>reward_mint = 0, reward_vault = 0, reward_authority = 0,
     emissions_per_second_x64 = 0, growth_global_x64 = 0\<rparr>"

definition reward_info_new :: "pubkey \<Rightarrow> pool_reward_info" where
  "reward_info_new auth = default_reward_info\<lparr>reward_authority := auth\<rparr>"

definition reward_initialized :: "pool_reward_info \<Rightarrow> bool" where
  "reward_initialized r \<longleftrightarrow> reward_mint r \<noteq> 0"

definition to_reward_growths :: "pool_reward_info arr3 \<Rightarrow> u128 arr3" where
  "to_reward_growths infos = map_arr3 growth_global_x64 infos"

record pool =
  pool_config :: pubkey
  pool_bump :: u8
  tick_spacing :: u16
  tick_spacing_seed :: "u8 list"
  fee_rate :: u16
  protocol_fee_rate :: u16
  pool_liquidity :: u128
  sqrt_price :: u128
  tick_current_index :: i32
  protocol_fee_owed_a :: u64
  protocol_fee_owed_b :: u64
  token_mint_a :: pubkey
  token_vault_a :: pubkey
  fee_growth_global_a :: u128
  token_mint_b :: pubkey
  token_vault_b :: pubkey
  fee_growth_global_b :: u128
  reward_last_updated_timestamp :: u64
  pool_reward_infos :: "pool_reward_info arr3"

text \<open>The zeroed account that \<open>init\<close> creates.\<close>

definition default_pool :: pool where
  "default_pool = \<lparr>pool_config = 0, pool_bump = 0, tick_spacing = 0, tick_spacing_seed = [0, 0],
     fee_rate = 0, protocol_fee_rate = 0, pool_liquidity = 0, sqrt_price = 0,
     tick_current_index = 0, protocol_fee_owed_a = 0, protocol_fee_owed_b = 0,
     token_mint_a = 0, token_vault_a = 0, fee_growth_global_a = 0, token_mint_b = 0,
     token_vault_b = 0, fee_growth_global_b = 0, reward_last_updated_timestamp = 0,
     pool_reward_infos = arr_const default_reward_info\<rparr>"

definition u16_to_le_bytes :: "u16 \<Rightarrow> u8 list" where
  "u16_to_le_bytes x = [ucast x, ucast (drop_bit 8 x)]"

definition update_fee_rate :: "u16 \<Rightarrow> pool \<Rightarrow> pool result" where
  "update_fee_rate rate self =
     (if rate > MAX_FEE_RATE then Fail FeeRateMaxExceeded else Ok (self\<lparr>fee_rate := rate\<rparr>))"

definition update_protocol_fee_rate :: "u16 \<Rightarrow> pool \<Rightarrow> pool result" where
  "update_protocol_fee_rate rate self =
     (if rate > MAX_PROTOCOL_FEE_RATE then Fail ProtocolFeeRateMaxExceeded
      else Ok (self\<lparr>protocol_fee_rate := rate\<rparr>))"

definition pool_initialize ::
  "pubkey \<Rightarrow> pools_config \<Rightarrow> u8 \<Rightarrow> u16 \<Rightarrow> u128 \<Rightarrow> u16 \<Rightarrow> pubkey \<Rightarrow> pubkey \<Rightarrow> pubkey \<Rightarrow> pubkey \<Rightarrow>
   pool \<Rightarrow> pool result" where
  "pool_initialize config_key config bump spacing price rate mint_a vault_a mint_b vault_b self =
     (if mint_a \<ge> mint_b then Fail InvalidTokenMintOrder
      else if price < MIN_SQRT_PRICE_X64 \<or> price > MAX_SQRT_PRICE_X64 then Fail SqrtPriceOutOfBounds
      else
        and_then (update_fee_rate rate
          (self\<lparr>pool_config := config_key, pool_bump := bump, tick_spacing := spacing,
                tick_spacing_seed := u16_to_le_bytes spacing\<rparr>)) (\<lambda>self.
        and_then (update_protocol_fee_rate (default_protocol_fee_rate config) self) (\<lambda>self.
        and_then (tick_index_from_sqrt_price price) (\<lambda>tick.
        Ok (self\<lparr>pool_liquidity := 0, sqrt_price := price, tick_current_index := tick,
                protocol_fee_owed_a := 0, protocol_fee_owed_b := 0,
                token_mint_a := mint_a, token_vault_a := vault_a, fee_growth_global_a := 0,
                token_mint_b := mint_b, token_vault_b := vault_b, fee_growth_global_b := 0,
                pool_reward_infos :=
                  arr_const (reward_info_new (reward_emissions_super_authority config))\<rparr>)))))"

definition update_rewards :: "pool_reward_info arr3 \<Rightarrow> u64 \<Rightarrow> pool \<Rightarrow> pool" where
  "update_rewards infos timestamp self =
     self\<lparr>reward_last_updated_timestamp := timestamp, pool_reward_infos := infos\<rparr>"

definition update_rewards_and_liquidity :: "pool_reward_info arr3 \<Rightarrow> u128 \<Rightarrow> u64 \<Rightarrow> pool \<Rightarrow> pool" where
  "update_rewards_and_liquidity infos liq timestamp self =
     (update_rewards infos timestamp self)\<lparr>pool_liquidity := liq\<rparr>"

definition update_reward_authority :: "nat \<Rightarrow> pubkey \<Rightarrow> pool \<Rightarrow> pool result" where
  "update_reward_authority index auth self =
     (if index \<ge> NUM_REWARDS then Fail InvalidRewardIndex
      else
        and_then (arr_get (pool_reward_infos self) index) (\<lambda>r.
        and_then (arr_set (pool_reward_infos self) index (r\<lparr>reward_authority := auth\<rparr>)) (\<lambda>infos.
        Ok (self\<lparr>pool_reward_infos := infos\<rparr>))))"

definition update_emissions :: "nat \<Rightarrow> pool_reward_info arr3 \<Rightarrow> u64 \<Rightarrow> u128 \<Rightarrow> pool \<Rightarrow> pool result" where
  "update_emissions index infos timestamp emissions self =
     (if index \<ge> NUM_REWARDS then Fail InvalidRewardIndex
      else
        let self = update_rewards infos timestamp self in
        and_then (arr_get (pool_reward_infos self) index) (\<lambda>r.
        and_then (arr_set (pool_reward_infos self) index (r\<lparr>emissions_per_second_x64 := emissions\<rparr>)) (\<lambda>infos.
        Ok (self\<lparr>pool_reward_infos := infos\<rparr>))))"

text \<open>\<open>iter().position(p)\<close>: the index of the first element that satisfies \<open>p\<close>.\<close>

fun position :: "('a \<Rightarrow> bool) \<Rightarrow> 'a list \<Rightarrow> nat option" where
  "position P [] = None"
| "position P (x # xs) = (if P x then Some 0 else map_option Suc (position P xs))"

definition initialize_reward :: "nat \<Rightarrow> pubkey \<Rightarrow> pubkey \<Rightarrow> pool \<Rightarrow> pool result" where
  "initialize_reward index mint vault self =
     (if index \<ge> NUM_REWARDS then Fail InvalidRewardIndex
      else case position (\<lambda>r. \<not> reward_initialized r) (arr_list (pool_reward_infos self)) of
        None \<Rightarrow> Fail InvalidRewardIndex
      | Some lowest_index \<Rightarrow>
          if lowest_index \<noteq> index then Fail InvalidRewardIndex
          else
            and_then (arr_get (pool_reward_infos self) index) (\<lambda>r.
            and_then (arr_set (pool_reward_infos self) index
              (r\<lparr>reward_mint := mint, reward_vault := vault\<rparr>)) (\<lambda>infos.
            Ok (self\<lparr>pool_reward_infos := infos\<rparr>))))"

definition update_after_swap ::
  "u128 \<Rightarrow> i32 \<Rightarrow> u128 \<Rightarrow> u128 \<Rightarrow> pool_reward_info arr3 \<Rightarrow> u64 \<Rightarrow> bool \<Rightarrow> u64 \<Rightarrow> pool \<Rightarrow> pool" where
  "update_after_swap liq tick_index price fee_growth_global infos protocol_fee is_token_fee_in_a
     timestamp self =
     (let self = self\<lparr>tick_current_index := tick_index, sqrt_price := price, pool_liquidity := liq,
                      pool_reward_infos := infos, reward_last_updated_timestamp := timestamp\<rparr>
      in if is_token_fee_in_a then
           self\<lparr>fee_growth_global_a := fee_growth_global,
                protocol_fee_owed_a := protocol_fee_owed_a self + protocol_fee\<rparr>
         else
           self\<lparr>fee_growth_global_b := fee_growth_global,
                protocol_fee_owed_b := protocol_fee_owed_b self + protocol_fee\<rparr>)"

definition reset_protocol_fees_owed :: "pool \<Rightarrow> pool" where
  "reset_protocol_fees_owed self = self\<lparr>protocol_fee_owed_a := 0, protocol_fee_owed_b := 0\<rparr>"

section \<open>Setters with a cap\<close>

text \<open>The contract that the four setters of a fee rate share.\<close>

locale capped_setter =
  fixes set_rate :: "u16 \<Rightarrow> 's \<Rightarrow> 's result" and rate :: "'s \<Rightarrow> u16" and cap :: u16 and err :: error_code
  assumes above_cap: "cap < r \<Longrightarrow> set_rate r s = Fail err"
    and below_cap: "r \<le> cap \<Longrightarrow> \<exists>s'. set_rate r s = Ok s' \<and> rate s' = r"
begin

lemma set_rate_OkD: "set_rate r s = Ok s' \<Longrightarrow> rate s' = r \<and> rate s' \<le> cap"
  using above_cap [of r s] below_cap [of r s] by (cases "cap < r") (auto simp: not_less)

lemma set_rate_fails: "set_rate r s = Inl f \<longleftrightarrow> cap < r \<and> f = Err err"
  using above_cap [of r s] below_cap [of r s] by (cases "cap < r") (auto simp: not_less)

lemma last_rate_wins: "set_rate r s = Ok s1 \<Longrightarrow> set_rate r' s1 = Ok s2 \<Longrightarrow> rate s2 = r'"
  using set_rate_OkD [of r' s1 s2] by simp

end

interpretation pool_fee: capped_setter update_fee_rate fee_rate MAX_FEE_RATE FeeRateMaxExceeded
  by unfold_locales (auto simp: update_fee_rate_def)

interpretation pool_protocol_fee:
  capped_setter update_protocol_fee_rate protocol_fee_rate MAX_PROTOCOL_FEE_RATE ProtocolFeeRateMaxExceeded
  by unfold_locales (auto simp: update_protocol_fee_rate_def)

interpretation tier_fee: capped_setter update_default_fee_rate default_fee_rate MAX_FEE_RATE FeeRateMaxExceeded
  by unfold_locales (auto simp: update_default_fee_rate_def)

interpretation config_protocol_fee:
  capped_setter update_default_protocol_fee_rate default_protocol_fee_rate MAX_PROTOCOL_FEE_RATE
    ProtocolFeeRateMaxExceeded
  by unfold_locales (auto simp: update_default_protocol_fee_rate_def)

lemma update_fee_rate_Ok_iff:
  "update_fee_rate r p = Ok p' \<longleftrightarrow> r \<le> MAX_FEE_RATE \<and> p' = p\<lparr>fee_rate := r\<rparr>"
  by (auto simp: update_fee_rate_def)

lemma update_protocol_fee_rate_Ok_iff:
  "update_protocol_fee_rate r p = Ok p' \<longleftrightarrow> r \<le> MAX_PROTOCOL_FEE_RATE \<and> p' = p\<lparr>protocol_fee_rate := r\<rparr>"
  by (auto simp: update_protocol_fee_rate_def)

section \<open>Rewards\<close>

lemma arr_get_Ok_iff [simp]: "arr_get xs i = Inr x \<longleftrightarrow> i < 3 \<and> x = arr_list xs ! i"
  by (auto simp: arr_get_def NUM_REWARDS_def)

lemma arr_set_Ok_iff [simp]: "arr_set xs i x = Inr ys \<longleftrightarrow> i < 3 \<and> ys = arr_put xs i x"
  by (auto simp: arr_set_def NUM_REWARDS_def)

lemma arr_list_put: "i < 3 \<Longrightarrow> arr_list (arr_put xs i x) = (arr_list xs)[i := x]"
  by (cases xs) (auto simp: less_Suc_eq numeral_3_eq_3)

lemma length_arr_list [simp]: "length (arr_list xs) = 3"
  by (cases xs) simp

lemma initialize_reward_eq:
  "initialize_reward i mint vault p =
     (let infos = arr_list (pool_reward_infos p) in
      if i < 3 \<and> \<not> reward_initialized (infos ! i) \<and> list_all reward_initialized (take i infos)
      then Ok (p\<lparr>pool_reward_infos := arr_put (pool_reward_infos p) i
                  ((infos ! i)\<lparr>reward_mint := mint, reward_vault := vault\<rparr>)\<rparr>)
      else Fail InvalidRewardIndex)"
proof -
  obtain a b c where abc: "pool_reward_infos p = Arr3 a b c" by (cases "pool_reward_infos p")
  consider "i = 0" | "i = 1" | "i = 2" | "3 \<le> i" by linarith
  then show ?thesis
    by cases (auto simp: initialize_reward_def abc NUM_REWARDS_def Let_def arr_get_def arr_set_def)
qed

lemma initialize_reward_Ok:
  "initialize_reward i mint vault p = Ok p' \<Longrightarrow> \<exists>infos. p' = p\<lparr>pool_reward_infos := infos\<rparr>"
  by (auto simp: initialize_reward_eq Let_def split: if_splits)

section \<open>Properties\<close>

text \<open>The rewards of a pool are initialised in order: \<open>initialize_reward\<close> succeeds exactly at the
  lowest index that is not initialised, returns \<open>InvalidRewardIndex\<close> everywhere else, and
  changes no other reward.\<close>

theorem initialize_reward_in_order:
  "initialize_reward i mint vault p =
     (let infos = arr_list (pool_reward_infos p) in
      if i < 3 \<and> \<not> reward_initialized (infos ! i) \<and> list_all reward_initialized (take i infos)
      then Ok (p\<lparr>pool_reward_infos := arr_put (pool_reward_infos p) i
                  ((infos ! i)\<lparr>reward_mint := mint, reward_vault := vault\<rparr>)\<rparr>)
      else Fail InvalidRewardIndex)"
  by (rule initialize_reward_eq)

text \<open>A pool that \<open>initialize\<close> accepts has its mints in order, a price in the supported range,
  fee rates within their caps, the tick of its price, and starts with no liquidity, no fees and
  no reward.\<close>

theorem pool_initialize_establishes:
  assumes "pool_initialize config_key config bump spacing price rate mint_a vault_a mint_b vault_b p0 = Ok p"
  shows "token_mint_a p < token_mint_b p \<and> MIN_SQRT_PRICE_X64 \<le> sqrt_price p \<and>
    sqrt_price p \<le> MAX_SQRT_PRICE_X64 \<and> fee_rate p \<le> MAX_FEE_RATE \<and>
    protocol_fee_rate p \<le> MAX_PROTOCOL_FEE_RATE \<and>
    tick_index_from_sqrt_price (sqrt_price p) = Ok (tick_current_index p) \<and>
    pool_liquidity p = 0 \<and> protocol_fee_owed_a p = 0 \<and> protocol_fee_owed_b p = 0 \<and>
    \<not> list_ex reward_initialized (arr_list (pool_reward_infos p))"
proof -
  obtain p1 p2 tick where "\<not> mint_b \<le> mint_a" "\<not> (price < MIN_SQRT_PRICE_X64 \<or> price > MAX_SQRT_PRICE_X64)"
    and 1: "update_fee_rate rate (p0\<lparr>pool_config := config_key, pool_bump := bump, tick_spacing := spacing,
                tick_spacing_seed := u16_to_le_bytes spacing\<rparr>) = Ok p1"
    and 2: "update_protocol_fee_rate (default_protocol_fee_rate config) p1 = Ok p2"
    and 3: "tick_index_from_sqrt_price price = Ok tick"
    and 4: "p = p2\<lparr>pool_liquidity := 0, sqrt_price := price, tick_current_index := tick,
                protocol_fee_owed_a := 0, protocol_fee_owed_b := 0,
                token_mint_a := mint_a, token_vault_a := vault_a, fee_growth_global_a := 0,
                token_mint_b := mint_b, token_vault_b := vault_b, fee_growth_global_b := 0,
                pool_reward_infos :=
                  arr_const (reward_info_new (reward_emissions_super_authority config))\<rparr>"
    using assms by (auto simp: pool_initialize_def and_then_Inr_iff split: if_splits)
  then show ?thesis
    using pool_fee.set_rate_OkD [OF 1] pool_protocol_fee.set_rate_OkD [OF 2]
    by (auto simp: update_protocol_fee_rate_Ok_iff reward_initialized_def reward_info_new_def
        default_reward_info_def not_less not_le)
qed

lemma pool_initialize_establishes_witness:
  "\<exists>p. pool_initialize 1 \<lparr>fee_authority = 2, collect_protocol_fees_authority = 3,
       reward_emissions_super_authority = 4, default_protocol_fee_rate = 300\<rparr> 255 64 (2 ^ 64) 3000 10 11 12 13
       default_pool = Ok p \<and> token_mint_a p < token_mint_b p"
proof -
  have "is_ok (pool_initialize 1 \<lparr>fee_authority = 2, collect_protocol_fees_authority = 3,
       reward_emissions_super_authority = 4, default_protocol_fee_rate = 300\<rparr> 255 64 (2 ^ 64) 3000 10 11 12 13
       default_pool)" by code_simp
  then show ?thesis using pool_initialize_establishes unfolding is_ok_iff by blast
qed

end
