(* ===== verification/Tick_State.thy ===== *)
theory Tick_State
  imports Pool_State
begin

text \<open>
  Ticks and the arrays of 88 ticks that store them (\<^verbatim>\<open>state/tick.rs\<close>). A tick index is an
  \<open>i32\<close>; \<open>/\<close> and \<open>%\<close> on signed integers truncate towards zero (\<open>sdiv\<close>, \<open>smod\<close>), and \<open>% 0\<close>
  panics, so the checks that divide by the tick spacing are fallible.
\<close>

section \<open>Ticks\<close>

definition MAX_TICK_INDEX :: i32 where
  "MAX_TICK_INDEX = 443636"

definition MIN_TICK_INDEX :: i32 where
  "MIN_TICK_INDEX = -443636"

definition TICK_ARRAY_SIZE :: i32 where
  "TICK_ARRAY_SIZE = 88"

definition TICK_ARRAY_SIZE_USIZE :: nat where
  "TICK_ARRAY_SIZE_USIZE = 88"

record tick =
  tick_initialized :: bool
  liquidity_net :: i128
  liquidity_gross :: u128
  fee_growth_outside_a :: u128
  fee_growth_outside_b :: u128
  reward_growths_outside :: "u128 arr3"

definition default_tick :: tick where
  "default_tick = \<lparr>tick_initialized = False, liquidity_net = 0, liquidity_gross = 0,
     fee_growth_outside_a = 0, fee_growth_outside_b = 0, reward_growths_outside = arr_const 0\<rparr>"

text \<open>
  \<open>TickUpdate\<close> has the fields of \<open>Tick\<close> and both \<open>TickUpdate::from\<close> and \<open>Tick::update\<close>
  copy all of them, so an update is the record of the new tick.
\<close>

type_synonym tick_update = tick

definition tick_update_from :: "tick \<Rightarrow> tick_update" where
  "tick_update_from t = \<lparr>tick_initialized = tick_initialized t, liquidity_net = liquidity_net t,
     liquidity_gross = liquidity_gross t, fee_growth_outside_a = fee_growth_outside_a t,
     fee_growth_outside_b = fee_growth_outside_b t,
     reward_growths_outside = reward_growths_outside t\<rparr>"

definition tick_apply_update :: "tick_update \<Rightarrow> tick \<Rightarrow> tick" where
  "tick_apply_update u self = self\<lparr>tick_initialized := tick_initialized u,
     liquidity_net := liquidity_net u, liquidity_gross := liquidity_gross u,
     fee_growth_outside_a := fee_growth_outside_a u, fee_growth_outside_b := fee_growth_outside_b u,
     reward_growths_outside := reward_growths_outside u\<rparr>"

definition i32_of_u16 :: "u16 \<Rightarrow> i32" where
  "i32_of_u16 x = int (unat x)"

lemma i32_of_u16_code [code]: "i32_of_u16 x = uint x"
  by (simp add: i32_of_u16_def)

definition checked_rem :: "i32 \<Rightarrow> i32 \<Rightarrow> i32 result" where
  "checked_rem a b = (if b = 0 then Inl Panic else Ok (a smod b))"

definition check_is_out_of_bounds :: "i32 \<Rightarrow> bool" where
  "check_is_out_of_bounds tick_index \<longleftrightarrow> tick_index > MAX_TICK_INDEX \<or> tick_index < MIN_TICK_INDEX"

definition check_is_valid_start_tick :: "i32 \<Rightarrow> u16 \<Rightarrow> bool result" where
  "check_is_valid_start_tick tick_index spacing =
     (let ticks_in_array = wrap_i32 (TICK_ARRAY_SIZE * i32_of_u16 spacing) in
      if check_is_out_of_bounds tick_index then
        if tick_index > MIN_TICK_INDEX then Ok False
        else
          and_then (checked_rem MIN_TICK_INDEX ticks_in_array) (\<lambda>r.
          Ok (tick_index = wrap_i32 (MIN_TICK_INDEX - wrap_i32 (r + ticks_in_array))))
      else and_then (checked_rem tick_index ticks_in_array) (\<lambda>r. Ok (r = 0)))"

definition check_is_usable_tick :: "i32 \<Rightarrow> u16 \<Rightarrow> bool result" where
  "check_is_usable_tick tick_index spacing =
     (if check_is_out_of_bounds tick_index then Ok False
      else and_then (checked_rem tick_index (i32_of_u16 spacing)) (\<lambda>r. Ok (r = 0)))"

definition bound_tick_index :: "i32 \<Rightarrow> i32" where
  "bound_tick_index tick_index = min (max tick_index MIN_TICK_INDEX) MAX_TICK_INDEX"

section \<open>Tick arrays\<close>

text \<open>\<open>ticks\<close> is a list of \<open>TICK_ARRAY_SIZE_USIZE\<close> ticks (\<open>tick_array_wf\<close>).\<close>

record tick_array =
  start_tick_index :: i32
  ticks :: "tick list"
  tick_array_pool :: pubkey

definition tick_array_wf :: "tick_array \<Rightarrow> bool" where
  "tick_array_wf ta \<longleftrightarrow> length (ticks ta) = TICK_ARRAY_SIZE_USIZE"

definition default_tick_array :: tick_array where
  "default_tick_array = \<lparr>start_tick_index = 0,
     ticks = replicate TICK_ARRAY_SIZE_USIZE default_tick, tick_array_pool = 0\<rparr>"

definition get_offset :: "i32 \<Rightarrow> i32 \<Rightarrow> u16 \<Rightarrow> int result" where
  "get_offset tick_index start spacing =
     (let lhs = wrap_i32 (tick_index - start); rhs = i32_of_u16 spacing in
      if rhs = 0 then Inl Panic
      else
        let d = lhs sdiv rhs; r = lhs smod rhs
        in Ok (if r > 0 \<and> rhs < 0 \<or> r < 0 \<and> rhs > 0 then wrap_i32 (d - 1) else d))"

definition tick_offset :: "tick_array \<Rightarrow> i32 \<Rightarrow> u16 \<Rightarrow> int result" where
  "tick_offset self tick_index spacing =
     (if spacing = 0 then Fail InvalidTickSpacing
      else get_offset tick_index (start_tick_index self) spacing)"

definition in_search_range :: "tick_array \<Rightarrow> i32 \<Rightarrow> u16 \<Rightarrow> bool \<Rightarrow> bool" where
  "in_search_range self tick_index spacing shifted =
     (let lower = start_tick_index self;
          upper = wrap_i32 (start_tick_index self + wrap_i32 (TICK_ARRAY_SIZE * i32_of_u16 spacing));
          (lower, upper) = (if shifted then (wrap_i32 (lower - i32_of_u16 spacing),
                                             wrap_i32 (upper - i32_of_u16 spacing))
                            else (lower, upper))
      in tick_index \<ge> lower \<and> tick_index < upper)"

definition check_in_array_bounds :: "tick_array \<Rightarrow> i32 \<Rightarrow> u16 \<Rightarrow> bool" where
  "check_in_array_bounds self tick_index spacing = in_search_range self tick_index spacing False"

definition is_min_tick_array :: "tick_array \<Rightarrow> bool" where
  "is_min_tick_array self \<longleftrightarrow> start_tick_index self \<le> MIN_TICK_INDEX"

definition is_max_tick_array :: "tick_array \<Rightarrow> u16 \<Rightarrow> bool" where
  "is_max_tick_array self spacing \<longleftrightarrow>
     wrap_i32 (start_tick_index self + wrap_i32 (TICK_ARRAY_SIZE * i32_of_u16 spacing)) > MAX_TICK_INDEX"

text \<open>
  The search loop moves the offset by one each round and stops when it leaves the array; its
  measure is the distance to the border it moves to.
\<close>

function init_tick_loop :: "tick_array \<Rightarrow> u16 \<Rightarrow> bool \<Rightarrow> int \<Rightarrow> i32 option result" where
  "init_tick_loop self spacing a_to_b curr_offset =
     (if curr_offset \<ge> 0 \<and> curr_offset < TICK_ARRAY_SIZE then
        if nat curr_offset \<ge> length (ticks self) then Inl Panic
        else if tick_initialized (ticks self ! nat curr_offset) then
          Ok (Some (wrap_i32 (wrap_i32 (curr_offset * i32_of_u16 spacing) + start_tick_index self)))
        else init_tick_loop self spacing a_to_b (if a_to_b then curr_offset - 1 else curr_offset + 1)
      else Ok None)"
  by pat_completeness auto

termination
  by (relation "measure (\<lambda>(_, _, a_to_b, c). nat (if a_to_b then c + 1 else TICK_ARRAY_SIZE - c))") auto

declare init_tick_loop.simps [simp del]

definition get_next_init_tick_index :: "tick_array \<Rightarrow> i32 \<Rightarrow> u16 \<Rightarrow> bool \<Rightarrow> i32 option result" where
  "get_next_init_tick_index self tick_index spacing a_to_b =
     (if \<not> in_search_range self tick_index spacing (\<not> a_to_b) then Fail InvalidTickArraySequence
      else
        and_then (tick_offset self tick_index spacing) (\<lambda>curr_offset.
        init_tick_loop self spacing a_to_b (if \<not> a_to_b then curr_offset + 1 else curr_offset)))"

definition tick_array_initialize :: "pubkey \<Rightarrow> pool \<Rightarrow> i32 \<Rightarrow> tick_array \<Rightarrow> tick_array result" where
  "tick_array_initialize pool_key p start self =
     and_then (check_is_valid_start_tick start (tick_spacing p)) (\<lambda>valid.
     if \<not> valid then Fail InvalidStartTick
     else Ok (self\<lparr>tick_array_pool := pool_key, start_tick_index := start\<rparr>))"

text \<open>The position of a tick in the array, with the checks that \<open>get_tick\<close> and
  \<open>update_tick\<close> both make.\<close>

definition tick_position :: "tick_array \<Rightarrow> i32 \<Rightarrow> u16 \<Rightarrow> nat result" where
  "tick_position self tick_index spacing =
     (if \<not> check_in_array_bounds self tick_index spacing then Fail TickNotFound
      else
        and_then (check_is_usable_tick tick_index spacing) (\<lambda>usable.
        if \<not> usable then Fail TickNotFound
        else
          and_then (tick_offset self tick_index spacing) (\<lambda>offset.
          if offset < 0 then Fail TickNotFound
          else if nat offset \<ge> length (ticks self) then Inl Panic
          else Ok (nat offset))))"

definition get_tick :: "tick_array \<Rightarrow> i32 \<Rightarrow> u16 \<Rightarrow> tick result" where
  "get_tick self tick_index spacing =
     and_then (tick_position self tick_index spacing) (\<lambda>offset. Ok (ticks self ! offset))"

definition update_tick :: "tick_array \<Rightarrow> i32 \<Rightarrow> u16 \<Rightarrow> tick_update \<Rightarrow> tick_array result" where
  "update_tick self tick_index spacing upd =
     and_then (tick_position self tick_index spacing) (\<lambda>offset.
     Ok (self\<lparr>ticks := (ticks self)[offset := tick_apply_update upd (ticks self ! offset)]\<rparr>))"

section \<open>Tick positions\<close>

lemma tick_apply_update_eq [simp]: "tick_apply_update u t = u"
  by (simp add: tick_apply_update_def)

lemma tick_update_from_eq [simp]: "tick_update_from t = t"
  by (simp add: tick_update_from_def)

lemma i32_of_u16_bounds: "0 \<le> i32_of_u16 sp" "i32_of_u16 sp \<le> 65535" "i32_of_u16 sp = 0 \<longleftrightarrow> sp = 0"
proof -
  have "unat sp < 65536" using unat_less_size [of sp] by simp
  then show "0 \<le> i32_of_u16 sp" "i32_of_u16 sp \<le> 65535" "i32_of_u16 sp = 0 \<longleftrightarrow> sp = 0"
    unfolding i32_of_u16_def by (simp, linarith, simp add: uint_0_iff)
qed

lemma smod_eq_0_iff: "(i::int) smod r = 0 \<longleftrightarrow> r dvd i"
  unfolding signed_modulo_int_def mult_eq_0_iff sgn_eq_0_iff by (auto simp: mod_eq_0_iff_dvd)

lemma usable_iff:
  "check_is_usable_tick i sp = Ok True \<longleftrightarrow> sp \<noteq> 0 \<and> \<bar>i\<bar> \<le> 443636 \<and> i32_of_u16 sp dvd i"
  by (auto simp: check_is_usable_tick_def check_is_out_of_bounds_def checked_rem_def
        MAX_TICK_INDEX_def MIN_TICK_INDEX_def i32_of_u16_bounds smod_eq_0_iff split: if_splits)

lemma le_div_iff_mult_le_int: "(0::int) < r \<Longrightarrow> a \<le> l div r \<longleftrightarrow> a * r \<le> l"
proof
  assume r: "0 < r" and "a \<le> l div r"
  then have "a * r \<le> l div r * r" by (intro mult_right_mono) simp_all
  also have "\<dots> \<le> l" using r pos_mod_sign [of r l] div_mult_mod_eq [of l r] by linarith
  finally show "a * r \<le> l" .
next
  assume r: "0 < r" and "a * r \<le> l"
  then have "a * r div r \<le> l div r" by (intro zdiv_mono1)
  then show "a \<le> l div r" using r by simp
qed

lemma div_less_iff: "(0::int) < r \<Longrightarrow> l div r < a \<longleftrightarrow> l < a * r"
  using le_div_iff_mult_le_int [of r a l] by linarith

text \<open>\<open>get_offset\<close> is the quotient rounded down.\<close>

lemma sdiv_floor:
  assumes "0 < (r::int)"
  shows "(if l smod r < 0 then l sdiv r - 1 else l sdiv r) = l div r"
proof -
  have d: "l sdiv r * r + l smod r = l" by (rule sdiv_mult_smod_eq)
  have m: "l smod r = sgn l * (\<bar>l\<bar> mod r)" using assms by (simp add: signed_modulo_int_def)
  have b: "0 \<le> \<bar>l\<bar> mod r" "\<bar>l\<bar> mod r < r" using assms by simp_all
  show ?thesis
  proof (cases "l smod r < 0")
    case True
    then have "- r < l smod r" using m b by (cases "l < 0") (auto simp: sgn_if)
    then have "l = (l sdiv r - 1) * r + (l smod r + r)" using d by (simp add: algebra_simps)
    then have "l div r = l sdiv r - 1"
      using True \<open>- r < l smod r\<close> by (intro int_div_pos_eq [of _ _ _ "l smod r + r"]) (simp_all add: ac_simps)
    then show ?thesis using True by simp
  next
    case False
    have "l smod r < r" using m b by (cases "l < 0"; cases "l = 0") (auto simp: sgn_if)
    then have "l div r = l sdiv r"
      using False d by (intro int_div_pos_eq [of _ _ _ "l smod r"]) (simp_all add: ac_simps)
    then show ?thesis using False by simp
  qed
qed

lemma tick_offset_eq:
  assumes "sp \<noteq> 0" "in_signed 32 (i - start_tick_index ta)"
  shows "tick_offset ta i sp = Ok ((i - start_tick_index ta) div i32_of_u16 sp)"
proof -
  let ?l = "i - start_tick_index ta"
  have r: "0 < i32_of_u16 sp" using i32_of_u16_bounds [of sp] assms(1) by linarith
  have w: "wrap_i32 ?l = ?l" by (rule wrap_signed_id) (use assms(2) in simp_all)
  have q: "- 2147483648 \<le> ?l div i32_of_u16 sp" "?l div i32_of_u16 sp < 2147483648"
  proof -
    have "-2147483648 * i32_of_u16 sp \<le> -2147483648 * 1" using r by simp
    then have "-2147483648 * i32_of_u16 sp \<le> ?l" using assms(2) by simp
    then show "- 2147483648 \<le> ?l div i32_of_u16 sp" using r by (simp add: le_div_iff_mult_le_int)
    have "2147483648 * 1 \<le> 2147483648 * i32_of_u16 sp" using r by simp
    then have "?l < 2147483648 * i32_of_u16 sp" using assms(2) by simp
    then show "?l div i32_of_u16 sp < 2147483648" using r by (simp add: div_less_iff)
  qed
  show ?thesis
    using assms(1) r sdiv_floor [OF r, of ?l] w q
    by (auto simp: tick_offset_def get_offset_def Let_def split: if_splits)
qed

section \<open>Valid tick arrays: positions, reads and writes\<close>

text \<open>
  The invariant of a tick array with its pool's tick spacing: 88 ticks, a start index that
  passed \<open>check_is_valid_start_tick\<close>, and no initialised tick outside the supported range.
\<close>

definition initialized_in_range :: "tick_array \<Rightarrow> u16 \<Rightarrow> bool" where
  "initialized_in_range ta spacing \<longleftrightarrow> list_all (\<lambda>k. tick_initialized (ticks ta ! k) \<longrightarrow>
     \<not> check_is_out_of_bounds (start_tick_index ta + int k * i32_of_u16 spacing)) [0..<length (ticks ta)]"

definition tick_array_valid :: "tick_array \<Rightarrow> u16 \<Rightarrow> bool" where
  "tick_array_valid ta spacing \<longleftrightarrow> tick_array_wf ta \<and> spacing \<noteq> 0 \<and>
     check_is_valid_start_tick (start_tick_index ta) spacing = Ok True \<and> initialized_in_range ta spacing"

lemma initialized_in_range_iff:
  "initialized_in_range ta sp \<longleftrightarrow> (\<forall>k < length (ticks ta). tick_initialized (ticks ta ! k) \<longrightarrow>
     \<bar>start_tick_index ta + int k * i32_of_u16 sp\<bar> \<le> 443636)"
  by (auto simp: initialized_in_range_def list_all_iff check_is_out_of_bounds_def MAX_TICK_INDEX_def MIN_TICK_INDEX_def)

lemma valid_start_tickD:
  assumes "check_is_valid_start_tick s sp = Ok True" "sp \<noteq> 0"
  shows "88 * i32_of_u16 sp dvd s" "- 6210716 \<le> s" "s \<le> 443636"
proof -
  let ?r = "i32_of_u16 sp" let ?m = "(- 443636) smod (88 * ?r)"
  have r: "0 < ?r" "?r \<le> 65535" using i32_of_u16_bounds [of sp] assms(2) by linarith+
  have w: "wrap_i32 (88 * ?r) = 88 * ?r" by (rule wrap_i32_id) (use r in linarith)+
  have m: "?m = - (443636 mod (88 * ?r))"
    using r by (simp add: signed_modulo_int_def)
  have mb: "0 \<le> 443636 mod (88 * ?r)" "443636 mod (88 * ?r) < 88 * ?r" using r by simp_all
  have w2: "wrap_i32 (?m + 88 * ?r) = ?m + 88 * ?r" 
    by (rule wrap_i32_id; use r mb in \<open>unfold m, linarith\<close>)
  have w3: "wrap_i32 (- 443636 - (?m + 88 * ?r)) = - 443636 - (?m + 88 * ?r)"
    by (rule wrap_i32_id; use r mb in \<open>unfold m, linarith\<close>)
  have "(443636 - 443636 mod (88 * ?r)) = 88 * ?r * (443636 div (88 * ?r))"
    by (rule minus_mod_eq_mult_div)
  then have d: "88 * ?r dvd 443636 - 443636 mod (88 * ?r)" by simp
  have d2: "88 * ?r dvd - 443636 - (?m + 88 * ?r)"
  proof -
    have "- 443636 - (?m + 88 * ?r) = - (443636 - 443636 mod (88 * ?r)) - 88 * ?r" unfolding m by simp
    then show ?thesis using d by (simp only: dvd_minus_iff dvd_diff dvd_refl)
  qed
  have "88 * ?r dvd s \<and> - 6210716 \<le> s \<and> s \<le> 443636"
  proof (cases "check_is_out_of_bounds s")
    case True
    then have "s = - 443636 - (?m + 88 * ?r)"
      using assms r w w2 w3 by (auto simp: check_is_valid_start_tick_def Let_def checked_rem_def
          TICK_ARRAY_SIZE_def MIN_TICK_INDEX_def split: if_splits)
    with d2 have "88 * ?r dvd s" by simp
    moreover have "- 6210716 \<le> s" "s \<le> 443636" unfolding \<open>s = _\<close> m using r mb by linarith+
    ultimately show ?thesis by simp
  next
    case False
    then have "s smod (88 * ?r) = 0" "\<bar>s\<bar> \<le> 443636"
      using assms r w by (auto simp: check_is_valid_start_tick_def Let_def checked_rem_def
          TICK_ARRAY_SIZE_def MIN_TICK_INDEX_def MAX_TICK_INDEX_def check_is_out_of_bounds_def split: if_splits)
    then show ?thesis by (auto simp: smod_eq_0_iff)
  qed
  then show "88 * ?r dvd s" "- 6210716 \<le> s" "s \<le> 443636" by blast+
qed

lemma tick_array_validD:
  assumes "tick_array_valid ta sp"
  shows "length (ticks ta) = 88" "0 < i32_of_u16 sp" "i32_of_u16 sp \<le> 65535" "sp \<noteq> 0"
    "i32_of_u16 sp dvd start_tick_index ta" "- 6210716 \<le> start_tick_index ta"
    "start_tick_index ta \<le> 443636"
  using assms valid_start_tickD [of "start_tick_index ta" sp] i32_of_u16_bounds [of sp]
  by (auto simp: tick_array_valid_def tick_array_wf_def TICK_ARRAY_SIZE_USIZE_def dest: dvd_mult_right)

lemma in_search_range_iff:
  assumes "tick_array_valid ta sp"
  shows "in_search_range ta i sp shifted \<longleftrightarrow>
    start_tick_index ta - (if shifted then i32_of_u16 sp else 0) \<le> i \<and>
    i < start_tick_index ta + 88 * i32_of_u16 sp - (if shifted then i32_of_u16 sp else 0)"
proof -
  note b = tick_array_validD [OF assms]
  have 1: "wrap_i32 (88 * i32_of_u16 sp) = 88 * i32_of_u16 sp" by (rule wrap_i32_id) (use b in linarith)+
  have 2: "wrap_i32 (start_tick_index ta + 88 * i32_of_u16 sp) = start_tick_index ta + 88 * i32_of_u16 sp"
    by (rule wrap_i32_id) (use b in linarith)+
  have 3: "wrap_i32 (start_tick_index ta - i32_of_u16 sp) = start_tick_index ta - i32_of_u16 sp"
    "wrap_i32 (start_tick_index ta + 88 * i32_of_u16 sp - i32_of_u16 sp) = start_tick_index ta + 88 * i32_of_u16 sp - i32_of_u16 sp"
    by (rule wrap_i32_id; use b in linarith)+
  show ?thesis using 1 2 3 by (auto simp: in_search_range_def Let_def TICK_ARRAY_SIZE_def)
qed

text \<open>\<open>tick_position\<close> finds exactly the usable ticks the array stores, each at its place.\<close>

lemma tick_position_iff:
  assumes "tick_array_valid ta sp"
  shows "tick_position ta i sp = Ok n \<longleftrightarrow>
    n < 88 \<and> i = start_tick_index ta + int n * i32_of_u16 sp \<and> \<bar>i\<bar> \<le> 443636"
proof -
  let ?s = "start_tick_index ta" let ?r = "i32_of_u16 sp"
  note b = tick_array_validD [OF assms]
  have rng: "check_in_array_bounds ta i sp \<longleftrightarrow> ?s \<le> i \<and> i < ?s + 88 * ?r"
    using in_search_range_iff [OF assms, of i False] by (simp add: check_in_array_bounds_def)
  have off: "tick_offset ta i sp = Ok ((i - ?s) div ?r)" if "?s \<le> i" "\<bar>i\<bar> \<le> 443636"
    by (rule tick_offset_eq) (use b that in auto)
  have usable: "check_is_usable_tick i sp = Ok (\<bar>i\<bar> \<le> 443636 \<and> ?r dvd i)"
    using b by (auto simp: check_is_usable_tick_def check_is_out_of_bounds_def checked_rem_def
        MAX_TICK_INDEX_def MIN_TICK_INDEX_def smod_eq_0_iff)
  show ?thesis
  proof
    assume *: "tick_position ta i sp = Ok n"
    then have i: "?s \<le> i" "i < ?s + 88 * ?r" "\<bar>i\<bar> \<le> 443636" "?r dvd i"
      using rng usable by (auto simp: tick_position_def split: if_splits)
    have n: "n = nat ((i - ?s) div ?r)"
      using * i off rng usable by (auto simp: tick_position_def split: if_splits)
    have "?r dvd i - ?s" using i(4) b(5) by (rule dvd_diff)
    then have q: "(i - ?s) div ?r * ?r = i - ?s" by (rule dvd_div_mult_self)
    have 0: "0 \<le> (i - ?s) div ?r" using i b by (simp add: le_div_iff_mult_le_int)
    have "(i - ?s) div ?r < 88" using i b by (subst div_less_iff) auto
    then show "n < 88 \<and> i = ?s + int n * ?r \<and> \<bar>i\<bar> \<le> 443636"
      using n 0 q i by auto
  next
    assume *: "n < 88 \<and> i = ?s + int n * ?r \<and> \<bar>i\<bar> \<le> 443636"
    then have "int n * ?r < 88 * ?r" "0 \<le> int n * ?r" using b by simp_all
    moreover have "?r dvd i" using * b(5) by simp
    ultimately show "tick_position ta i sp = Ok n"
      using * b off rng usable by (auto simp: tick_position_def)
  qed
qed

lemma tick_position_inj:
  assumes "tick_array_valid ta sp" "tick_position ta i sp = Ok n" "tick_position ta j sp = Ok n"
  shows "i = j"
  using assms by (simp add: tick_position_iff)

lemma update_tick_Ok_iff:
  "update_tick ta i sp u = Ok ta' \<longleftrightarrow>
     (\<exists>n. tick_position ta i sp = Ok n \<and> ta' = ta\<lparr>ticks := (ticks ta)[n := u]\<rparr>)"
  by (auto simp: update_tick_def and_then_Inr_iff)

lemma tick_position_same_shape:
  "start_tick_index ta' = start_tick_index ta \<Longrightarrow> length (ticks ta') = length (ticks ta) \<Longrightarrow>
   tick_position ta' i sp = tick_position ta i sp"
  unfolding tick_position_def check_in_array_bounds_def in_search_range_def tick_offset_def by (simp cong: if_cong)

lemma update_tick_valid:
  assumes v: "tick_array_valid ta sp" and u: "update_tick ta i sp u = Ok ta'"
  shows "tick_array_valid ta' sp"
proof -
  obtain n where n: "tick_position ta i sp = Ok n" and ta': "ta' = ta\<lparr>ticks := (ticks ta)[n := u]\<rparr>"
    using u by (auto simp: update_tick_Ok_iff)
  have "i = start_tick_index ta + int n * i32_of_u16 sp" "\<bar>i\<bar> \<le> 443636"
    using n unfolding tick_position_iff [OF v] by blast+
  then have here: "\<bar>start_tick_index ta + int n * i32_of_u16 sp\<bar> \<le> 443636" by simp
  have old: "\<bar>start_tick_index ta + int k * i32_of_u16 sp\<bar> \<le> 443636"
    if "k < length (ticks ta)" "tick_initialized (ticks ta ! k)" for k
    using v that by (simp add: tick_array_valid_def initialized_in_range_iff)
  have "\<bar>start_tick_index ta + int k * i32_of_u16 sp\<bar> \<le> 443636"
    if "k < length (ticks ta)" "tick_initialized ((ticks ta)[n := u] ! k)" for k
    using here old [of k] that by (cases "k = n") simp_all
  then have "initialized_in_range ta' sp" by (simp add: ta' initialized_in_range_iff)
  then show ?thesis using v by (simp add: ta' tick_array_valid_def tick_array_wf_def)
qed

lemma get_update_tick:
  assumes v: "tick_array_valid ta sp" and u: "update_tick ta i sp u = Ok ta'"
  shows "get_tick ta' j sp = (if j = i then Ok u else get_tick ta j sp)"
proof -
  obtain n where n: "tick_position ta i sp = Ok n" and ta': "ta' = ta\<lparr>ticks := (ticks ta)[n := u]\<rparr>"
    using u by (auto simp: update_tick_Ok_iff)
  have p: "tick_position ta' j sp = tick_position ta j sp"
    by (rule tick_position_same_shape) (simp_all add: ta')
  have n88: "n < length (ticks ta)" using n v tick_array_validD(1) [OF v] by (simp add: tick_position_iff)
  show ?thesis
  proof (cases "j = i")
    case True
    then show ?thesis using p n n88 ta' by (simp add: get_tick_def)
  next
    case False
    then have "m \<noteq> n" if "tick_position ta j sp = Ok m" for m
      using that n tick_position_inj [OF v] by blast
    then show ?thesis using p False ta' by (cases "tick_position ta j sp") (auto simp: get_tick_def)
  qed
qed

section \<open>Searching an array for the next initialised tick\<close>

text \<open>\<open>initialized_at ta sp t\<close>: the array stores an initialised tick with index \<open>t\<close>.\<close>

definition initialized_at :: "tick_array \<Rightarrow> u16 \<Rightarrow> i32 \<Rightarrow> bool" where
  "initialized_at ta spacing t \<longleftrightarrow> list_ex (\<lambda>k. t = start_tick_index ta + int k * i32_of_u16 spacing \<and>
     tick_initialized (ticks ta ! k)) [0..<length (ticks ta)]"

lemma initialized_at_iff:
  "initialized_at ta sp t \<longleftrightarrow> (\<exists>k < length (ticks ta).
     t = start_tick_index ta + int k * i32_of_u16 sp \<and> tick_initialized (ticks ta ! k))"
  by (auto simp: initialized_at_def list_ex_iff)

lemma stored_tick_index:
  assumes v: "tick_array_valid ta sp" and k: "k < 88"
  shows "wrap_i32 (wrap_i32 (int k * i32_of_u16 sp) + start_tick_index ta) =
    start_tick_index ta + int k * i32_of_u16 sp"
proof -
  note b = tick_array_validD [OF v]
  have "int k * i32_of_u16 sp \<le> 88 * 65535" "0 \<le> int k * i32_of_u16 sp"
    using mult_mono [of "int k" 88 "i32_of_u16 sp" 65535] k b by simp_all
  moreover from this have "wrap_i32 (int k * i32_of_u16 sp) = int k * i32_of_u16 sp"
    by (intro wrap_i32_id) linarith+
  ultimately show ?thesis using b by (simp only:) (subst wrap_i32_id; linarith)
qed

lemma init_tick_loop_down:
  assumes v: "tick_array_valid ta sp" and "-1 \<le> c" "c < 88"
  shows "\<exists>r. init_tick_loop ta sp True c = Ok r \<and>
    (case r of
       None \<Rightarrow> \<forall>k. int k \<le> c \<longrightarrow> \<not> tick_initialized (ticks ta ! k)
     | Some t \<Rightarrow> \<exists>k. int k \<le> c \<and> tick_initialized (ticks ta ! k) \<and>
         t = start_tick_index ta + int k * i32_of_u16 sp \<and>
         (\<forall>j. k < j \<and> int j \<le> c \<longrightarrow> \<not> tick_initialized (ticks ta ! j)))"
  using assms(2,3)
proof (induction "nat (c + 1)" arbitrary: c)
  case 0
  then have "c = -1" by simp
  then show ?case by (simp add: init_tick_loop.simps)
next
  case (Suc n)
  note b = tick_array_validD [OF v]
  obtain k where k: "c = int k" using Suc.hyps(2) by (intro that [of "nat c"]) simp
  show ?case
  proof (cases "tick_initialized (ticks ta ! k)")
    case True
    have "init_tick_loop ta sp True c = Ok (Some (start_tick_index ta + int k * i32_of_u16 sp))"
      using True k Suc.prems b stored_tick_index [OF v, of k]
      by (subst init_tick_loop.simps) (simp add: TICK_ARRAY_SIZE_def)
    then show ?thesis using True k by auto
  next
    case False
    then have step: "init_tick_loop ta sp True c = init_tick_loop ta sp True (c - 1)"
      using k Suc.prems b by (subst init_tick_loop.simps) (simp add: TICK_ARRAY_SIZE_def)
    have "n = nat (c - 1 + 1)" using Suc.hyps(2) by simp
    from Suc.hyps(1) [OF this] Suc.prems k obtain r where r: "init_tick_loop ta sp True (c - 1) = Ok r"
      "case r of
       None \<Rightarrow> \<forall>k. int k \<le> c - 1 \<longrightarrow> \<not> tick_initialized (ticks ta ! k)
     | Some t \<Rightarrow> \<exists>k. int k \<le> c - 1 \<and> tick_initialized (ticks ta ! k) \<and>
         t = start_tick_index ta + int k * i32_of_u16 sp \<and>
         (\<forall>j. k < j \<and> int j \<le> c - 1 \<longrightarrow> \<not> tick_initialized (ticks ta ! j))" by auto
    have last: "\<not> tick_initialized (ticks ta ! j)" if "int j \<le> c" "\<not> int j \<le> c - 1" for j
    proof -
      have "j = k" using that k by simp
      then show ?thesis using False by simp
    qed
    show ?thesis
    proof (cases r)
      case None
      then have "\<not> tick_initialized (ticks ta ! k)" if "int k \<le> c" for k
        using that r(2) last [of k] by (cases "int k \<le> c - 1") simp_all
      then show ?thesis using r(1) step None by simp
    next
      case (Some t)
      then obtain k' where "int k' \<le> c - 1" "tick_initialized (ticks ta ! k')"
         "t = start_tick_index ta + int k' * i32_of_u16 sp"
         "\<forall>j. k' < j \<and> int j \<le> c - 1 \<longrightarrow> \<not> tick_initialized (ticks ta ! j)" using r by auto
      moreover from this have "\<not> tick_initialized (ticks ta ! j)" if "k' < j" "int j \<le> c" for j
        using that last [of j] by (cases "int j \<le> c - 1") simp_all
      ultimately show ?thesis using r(1) step Some
        by (intro exI [of _ r] conjI) (auto intro!: exI [of _ k'])
    qed
  qed
qed

lemma init_tick_loop_up:
  assumes v: "tick_array_valid ta sp" and "0 \<le> c" "c \<le> 88"
  shows "\<exists>r. init_tick_loop ta sp False c = Ok r \<and>
    (case r of
       None \<Rightarrow> \<forall>k. c \<le> int k \<and> k < 88 \<longrightarrow> \<not> tick_initialized (ticks ta ! k)
     | Some t \<Rightarrow> \<exists>k. c \<le> int k \<and> k < 88 \<and> tick_initialized (ticks ta ! k) \<and>
         t = start_tick_index ta + int k * i32_of_u16 sp \<and>
         (\<forall>j. c \<le> int j \<and> j < k \<longrightarrow> \<not> tick_initialized (ticks ta ! j)))"
  using assms(2,3)
proof (induction "nat (88 - c)" arbitrary: c)
  case 0
  then have "c = 88" by simp
  then show ?case by (auto simp: init_tick_loop.simps TICK_ARRAY_SIZE_def)
next
  case (Suc n)
  note b = tick_array_validD [OF v]
  obtain k where k: "c = int k" using Suc.prems(1) by (rule nonneg_int_cases)
  have k88: "k < 88" using Suc.hyps(2) k by simp
  show ?case
  proof (cases "tick_initialized (ticks ta ! k)")
    case True
    have "init_tick_loop ta sp False c = Ok (Some (start_tick_index ta + int k * i32_of_u16 sp))"
      using True k k88 b stored_tick_index [OF v, of k]
      by (subst init_tick_loop.simps) (simp add: TICK_ARRAY_SIZE_def)
    then show ?thesis using True k k88 by auto
  next
    case False
    then have step: "init_tick_loop ta sp False c = init_tick_loop ta sp False (c + 1)"
      using k k88 b by (subst init_tick_loop.simps) (simp add: TICK_ARRAY_SIZE_def)
    have "n = nat (88 - (c + 1))" using Suc.hyps(2) by simp
    from Suc.hyps(1) [OF this] k k88 obtain r where r: "init_tick_loop ta sp False (c + 1) = Ok r"
      "case r of
       None \<Rightarrow> \<forall>k. c + 1 \<le> int k \<and> k < 88 \<longrightarrow> \<not> tick_initialized (ticks ta ! k)
     | Some t \<Rightarrow> \<exists>k. c + 1 \<le> int k \<and> k < 88 \<and> tick_initialized (ticks ta ! k) \<and>
         t = start_tick_index ta + int k * i32_of_u16 sp \<and>
         (\<forall>j. c + 1 \<le> int j \<and> j < k \<longrightarrow> \<not> tick_initialized (ticks ta ! j))" by auto
    have first: "\<not> tick_initialized (ticks ta ! j)" if "c \<le> int j" "\<not> c + 1 \<le> int j" for j
    proof -
      have "j = k" using that k by simp
      then show ?thesis using False by simp
    qed
    show ?thesis
    proof (cases r)
      case None
      then show ?thesis using r first step by auto
    next
      case (Some t)
      then obtain k' where "c + 1 \<le> int k'" "k' < 88" "tick_initialized (ticks ta ! k')"
         "t = start_tick_index ta + int k' * i32_of_u16 sp"
         "\<forall>j. c + 1 \<le> int j \<and> j < k' \<longrightarrow> \<not> tick_initialized (ticks ta ! j)" using r by auto
      then show ?thesis using r(1) first step Some
        by (intro exI [of _ r] conjI) (auto intro!: exI [of _ k'])
    qed
  qed
qed

text \<open>The offset of the search, and the ticks at or before it.\<close>

lemma tick_offset_search:
  assumes v: "tick_array_valid ta sp" and "in_search_range ta i sp shifted"
  shows "tick_offset ta i sp = Ok ((i - start_tick_index ta) div i32_of_u16 sp)"
    and "(if shifted then -1 else 0) \<le> (i - start_tick_index ta) div i32_of_u16 sp"
    and "(i - start_tick_index ta) div i32_of_u16 sp < (if shifted then 87 else 88)"
    and "start_tick_index ta + int k * i32_of_u16 sp \<le> i \<longleftrightarrow> int k \<le> (i - start_tick_index ta) div i32_of_u16 sp"
proof -
  note b = tick_array_validD [OF v]
  note i = assms(2) [unfolded in_search_range_iff [OF v]]
  show "tick_offset ta i sp = Ok ((i - start_tick_index ta) div i32_of_u16 sp)"
    by (rule tick_offset_eq) (use b i in \<open>auto split: if_splits\<close>)
  show "(if shifted then -1 else 0) \<le> (i - start_tick_index ta) div i32_of_u16 sp"
    using b i by (auto simp: le_div_iff_mult_le_int)
  show "(i - start_tick_index ta) div i32_of_u16 sp < (if shifted then 87 else 88)"
    using b i by (auto simp: div_less_iff)
  show "start_tick_index ta + int k * i32_of_u16 sp \<le> i \<longleftrightarrow> int k \<le> (i - start_tick_index ta) div i32_of_u16 sp"
    using b by (auto simp: le_div_iff_mult_le_int)
qed

lemma initialized_at_usable:
  "tick_array_valid ta sp \<Longrightarrow> initialized_at ta sp t \<Longrightarrow> \<bar>t\<bar> \<le> 443636"
  by (auto simp: tick_array_valid_def initialized_in_range_iff initialized_at_iff)

text \<open>Going down, the search returns the largest initialised tick at or below the start.\<close>

lemma get_next_init_tick_index_down:
  assumes v: "tick_array_valid ta sp" and i: "in_search_range ta i sp False"
  shows "\<exists>r. get_next_init_tick_index ta i sp True = Ok r \<and>
    (case r of
       None \<Rightarrow> \<forall>t. initialized_at ta sp t \<longrightarrow> i < t
     | Some t \<Rightarrow> initialized_at ta sp t \<and> t \<le> i \<and>
         (\<forall>u. initialized_at ta sp u \<and> u \<le> i \<longrightarrow> u \<le> t))"
proof -
  let ?s = "start_tick_index ta" let ?r = "i32_of_u16 sp" let ?c = "(i - ?s) div ?r"
  note b = tick_array_validD [OF v] and o = tick_offset_search [OF v i, simplified]
  obtain r where r: "init_tick_loop ta sp True ?c = Ok r" and
    c: "case r of
       None \<Rightarrow> \<forall>k. int k \<le> ?c \<longrightarrow> \<not> tick_initialized (ticks ta ! k)
     | Some t \<Rightarrow> \<exists>k. int k \<le> ?c \<and> tick_initialized (ticks ta ! k) \<and>
         t = ?s + int k * ?r \<and>
         (\<forall>j. k < j \<and> int j \<le> ?c \<longrightarrow> \<not> tick_initialized (ticks ta ! j))"
    using init_tick_loop_down [OF v, of ?c] o by auto
  have "get_next_init_tick_index ta i sp True = Ok r"
    using i o r by (simp add: get_next_init_tick_index_def)
  moreover have "case r of
       None \<Rightarrow> \<forall>t. initialized_at ta sp t \<longrightarrow> i < t
     | Some t \<Rightarrow> initialized_at ta sp t \<and> t \<le> i \<and>
         (\<forall>u. initialized_at ta sp u \<and> u \<le> i \<longrightarrow> u \<le> t)"
  proof (cases r)
    case None
    have "i < t" if "initialized_at ta sp t" for t
      using that c None o(4) by (fastforce simp: initialized_at_iff simp flip: not_le)
    then show ?thesis using None by simp
  next
    case (Some t)
    then obtain k where k: "int k \<le> ?c" "tick_initialized (ticks ta ! k)" "t = ?s + int k * ?r"
      "\<And>j. k < j \<Longrightarrow> int j \<le> ?c \<Longrightarrow> \<not> tick_initialized (ticks ta ! j)" using c by auto
    have "u \<le> t" if u: "initialized_at ta sp u" "u \<le> i" for u
    proof -
      obtain j where j: "u = ?s + int j * ?r" "tick_initialized (ticks ta ! j)"
        using u by (auto simp: initialized_at_iff)
      then have "int j \<le> ?c" using o(4) [of j] u by simp
      then have "j \<le> k" using j k(4) [of j] by (cases "k < j") auto
      then show ?thesis using j k(3) b by (simp add: mult_right_mono)
    qed
    moreover have "initialized_at ta sp t" "t \<le> i"
      using k o(3) o(4) [of k] b by (auto simp: initialized_at_iff)
    ultimately show ?thesis using Some by simp
  qed
  ultimately show ?thesis by blast
qed

text \<open>Going up, it returns the smallest initialised tick above the start.\<close>

lemma get_next_init_tick_index_up:
  assumes v: "tick_array_valid ta sp" and i: "in_search_range ta i sp True"
  shows "\<exists>r. get_next_init_tick_index ta i sp False = Ok r \<and>
    (case r of
       None \<Rightarrow> \<forall>t. initialized_at ta sp t \<longrightarrow> t \<le> i
     | Some t \<Rightarrow> initialized_at ta sp t \<and> i < t \<and>
         (\<forall>u. initialized_at ta sp u \<and> i < u \<longrightarrow> t \<le> u))"
proof -
  let ?s = "start_tick_index ta" let ?r = "i32_of_u16 sp" let ?c = "(i - ?s) div ?r"
  note b = tick_array_validD [OF v] and o = tick_offset_search [OF v i, simplified]
  have above: "i < ?s + int k * ?r \<longleftrightarrow> ?c + 1 \<le> int k" for k
    using o(4) [of k] by linarith
  obtain r where r: "init_tick_loop ta sp False (?c + 1) = Ok r" and
    c: "case r of
       None \<Rightarrow> \<forall>k. ?c + 1 \<le> int k \<and> k < 88 \<longrightarrow> \<not> tick_initialized (ticks ta ! k)
     | Some t \<Rightarrow> \<exists>k. ?c + 1 \<le> int k \<and> k < 88 \<and> tick_initialized (ticks ta ! k) \<and>
         t = ?s + int k * ?r \<and>
         (\<forall>j. ?c + 1 \<le> int j \<and> j < k \<longrightarrow> \<not> tick_initialized (ticks ta ! j))"
    using init_tick_loop_up [OF v, of "?c + 1"] o by auto
  have "get_next_init_tick_index ta i sp False = Ok r"
    using i o r by (simp add: get_next_init_tick_index_def)
  moreover have "case r of
       None \<Rightarrow> \<forall>t. initialized_at ta sp t \<longrightarrow> t \<le> i
     | Some t \<Rightarrow> initialized_at ta sp t \<and> i < t \<and>
         (\<forall>u. initialized_at ta sp u \<and> i < u \<longrightarrow> t \<le> u)"
  proof (cases r)
    case None
    have "t \<le> i" if t: "initialized_at ta sp t" for t
    proof -
      obtain j where j: "t = ?s + int j * ?r" "tick_initialized (ticks ta ! j)" "j < 88"
        using t b by (auto simp: initialized_at_iff)
      then have "\<not> ?c + 1 \<le> int j" using c None by auto
      then show ?thesis using above [of j] j by simp
    qed
    then show ?thesis using None by simp
  next
    case (Some t)
    then obtain k where k: "?c + 1 \<le> int k" "k < 88" "tick_initialized (ticks ta ! k)" "t = ?s + int k * ?r"
      "\<And>j. ?c + 1 \<le> int j \<Longrightarrow> j < k \<Longrightarrow> \<not> tick_initialized (ticks ta ! j)" using c by auto
    have "t \<le> u" if u: "initialized_at ta sp u" "i < u" for u
    proof -
      obtain j where j: "u = ?s + int j * ?r" "tick_initialized (ticks ta ! j)"
        using u by (auto simp: initialized_at_iff)
      then have "?c + 1 \<le> int j" using above [of j] u by simp
      then have "k \<le> j" using j k(5) [of j] by (cases "j < k") auto
      then show ?thesis using j k(4) b by (simp add: mult_right_mono)
    qed
    moreover have "initialized_at ta sp t" "i < t"
      using k above [of k] b by (auto simp: initialized_at_iff)
    ultimately show ?thesis using Some by simp
  qed
  ultimately show ?thesis by blast
qed

section \<open>The store interface\<close>

text \<open>
  What the liquidity and swap managers rely on: a store that reads back the tick it was given,
  leaves the others alone, and accepts a write exactly where a read succeeds.
\<close>

locale tick_store =
  fixes get :: "'s \<Rightarrow> i32 \<Rightarrow> tick result"
    and upd :: "'s \<Rightarrow> i32 \<Rightarrow> tick_update \<Rightarrow> 's result"
    and valid :: "'s \<Rightarrow> bool"
  assumes upd_valid: "valid s \<Longrightarrow> upd s i t = Ok s' \<Longrightarrow> valid s'"
    and get_upd: "valid s \<Longrightarrow> upd s i t = Ok s' \<Longrightarrow> get s' j = (if j = i then Ok t else get s j)"
    and upd_defined: "valid s \<Longrightarrow> (\<exists>s'. upd s i t = Ok s') \<longleftrightarrow> (\<exists>u. get s i = Ok u)"
begin

lemma get_after_two:
  assumes "valid s" "upd s i t = Ok s1" "upd s1 j u = Ok s2"
  shows "get s2 k = (if k = j then Ok u else if k = i then Ok t else get s k)"
  using get_upd [OF assms(1,2)] get_upd [OF upd_valid [OF assms(1,2)] assms(3)] by simp

lemma upd_defined_after:
  assumes "valid s" "upd s i t = Ok s1"
  shows "(\<exists>s2. upd s1 j u = Ok s2) \<longleftrightarrow> (\<exists>s2. upd s j u = Ok s2)"
  using assms get_upd [OF assms] upd_valid [OF assms] upd_defined by metis

lemma upd_pair_commute:
  assumes v: "valid s" and "i \<noteq> j" and 1: "upd s i t = Ok s1" "upd s1 j u = Ok s2"
  shows "\<exists>s1' s2'. upd s j u = Ok s1' \<and> upd s1' i t = Ok s2' \<and> (\<forall>k. get s2' k = get s2 k)"
proof -
  obtain s1' where s1': "upd s j u = Ok s1'" using 1 v upd_defined_after by blast
  obtain s2' where s2': "upd s1' i t = Ok s2'" using 1 v s1' upd_defined_after by blast
  have "get s2' k = get s2 k" for k
    using get_after_two [OF v 1] get_after_two [OF v s1' s2'] assms(2) by auto
  then show ?thesis using s1' s2' by blast
qed

lemma upd_fails_iff: "valid s \<Longrightarrow> (\<exists>f. upd s i t = Inl f) \<longleftrightarrow> (\<exists>f. get s i = Inl f)"
  using upd_defined [of s i t] by (cases "upd s i t"; cases "get s i") auto

end

interpretation array_store: tick_store "\<lambda>ta i. get_tick ta i sp" "\<lambda>ta i u. update_tick ta i sp u"
    "\<lambda>ta. tick_array_valid ta sp" for sp
proof unfold_locales
  fix s i t
  show "tick_array_valid s sp \<Longrightarrow> (\<exists>s'. update_tick s i sp t = Ok s') = (\<exists>u. get_tick s i sp = Ok u)"
    by (auto simp: update_tick_def get_tick_def and_then_Inr_iff)
qed (simp_all add: update_tick_valid get_update_tick)

lemma default_tick_array_wf: "tick_array_wf default_tick_array"
  by (simp add: tick_array_wf_def default_tick_array_def)

text \<open>\<open>initialize\<close> establishes the invariant.\<close>

lemma tick_array_initialize_valid:
  assumes "tick_array_initialize key p start default_tick_array = Ok ta"
  shows "tick_array_valid ta (tick_spacing p) \<and> start_tick_index ta = start \<and> tick_array_pool ta = key"
proof -
  have sp: "tick_spacing p \<noteq> 0"
    using assms by (auto simp: tick_array_initialize_def check_is_valid_start_tick_def Let_def
        checked_rem_def i32_of_u16_def and_then_Inr_iff split: if_splits)
  then show ?thesis
    using assms default_tick_array_wf
    by (auto simp: tick_array_initialize_def tick_array_valid_def tick_array_wf_def and_then_Inr_iff
        initialized_in_range_iff default_tick_array_def default_tick_def split: if_splits)
qed

section \<open>Properties\<close>

lemma tick_position_refused:
  assumes "tick_array_valid ta sp"
  shows "tick_position ta i sp = Fail TickNotFound \<or> (\<exists>n. tick_position ta i sp = Ok n)"
proof (cases "check_in_array_bounds ta i sp \<and> check_is_usable_tick i sp = Ok True")
  case True
  let ?s = "start_tick_index ta" let ?r = "i32_of_u16 sp"
  note b = tick_array_validD [OF assms]
  have i: "?s \<le> i" "i < ?s + 88 * ?r" "\<bar>i\<bar> \<le> 443636"
    using True in_search_range_iff [OF assms, of i False] by (simp_all add: check_in_array_bounds_def usable_iff)
  have off: "tick_offset ta i sp = Ok ((i - ?s) div ?r)" by (rule tick_offset_eq) (use b i in auto)
  have "0 \<le> (i - ?s) div ?r" using i b by (simp add: le_div_iff_mult_le_int)
  moreover have "(i - ?s) div ?r < 88" using i b by (subst div_less_iff) auto
  ultimately show ?thesis using True off b by (simp add: tick_position_def nat_less_iff)
next
  case False
  then show ?thesis
    using tick_array_validD(2) [OF assms]
    by (auto simp: tick_position_def check_is_usable_tick_def checked_rem_def split: if_splits)
qed

lemma tick_position_defined_iff:
  "tick_array_valid ta sp \<Longrightarrow> (\<exists>n. tick_position ta i sp = Ok n) \<longleftrightarrow>
     \<bar>i\<bar> \<le> 443636 \<and> (\<exists>n < 88. i = start_tick_index ta + int n * i32_of_u16 sp)"
  unfolding tick_position_iff by blast

text \<open>C30: On a valid tick array, a read and a write are both accepted exactly at the ticks within the
  supported range that the array covers, and both refused with \<open>TickNotFound\<close> everywhere else. A write
  leaves the array valid, the tick that was written is read back, and every other read gives what it
  gave before.\<close>

theorem tick_array_get_after_update:
  assumes "tick_array_valid ta spacing"
  shows "if \<bar>i\<bar> \<le> 443636 \<and> (\<exists>n < 88. i = start_tick_index ta + int n * i32_of_u16 spacing)
    then \<exists>u ta'. get_tick ta i spacing = Ok u \<and> update_tick ta i spacing t = Ok ta' \<and>
      tick_array_valid ta' spacing \<and>
      (\<forall>j. get_tick ta' j spacing = (if j = i then Ok t else get_tick ta j spacing))
    else get_tick ta i spacing = Fail TickNotFound \<and> update_tick ta i spacing t = Fail TickNotFound"
proof (cases "\<exists>n. tick_position ta i spacing = Ok n")
  case True
  then obtain n where n: "tick_position ta i spacing = Ok n" by blast
  then have u: "get_tick ta i spacing = Ok (ticks ta ! n)"
    "update_tick ta i spacing t = Ok (ta\<lparr>ticks := (ticks ta)[n := t]\<rparr>)"
    by (simp_all add: get_tick_def update_tick_def)
  show ?thesis
    using True u array_store.upd_valid [OF assms u(2)] array_store.get_upd [OF assms u(2)]
    unfolding tick_position_defined_iff [OF assms] by auto
next
  case False
  then have "tick_position ta i spacing = Fail TickNotFound" using tick_position_refused [OF assms, of i] by blast
  with False show ?thesis
    unfolding tick_position_defined_iff [OF assms] by (simp only: if_False) (simp add: get_tick_def update_tick_def)
qed

definition sample_array :: tick_array where
  "sample_array = default_tick_array\<lparr>start_tick_index := -5632, ticks := (replicate 88 default_tick)
     [3 := default_tick\<lparr>tick_initialized := True, liquidity_gross := 7\<rparr>,
      80 := default_tick\<lparr>tick_initialized := True\<rparr>]\<rparr>"

lemma tick_array_get_after_update_witness:
  "\<exists>ta'. update_tick sample_array (-128) 64 default_tick = Ok ta' \<and>
     get_tick ta' (-128) 64 = Ok default_tick \<and> get_tick ta' (-5440) 64 = get_tick sample_array (-5440) 64 \<and>
     update_tick sample_array 0 64 default_tick = Fail TickNotFound"
proof -
  have v: "tick_array_valid sample_array 64" by code_simp
  have g: "start_tick_index sample_array = -5632" "i32_of_u16 64 = 64" by code_simp+
  have "(-128 :: int) = -5632 + int 86 * 64" by simp
  then have c: "\<exists>n < 88. (-128 :: int) = -5632 + int n * 64" by (intro exI [of _ 86]) simp
  have n: "\<not> (\<exists>n < 88. (0 :: int) = -5632 + int n * 64)" by auto
  show ?thesis
    using tick_array_get_after_update [OF v, of "-128" default_tick] tick_array_get_after_update [OF v, of 0 default_tick] c n
    unfolding g by auto
qed

text \<open>C29: Searching a valid array from a tick in its search range never fails. Towards lower
  prices it returns the greatest initialised tick at or below the start, towards higher prices
  the least one above it, and nothing exactly when there is none. Outside the range the search
  is refused.\<close>

theorem next_initialized_tick_correct:
  assumes "tick_array_valid ta spacing"
  shows "if in_search_range ta i spacing (\<not> a_to_b)
    then \<exists>r. get_next_init_tick_index ta i spacing a_to_b = Ok r \<and>
      (let candidate = (\<lambda>t. initialized_at ta spacing t \<and> (if a_to_b then t \<le> i else i < t)) in
       case r of
         None \<Rightarrow> \<not> (\<exists>t. candidate t)
       | Some t \<Rightarrow> candidate t \<and> (\<forall>u. candidate u \<longrightarrow> (if a_to_b then u \<le> t else t \<le> u)))
    else get_next_init_tick_index ta i spacing a_to_b = Fail InvalidTickArraySequence"
proof (cases "in_search_range ta i spacing (\<not> a_to_b)")
  case True
  show ?thesis
  proof (cases a_to_b)
    case True
    then show ?thesis
      using get_next_init_tick_index_down [OF assms, of i] \<open>in_search_range ta i spacing (\<not> a_to_b)\<close>
      by (fastforce split: option.splits)
  next
    case False
    then show ?thesis
      using get_next_init_tick_index_up [OF assms, of i] \<open>in_search_range ta i spacing (\<not> a_to_b)\<close>
      by (fastforce split: option.splits)
  qed
qed (simp add: get_next_init_tick_index_def)

lemma next_initialized_tick_correct_witness:
  "\<exists>t. get_next_init_tick_index sample_array (-600) 64 True = Ok (Some t) \<and>
     initialized_at sample_array 64 t \<and> t \<le> -600"
proof -
  have v: "tick_array_valid sample_array 64" by code_simp
  have r: "in_search_range sample_array (-600) 64 (\<not> True)" by code_simp
  have g: "get_next_init_tick_index sample_array (-600) 64 True = Ok (Some (-5440))" by code_simp
  from next_initialized_tick_correct [OF v, of "-600" True] r g show ?thesis by (simp add: Let_def)
qed

text \<open>A start index that passes \<open>check_is_valid_start_tick\<close> is a multiple of the ticks in an
  array, so initialised arrays never overlap, and \<open>initialize\<close> stores the start and the pool and
  establishes the invariant of the array.\<close>

theorem tick_array_initialize_establishes:
  assumes "tick_array_initialize pool_key p start default_tick_array = Ok ta"
  shows "tick_array_valid ta (tick_spacing p) \<and> start_tick_index ta = start \<and> tick_array_pool ta = pool_key \<and>
    88 * i32_of_u16 (tick_spacing p) dvd start"
proof -
  note v = tick_array_initialize_valid [OF assms]
  then show ?thesis
    using valid_start_tickD(1) [of start "tick_spacing p"] by (auto simp: tick_array_valid_def)
qed

lemma tick_array_initialize_establishes_witness:
  "\<exists>ta. tick_array_initialize 5 (default_pool\<lparr>tick_spacing := 8\<rparr>) (-1408) default_tick_array = Ok ta \<and>
     tick_array_valid ta 8"
proof -
  have "is_ok (tick_array_initialize 5 (default_pool\<lparr>tick_spacing := 8\<rparr>) (-1408) default_tick_array)" by code_simp
  then show ?thesis using tick_array_initialize_establishes unfolding is_ok_iff by fastforce
qed

end
