(* ===== verification/Position_State.thy ===== *)
theory Position_State
  imports Tick_State
begin

text \<open>
  Positions (\<^verbatim>\<open>state/position.rs\<close>) and bundles of up to 256 positions with a bitmap of the
  open ones (\<^verbatim>\<open>state/position_bundle.rs\<close>).
\<close>

section \<open>Positions\<close>

record position_reward_info =
  growth_inside_checkpoint :: u128
  amount_owed :: u64

record position_update =
  upd_position_liquidity :: u128
  upd_fee_growth_checkpoint_a :: u128
  upd_fee_owed_a :: u64
  upd_fee_growth_checkpoint_b :: u128
  upd_fee_owed_b :: u64
  upd_position_reward_infos :: "position_reward_info arr3"

record position =
  position_pool :: pubkey
  position_mint :: pubkey
  position_liquidity :: u128
  tick_lower_index :: i32
  tick_upper_index :: i32
  fee_growth_checkpoint_a :: u128
  fee_owed_a :: u64
  fee_growth_checkpoint_b :: u128
  fee_owed_b :: u64
  position_reward_infos :: "position_reward_info arr3"

definition default_position :: position where
  "default_position = \<lparr>position_pool = 0, position_mint = 0, position_liquidity = 0,
     tick_lower_index = 0, tick_upper_index = 0, fee_growth_checkpoint_a = 0, fee_owed_a = 0,
     fee_growth_checkpoint_b = 0, fee_owed_b = 0,
     position_reward_infos = arr_const \<lparr>growth_inside_checkpoint = 0, amount_owed = 0\<rparr>\<rparr>"

definition is_position_empty :: "position \<Rightarrow> bool" where
  "is_position_empty p =
     (let fees_not_owed = (fee_owed_a p = 0 \<and> fee_owed_b p = 0);
          rewards_not_owed = list_all (\<lambda>r. amount_owed r = 0) (arr_list (position_reward_infos p))
      in position_liquidity p = 0 \<and> fees_not_owed \<and> rewards_not_owed)"

definition position_apply_update :: "position_update \<Rightarrow> position \<Rightarrow> position" where
  "position_apply_update u self = self\<lparr>
     position_liquidity := upd_position_liquidity u,
     fee_growth_checkpoint_a := upd_fee_growth_checkpoint_a u,
     fee_growth_checkpoint_b := upd_fee_growth_checkpoint_b u,
     fee_owed_a := upd_fee_owed_a u,
     fee_owed_b := upd_fee_owed_b u,
     position_reward_infos := upd_position_reward_infos u\<rparr>"

definition open_position :: "pubkey \<Rightarrow> pool \<Rightarrow> pubkey \<Rightarrow> i32 \<Rightarrow> i32 \<Rightarrow> position \<Rightarrow> position result" where
  "open_position pool_key p mint lower upper self =
     and_then (check_is_usable_tick lower (tick_spacing p)) (\<lambda>lower_usable.
     if \<not> lower_usable then Fail InvalidTickIndex
     else
       and_then (check_is_usable_tick upper (tick_spacing p)) (\<lambda>upper_usable.
       if \<not> upper_usable \<or> lower \<ge> upper then Fail InvalidTickIndex
       else Ok (self\<lparr>position_pool := pool_key, position_mint := mint,
                     tick_lower_index := lower, tick_upper_index := upper\<rparr>)))"

definition reset_fees_owed :: "position \<Rightarrow> position" where
  "reset_fees_owed self = self\<lparr>fee_owed_a := 0, fee_owed_b := 0\<rparr>"

definition update_reward_owed :: "nat \<Rightarrow> u64 \<Rightarrow> position \<Rightarrow> position result" where
  "update_reward_owed index owed self =
     and_then (arr_get (position_reward_infos self) index) (\<lambda>r.
     and_then (arr_set (position_reward_infos self) index (r\<lparr>amount_owed := owed\<rparr>)) (\<lambda>infos.
     Ok (self\<lparr>position_reward_infos := infos\<rparr>)))"

section \<open>Position bundles\<close>

definition POSITION_BITMAP_USIZE :: nat where
  "POSITION_BITMAP_USIZE = 32"

definition POSITION_BUNDLE_SIZE :: u16 where
  "POSITION_BUNDLE_SIZE = 256"

text \<open>The bitmap is a list of 32 bytes (\<open>bundle_wf\<close> below).\<close>

record position_bundle =
  position_bundle_mint :: pubkey
  position_bitmap :: "u8 list"

definition default_bundle :: position_bundle where
  "default_bundle = \<lparr>position_bundle_mint = 0, position_bitmap = replicate POSITION_BITMAP_USIZE 0\<rparr>"

definition bundle_initialize :: "pubkey \<Rightarrow> position_bundle \<Rightarrow> position_bundle" where
  "bundle_initialize mint self = self\<lparr>position_bundle_mint := mint\<rparr>"

definition is_deletable :: "position_bundle \<Rightarrow> bool" where
  "is_deletable self = list_all (\<lambda>bitmap. bitmap = 0) (position_bitmap self)"

definition is_valid_bundle_index :: "u16 \<Rightarrow> bool" where
  "is_valid_bundle_index bundle_index \<longleftrightarrow> bundle_index < POSITION_BUNDLE_SIZE"

definition update_bitmap :: "u16 \<Rightarrow> bool \<Rightarrow> position_bundle \<Rightarrow> position_bundle result" where
  "update_bitmap bundle_index open_it self =
     (if \<not> is_valid_bundle_index bundle_index then Fail InvalidBundleIndex
      else
        let bitmap_index = unat (bundle_index div 8); bitmap_offset = unat (bundle_index mod 8) in
        if bitmap_index \<ge> length (position_bitmap self) then Inl Panic
        else
          let bitmap = position_bitmap self ! bitmap_index;
              mask = push_bit bitmap_offset 1;
              opened = (bitmap AND mask \<noteq> 0)
          in if open_it \<and> opened then Fail BundledPositionAlreadyOpened
             else if \<not> open_it \<and> \<not> opened then Fail BundledPositionAlreadyClosed
             else Ok (self\<lparr>position_bitmap := (position_bitmap self)[bitmap_index := bitmap XOR mask]\<rparr>))"

definition open_bundled_position :: "u16 \<Rightarrow> position_bundle \<Rightarrow> position_bundle result" where
  "open_bundled_position bundle_index self = update_bitmap bundle_index True self"

definition close_bundled_position :: "u16 \<Rightarrow> position_bundle \<Rightarrow> position_bundle result" where
  "close_bundled_position bundle_index self = update_bitmap bundle_index False self"

section \<open>The bitmap of a bundle as a set of slots\<close>

text \<open>
  The bitmap as a set: \<open>open_slots b\<close> holds the bundle indices whose bit is set.
\<close>

definition bundle_wf :: "position_bundle \<Rightarrow> bool" where
  "bundle_wf b \<longleftrightarrow> length (position_bitmap b) = POSITION_BITMAP_USIZE"

definition slot_open :: "position_bundle \<Rightarrow> nat \<Rightarrow> bool" where
  "slot_open b i \<longleftrightarrow> i < 256 \<and> bit (position_bitmap b ! (i div 8)) (i mod 8)"

definition open_slots :: "position_bundle \<Rightarrow> nat set" where
  "open_slots b = set (filter (slot_open b) [0..<256])"

lemma open_slots_iff: "i \<in> open_slots b \<longleftrightarrow> slot_open b i"
  by (auto simp: open_slots_def slot_open_def)

lemma and_single_bit_eq_0: "(w::u8) AND 2 ^ k = 0 \<longleftrightarrow> \<not> (k < 8 \<and> bit w k)"
proof -
  have "bit (w AND 2 ^ k) n \<longleftrightarrow> n = k \<and> k < 8 \<and> bit w k" for n
    by (auto simp: bit_and_iff bit_exp_iff dest: bit_imp_le_length)
  then show ?thesis by (metis bit_0_eq bit_eqI bot_apply bot_bool_def)
qed

lemma bit_xor_single: "bit ((w::u8) XOR 2 ^ k) j \<longleftrightarrow> (if j = k \<and> k < 8 then \<not> bit w j else bit w j)"
  by (auto simp: bit_xor_iff bit_exp_iff dest: bit_imp_le_length)

lemma update_bitmap_eq:
  assumes "bundle_wf b"
  shows "update_bitmap i open_it b =
    (if \<not> unat i < 256 then Fail InvalidBundleIndex
     else if open_it \<and> slot_open b (unat i) then Fail BundledPositionAlreadyOpened
     else if \<not> open_it \<and> \<not> slot_open b (unat i) then Fail BundledPositionAlreadyClosed
     else Ok (b\<lparr>position_bitmap := (position_bitmap b)[unat i div 8 :=
            position_bitmap b ! (unat i div 8) XOR push_bit (unat i mod 8) 1]\<rparr>))"
proof -
  have "unat (i div 8) = unat i div 8" "unat (i mod 8) = unat i mod 8"
    by (simp_all add: unat_div unat_mod)
  moreover have "is_valid_bundle_index i \<longleftrightarrow> unat i < 256"
    by (simp add: is_valid_bundle_index_def POSITION_BUNDLE_SIZE_def word_less_nat_alt)
  moreover have "\<not> 32 \<le> unat i div 8" if "unat i < 256" using that by simp
  ultimately show ?thesis
    using assms by (simp add: update_bitmap_def Let_def bundle_wf_def slot_open_def
        POSITION_BITMAP_USIZE_def and_single_bit_eq_0)
qed

lemma update_bitmap_slots:
  assumes wf: "bundle_wf b" and u: "update_bitmap i open_it b = Ok b'"
  shows "open_slots b' = (if open_it then insert (unat i) (open_slots b) else open_slots b - {unat i})"
    and "bundle_wf b'"
    and "position_bundle_mint b' = position_bundle_mint b"
proof -
  let ?i = "unat i"
  have i: "?i < 256" and o: "slot_open b ?i \<longleftrightarrow> \<not> open_it" and
    b': "b' = b\<lparr>position_bitmap := (position_bitmap b)[?i div 8 :=
            position_bitmap b ! (?i div 8) XOR push_bit (?i mod 8) 1]\<rparr>"
    using u by (auto simp: update_bitmap_eq [OF wf] split: if_splits)
  have d: "?i div 8 < 32" using i by simp
  have l: "length (position_bitmap b) = 32" using wf by (simp add: bundle_wf_def POSITION_BITMAP_USIZE_def)
  have "slot_open b' j \<longleftrightarrow> (if j = ?i then open_it else slot_open b j)" for j
  proof (cases "j div 8 = ?i div 8")
    case True
    then have "j mod 8 = ?i mod 8 \<longleftrightarrow> j = ?i" by (metis div_mult_mod_eq)
    then show ?thesis using True i o d l by (auto simp: slot_open_def b' bit_xor_single)
  next
    case False
    then show ?thesis by (auto simp: slot_open_def b')
  qed
  then show "open_slots b' = (if open_it then insert ?i (open_slots b) else open_slots b - {?i})"
    by (auto simp: open_slots_iff split: if_splits)
  show "bundle_wf b'" using wf by (simp add: b' bundle_wf_def)
  show "position_bundle_mint b' = position_bundle_mint b" by (simp add: b')
qed

lemma is_deletable_iff:
  assumes "bundle_wf b"
  shows "is_deletable b \<longleftrightarrow> open_slots b = {}"
proof
  assume "is_deletable b"
  then have "position_bitmap b ! k = 0" if "k < 32" for k
    using that assms by (simp add: is_deletable_def bundle_wf_def POSITION_BITMAP_USIZE_def list_all_length)
  then have "\<not> slot_open b j" for j by (auto simp: slot_open_def)
  then show "open_slots b = {}" by (simp add: open_slots_def)
next
  assume e: "open_slots b = {}"
  have "position_bitmap b ! k = 0" if k: "k < 32" for k
  proof (rule bit_eqI)
    fix n assume "possible_bit TYPE(u8) n"
    then have "n < 8" by simp
    then have *: "(8 * k + n) div 8 = k" "(8 * k + n) mod 8 = n" "8 * k + n < 256" using k by auto
    have "\<not> slot_open b (8 * k + n)" using e by (auto simp flip: open_slots_iff)
    then show "bit (position_bitmap b ! k) n \<longleftrightarrow> bit (0::u8) n" using * by (simp add: slot_open_def)
  qed
  then show "is_deletable b"
    using assms by (simp add: is_deletable_def bundle_wf_def POSITION_BITMAP_USIZE_def list_all_length)
qed

lemma open_slots_initial: "open_slots (bundle_initialize mint default_bundle) = {}"
  "bundle_wf (bundle_initialize mint default_bundle)"
proof -
  show wf: "bundle_wf (bundle_initialize mint default_bundle)"
    by (simp add: bundle_wf_def bundle_initialize_def default_bundle_def)
  show "open_slots (bundle_initialize mint default_bundle) = {}"
    by (subst is_deletable_iff [OF wf, symmetric])
      (simp add: is_deletable_def bundle_initialize_def default_bundle_def list_all_length)
qed

text \<open>
  The contract of a set of slots that open and close one at a time, and what follows for a
  client: no slot is opened or closed twice in a row, and closing undoes opening.
\<close>

locale slot_set =
  fixes slots :: "'s \<Rightarrow> nat set" and opn :: "nat \<Rightarrow> 's \<Rightarrow> 's result" and cls :: "nat \<Rightarrow> 's \<Rightarrow> 's result"
    and valid :: "'s \<Rightarrow> bool" and cap :: nat
  assumes opn_ok: "valid s \<Longrightarrow> (\<exists>s'. opn i s = Ok s') \<longleftrightarrow> i < cap \<and> i \<notin> slots s"
    and cls_ok: "valid s \<Longrightarrow> (\<exists>s'. cls i s = Ok s') \<longleftrightarrow> i < cap \<and> i \<in> slots s"
    and opn_slots: "valid s \<Longrightarrow> opn i s = Ok s' \<Longrightarrow> valid s' \<and> slots s' = insert i (slots s)"
    and cls_slots: "valid s \<Longrightarrow> cls i s = Ok s' \<Longrightarrow> valid s' \<and> slots s' = slots s - {i}"
begin

lemma no_double_open: "valid s \<Longrightarrow> opn i s = Ok s' \<Longrightarrow> opn i s' \<noteq> Ok s''"
  using opn_ok [of s' i] opn_slots [of s i s'] by auto

lemma no_double_close: "valid s \<Longrightarrow> cls i s = Ok s' \<Longrightarrow> cls i s' \<noteq> Ok s''"
  using cls_ok [of s' i] cls_slots [of s i s'] by auto

lemma close_after_open:
  assumes "valid s" "opn i s = Ok s'"
  shows "\<exists>s''. cls i s' = Ok s'' \<and> slots s'' = slots s"
proof -
  have i: "i < cap" "i \<notin> slots s" using opn_ok [of s i] assms by auto
  have s': "valid s'" "slots s' = insert i (slots s)" using opn_slots assms by auto
  then obtain s'' where "cls i s' = Ok s''" using cls_ok [of s' i] i by auto
  then show ?thesis using cls_slots [of s' i s''] s' i by auto
qed

end

interpretation bundle_slots: slot_set open_slots
    "\<lambda>i b. if i < 65536 then open_bundled_position (of_nat i) b else Fail InvalidBundleIndex"
    "\<lambda>i b. if i < 65536 then close_bundled_position (of_nat i) b else Fail InvalidBundleIndex"
    bundle_wf "256"
proof unfold_locales
  fix b :: position_bundle and i :: nat and b'
  assume wf: "bundle_wf b"
  have u: "unat (of_nat i :: u16) = i" if "i < 65536" using that by (simp add: unat_of_nat take_bit_nat_eq_self)
  show "(\<exists>s'. (if i < 65536 then open_bundled_position (of_nat i) b else Fail InvalidBundleIndex) = Ok s')
      \<longleftrightarrow> i < 256 \<and> i \<notin> open_slots b"
    using u by (auto simp: open_bundled_position_def update_bitmap_eq [OF wf] open_slots_iff)
  show "(\<exists>s'. (if i < 65536 then close_bundled_position (of_nat i) b else Fail InvalidBundleIndex) = Ok s')
      \<longleftrightarrow> i < 256 \<and> i \<in> open_slots b"
    using u by (auto simp: close_bundled_position_def update_bitmap_eq [OF wf] open_slots_iff)
  show "bundle_wf b' \<and> open_slots b' = insert i (open_slots b)"
    if "(if i < 65536 then open_bundled_position (of_nat i) b else Fail InvalidBundleIndex) = Ok b'"
    using that u update_bitmap_slots [OF wf, of "of_nat i" True b']
    by (auto simp: open_bundled_position_def split: if_splits)
  show "bundle_wf b' \<and> open_slots b' = open_slots b - {i}"
    if "(if i < 65536 then close_bundled_position (of_nat i) b else Fail InvalidBundleIndex) = Ok b'"
    using that u update_bitmap_slots [OF wf, of "of_nat i" False b']
    by (auto simp: close_bundled_position_def split: if_splits)
qed

section \<open>Opening a position\<close>

lemma open_position_eq:
  assumes "tick_spacing p \<noteq> 0"
  shows "open_position pool_key p mint lower upper pos =
    (if \<bar>lower\<bar> \<le> 443636 \<and> \<bar>upper\<bar> \<le> 443636 \<and> i32_of_u16 (tick_spacing p) dvd lower \<and>
        i32_of_u16 (tick_spacing p) dvd upper \<and> lower < upper
     then Ok (pos\<lparr>position_pool := pool_key, position_mint := mint,
                  tick_lower_index := lower, tick_upper_index := upper\<rparr>)
     else Fail InvalidTickIndex)"
proof -
  have u: "check_is_usable_tick i (tick_spacing p) = Ok (\<bar>i\<bar> \<le> 443636 \<and> i32_of_u16 (tick_spacing p) dvd i)" for i
    using assms by (auto simp: check_is_usable_tick_def check_is_out_of_bounds_def checked_rem_def
        MAX_TICK_INDEX_def MIN_TICK_INDEX_def i32_of_u16_bounds smod_eq_0_iff)
  show ?thesis by (auto simp: open_position_def u)
qed

text \<open>The range of a position is one of its pool.\<close>

definition position_range_ok :: "pool \<Rightarrow> position \<Rightarrow> bool" where
  "position_range_ok p pos \<longleftrightarrow> tick_spacing p \<noteq> 0 \<and>
     \<bar>tick_lower_index pos\<bar> \<le> 443636 \<and> \<bar>tick_upper_index pos\<bar> \<le> 443636 \<and>
     i32_of_u16 (tick_spacing p) dvd tick_lower_index pos \<and>
     i32_of_u16 (tick_spacing p) dvd tick_upper_index pos \<and> tick_lower_index pos < tick_upper_index pos"

lemma open_position_OkD:
  assumes "open_position pk p mint lower upper pos = Ok pos'"
  shows "position_range_ok p pos'" "position_pool pos' = pk" "position_mint pos' = mint"
    "position_liquidity pos' = position_liquidity pos"
proof -
  have "tick_spacing p \<noteq> 0"
    using assms
    by (auto simp: open_position_def check_is_usable_tick_def checked_rem_def i32_of_u16_def and_then_Inr_iff
        split: if_splits)
  from open_position_eq [OF this, of pk mint lower upper pos] this show
    "position_range_ok p pos'" "position_pool pos' = pk" "position_mint pos' = mint"
    "position_liquidity pos' = position_liquidity pos"
    using assms by (auto simp: position_range_ok_def split: if_splits)
qed

section \<open>Properties\<close>

text \<open>C40: The bitmap of a bundle implements a set of the slots below 256: opening adds a slot that is
  not in the set, closing removes one that is, both refuse otherwise with the error that says
  why, and a bundle is deletable exactly when the set is empty.\<close>

theorem bundle_bitmap_refines_set:
  assumes "bundle_wf b"
  shows "(let i = unat index in
      case open_bundled_position index b of
        Inr b' \<Rightarrow> i < 256 \<and> i \<notin> open_slots b \<and> open_slots b' = insert i (open_slots b) \<and> bundle_wf b'
      | Inl f \<Rightarrow> f = (if i < 256 then Err BundledPositionAlreadyOpened else Err InvalidBundleIndex) \<and>
          (i < 256 \<longleftrightarrow> i \<in> open_slots b)) \<and>
    (let i = unat index in
      case close_bundled_position index b of
        Inr b' \<Rightarrow> i \<in> open_slots b \<and> open_slots b' = open_slots b - {i} \<and> bundle_wf b'
      | Inl f \<Rightarrow> f = (if i < 256 then Err BundledPositionAlreadyClosed else Err InvalidBundleIndex) \<and>
          i \<notin> open_slots b) \<and>
    (is_deletable b \<longleftrightarrow> open_slots b = {})"
proof -
  have slot: "slot_open b (unat index) \<Longrightarrow> unat index < 256" by (simp add: slot_open_def)
  note eq = update_bitmap_eq [OF assms, of index]
  note upd = update_bitmap_slots [OF assms, of index]
  have "let i = unat index in
      case open_bundled_position index b of
        Inr b' \<Rightarrow> i < 256 \<and> i \<notin> open_slots b \<and> open_slots b' = insert i (open_slots b) \<and> bundle_wf b'
      | Inl f \<Rightarrow> f = (if i < 256 then Err BundledPositionAlreadyOpened else Err InvalidBundleIndex) \<and>
          (i < 256 \<longleftrightarrow> i \<in> open_slots b)"
  proof (cases "update_bitmap index True b")
    case (Inl f)
    then show ?thesis using eq [of True] slot
      by (auto simp: open_bundled_position_def open_slots_iff split: if_splits)
  next
    case (Inr b')
    then show ?thesis using eq [of True] upd(1,2) [OF Inr] slot
      by (auto simp: open_bundled_position_def open_slots_iff split: if_splits)
  qed
  moreover have "let i = unat index in
      case close_bundled_position index b of
        Inr b' \<Rightarrow> i \<in> open_slots b \<and> open_slots b' = open_slots b - {i} \<and> bundle_wf b'
      | Inl f \<Rightarrow> f = (if i < 256 then Err BundledPositionAlreadyClosed else Err InvalidBundleIndex) \<and>
          i \<notin> open_slots b"
  proof (cases "update_bitmap index False b")
    case (Inl f)
    then show ?thesis using eq [of False] slot
      by (auto simp: close_bundled_position_def open_slots_iff split: if_splits)
  next
    case (Inr b')
    then show ?thesis using eq [of False] upd(1,2) [OF Inr] slot
      by (auto simp: close_bundled_position_def open_slots_iff split: if_splits)
  qed
  ultimately show ?thesis using is_deletable_iff [OF assms] by blast
qed

lemma bundle_bitmap_refines_set_witness:
  "\<exists>b'. open_bundled_position 200 (bundle_initialize 1 default_bundle) = Ok b' \<and> open_slots b' = {200}"
proof -
  have "is_ok (open_bundled_position 200 (bundle_initialize 1 default_bundle))" by code_simp
  then show ?thesis
    using bundle_bitmap_refines_set [OF open_slots_initial(2), of 200 1] open_slots_initial(1) [of 1]
    by (auto simp: is_ok_iff Let_def)
qed

text \<open>A slot that was opened cannot be opened again, one that was closed cannot be closed again,
  and closing a slot right after opening it gives back the set of open slots.\<close>

lemma bundle_slot_exclusive:
  assumes "bundle_wf b" "i < 256" "open_bundled_position (of_nat i) b = Ok b'"
  shows "open_bundled_position (of_nat i) b' = Fail BundledPositionAlreadyOpened \<and>
    (\<exists>b''. close_bundled_position (of_nat i) b' = Ok b'' \<and> open_slots b'' = open_slots b \<and>
       close_bundled_position (of_nat i) b'' = Fail BundledPositionAlreadyClosed)"
proof -
  have u: "unat (of_nat i :: u16) = i" using assms(2) by (simp add: unat_of_nat)
  have 1: "bundle_wf b'" "open_slots b' = insert i (open_slots b)"
    using update_bitmap_slots [OF assms(1) assms(3) [unfolded open_bundled_position_def]] u by auto
  obtain b'' where 2: "close_bundled_position (of_nat i) b' = Ok b''" "open_slots b'' = open_slots b"
    using bundle_slots.close_after_open [OF assms(1), of i b'] assms(2,3) by auto
  have 3: "bundle_wf b''" "i \<notin> open_slots b''"
    using bundle_slots.cls_slots [OF 1(1), of i b''] 2(1) assms(2) by auto
  show ?thesis
    using 1 2 3 u assms(2)
    by (auto simp: open_bundled_position_def close_bundled_position_def update_bitmap_eq open_slots_iff)
qed

text \<open>A position opens exactly at two usable ticks of the pool in increasing order; all other
  ranges are refused with \<open>InvalidTickIndex\<close>.\<close>

lemma open_position_correct:
  assumes "tick_spacing p \<noteq> 0"
  shows "open_position pool_key p mint lower upper pos =
    (if \<bar>lower\<bar> \<le> 443636 \<and> \<bar>upper\<bar> \<le> 443636 \<and> i32_of_u16 (tick_spacing p) dvd lower \<and>
        i32_of_u16 (tick_spacing p) dvd upper \<and> lower < upper
     then Ok (pos\<lparr>position_pool := pool_key, position_mint := mint,
                  tick_lower_index := lower, tick_upper_index := upper\<rparr>)
     else Fail InvalidTickIndex)"
  using assms by (rule open_position_eq)

lemma open_position_correct_witness:
  "open_position 1 (default_pool\<lparr>tick_spacing := 64\<rparr>) 2 128 64 default_position = Fail InvalidTickIndex"
  using open_position_correct [of "default_pool\<lparr>tick_spacing := 64\<rparr>" 1 2 128 64 default_position] by simp

end
