(* ===== verification/Managers.thy ===== *)
theory Managers
  imports Position_State
begin

text \<open>
  The pure update functions of \<^verbatim>\<open>manager/tick_manager.rs\<close>, \<^verbatim>\<open>manager/pool_manager.rs\<close> and
  \<^verbatim>\<open>manager/position_manager.rs\<close>: how growth accumulators, ticks, the pool liquidity and a
  position change. Accumulators wrap around (\<open>wrapping_sub\<close>, \<open>wrapping_add\<close>), which is what
  \<open>+\<close> and \<open>-\<close> on words do.
\<close>

section \<open>Ticks\<close>

definition next_tick_cross_update ::
  "tick \<Rightarrow> u128 \<Rightarrow> u128 \<Rightarrow> pool_reward_info arr3 \<Rightarrow> tick_update result" where
  "next_tick_cross_update t growth_a growth_b infos =
     (let upd = tick_update_from t in
      Ok (upd\<lparr>fee_growth_outside_a := growth_a - fee_growth_outside_a t,
              fee_growth_outside_b := growth_b - fee_growth_outside_b t,
              reward_growths_outside :=
                arr_zip (\<lambda>info outside. if \<not> reward_initialized info then outside
                                        else growth_global_x64 info - outside)
                  infos (reward_growths_outside t)\<rparr>))"

definition next_tick_modify_liquidity_update ::
  "tick \<Rightarrow> i32 \<Rightarrow> i32 \<Rightarrow> u128 \<Rightarrow> u128 \<Rightarrow> pool_reward_info arr3 \<Rightarrow> i128 \<Rightarrow> bool \<Rightarrow> tick_update result" where
  "next_tick_modify_liquidity_update t tick_index tick_current growth_a growth_b infos
     liquidity_delta is_upper_tick =
     (if liquidity_delta = 0 then Ok (tick_update_from t)
      else
        and_then (add_liquidity_delta (liquidity_gross t) liquidity_delta) (\<lambda>gross.
        if gross = 0 then Ok default_tick
        else
          let (outside_a, outside_b, rewards_outside) =
                (if liquidity_gross t = 0 then
                   if tick_current \<ge> tick_index then (growth_a, growth_b, to_reward_growths infos)
                   else (0, 0, arr_const 0)
                 else (fee_growth_outside_a t, fee_growth_outside_b t, reward_growths_outside t))
          in
          and_then (if is_upper_tick
              then ok_or (checked_signed 128 (liquidity_net t - liquidity_delta)) LiquidityNetError
              else ok_or (checked_signed 128 (liquidity_net t + liquidity_delta)) LiquidityNetError)
            (\<lambda>net.
          Ok \<lparr>tick_initialized = True, liquidity_net = net, liquidity_gross = gross,
              fee_growth_outside_a = outside_a, fee_growth_outside_b = outside_b,
              reward_growths_outside = rewards_outside\<rparr>)))"

definition next_fee_growths_inside ::
  "i32 \<Rightarrow> tick \<Rightarrow> i32 \<Rightarrow> tick \<Rightarrow> i32 \<Rightarrow> u128 \<Rightarrow> u128 \<Rightarrow> u128 \<times> u128" where
  "next_fee_growths_inside tick_current lower lower_index upper upper_index global_a global_b =
     (let (below_a, below_b) =
            (if \<not> tick_initialized lower then (global_a, global_b)
             else if tick_current < lower_index then
               (global_a - fee_growth_outside_a lower, global_b - fee_growth_outside_b lower)
             else (fee_growth_outside_a lower, fee_growth_outside_b lower));
          (above_a, above_b) =
            (if \<not> tick_initialized upper then (0, 0)
             else if tick_current < upper_index then
               (fee_growth_outside_a upper, fee_growth_outside_b upper)
             else (global_a - fee_growth_outside_a upper, global_b - fee_growth_outside_b upper))
      in (global_a - below_a - above_a, global_b - below_b - above_b))"

text \<open>One round of the loop over the rewards.\<close>

definition reward_growth_inside ::
  "i32 \<Rightarrow> bool \<Rightarrow> i32 \<Rightarrow> bool \<Rightarrow> i32 \<Rightarrow> pool_reward_info \<Rightarrow> u128 \<Rightarrow> u128 \<Rightarrow> u128" where
  "reward_growth_inside tick_current lower_init lower_index upper_init upper_index info
     lower_outside upper_outside =
     (if \<not> reward_initialized info then 0
      else
        let below = (if \<not> lower_init then growth_global_x64 info
                     else if tick_current < lower_index then growth_global_x64 info - lower_outside
                     else lower_outside);
            above = (if \<not> upper_init then 0
                     else if tick_current < upper_index then upper_outside
                     else growth_global_x64 info - upper_outside)
        in growth_global_x64 info - below - above)"

definition next_reward_growths_inside ::
  "i32 \<Rightarrow> tick \<Rightarrow> i32 \<Rightarrow> tick \<Rightarrow> i32 \<Rightarrow> pool_reward_info arr3 \<Rightarrow> u128 arr3" where
  "next_reward_growths_inside tick_current lower lower_index upper upper_index infos =
     arr_zip (\<lambda>f x. f x)
       (arr_zip (reward_growth_inside tick_current (tick_initialized lower) lower_index
                   (tick_initialized upper) upper_index)
          infos (reward_growths_outside lower))
       (reward_growths_outside upper)"

section \<open>Pools\<close>

text \<open>\<open>unwrap_or(0)\<close> of a division that never panics.\<close>

definition value_or_zero :: "'a::zero result \<Rightarrow> 'a" where
  "value_or_zero r = (case r of Inl _ \<Rightarrow> 0 | Inr x \<Rightarrow> x)"

definition next_reward_info :: "u128 \<Rightarrow> u128 \<Rightarrow> pool_reward_info \<Rightarrow> pool_reward_info" where
  "next_reward_info time_delta liq info =
     (if \<not> reward_initialized info then info
      else info\<lparr>growth_global_x64 := growth_global_x64 info
             + value_or_zero (checked_mul_div time_delta (emissions_per_second_x64 info) liq)\<rparr>)"

definition next_pool_reward_infos :: "pool \<Rightarrow> u64 \<Rightarrow> pool_reward_info arr3 result" where
  "next_pool_reward_infos p next_timestamp =
     (let curr_timestamp = reward_last_updated_timestamp p in
      if next_timestamp < curr_timestamp then Fail InvalidTimestamp
      else if pool_liquidity p = 0 \<or> next_timestamp = curr_timestamp then Ok (pool_reward_infos p)
      else
        let time_delta = ucast (next_timestamp - curr_timestamp)
        in Ok (map_arr3 (next_reward_info time_delta (pool_liquidity p)) (pool_reward_infos p)))"

definition next_pool_liquidity :: "pool \<Rightarrow> i32 \<Rightarrow> i32 \<Rightarrow> i128 \<Rightarrow> u128 result" where
  "next_pool_liquidity p upper_index lower_index liquidity_delta =
     (if tick_current_index p < upper_index \<and> tick_current_index p \<ge> lower_index then
        add_liquidity_delta (pool_liquidity p) liquidity_delta
      else Ok (pool_liquidity p))"

section \<open>Positions\<close>

definition next_position_reward_info ::
  "u128 \<Rightarrow> u128 \<Rightarrow> position_reward_info \<Rightarrow> position_reward_info" where
  "next_position_reward_info liq growth_inside info =
     (let growth_delta = growth_inside - growth_inside_checkpoint info;
          owed_delta = value_or_zero (checked_mul_shift_right liq growth_delta)
      in \<lparr>growth_inside_checkpoint = growth_inside, amount_owed = amount_owed info + owed_delta\<rparr>)"

definition next_position_modify_liquidity_update ::
  "position \<Rightarrow> i128 \<Rightarrow> u128 \<Rightarrow> u128 \<Rightarrow> u128 arr3 \<Rightarrow> position_update result" where
  "next_position_modify_liquidity_update p liquidity_delta inside_a inside_b rewards_inside =
     (let liq = position_liquidity p;
          fee_delta_a = value_or_zero (checked_mul_shift_right liq (inside_a - fee_growth_checkpoint_a p));
          fee_delta_b = value_or_zero (checked_mul_shift_right liq (inside_b - fee_growth_checkpoint_b p))
      in and_then (add_liquidity_delta liq liquidity_delta) (\<lambda>next_liquidity.
         Ok \<lparr>upd_position_liquidity = next_liquidity,
             upd_fee_growth_checkpoint_a = inside_a, upd_fee_owed_a = fee_owed_a p + fee_delta_a,
             upd_fee_growth_checkpoint_b = inside_b, upd_fee_owed_b = fee_owed_b p + fee_delta_b,
             upd_position_reward_infos =
               arr_zip (next_position_reward_info liq) rewards_inside (position_reward_infos p)\<rparr>))"

section \<open>Growth inside a range\<close>

text \<open>
  The growth of an accumulator inside a range of ticks, as a function of where the current
  tick lies (\<open>bl\<close>: below the lower tick, \<open>bu\<close>: below the upper tick), the global growth and the
  growths outside. The laws are what the accounting rests on: crossing a tick flips its outside
  growth and keeps the growth inside, and global growth counts only while the current tick is
  inside.
\<close>

locale growth_range =
  fixes inside :: "bool \<Rightarrow> bool \<Rightarrow> u128 \<Rightarrow> u128 \<Rightarrow> u128 \<Rightarrow> u128"
  assumes cross_upper: "inside bl True g lout uout = inside bl False g lout (g - uout)"
    and cross_lower: "inside True bu g lout uout = inside False bu g (g - lout) uout"
    and accrue_in: "inside False True (g + d) lout uout = inside False True g lout uout + d"
    and accrue_below: "inside True True (g + d) lout uout = inside True True g lout uout"
    and accrue_above: "inside False False (g + d) lout uout = inside False False g lout uout"
begin

lemma cross_upper_back: "inside bl False g lout uout = inside bl True g lout (g - uout)"
  using cross_upper [of bl g lout "g - uout"] by simp

lemma cross_lower_back: "inside False bu g lout uout = inside True bu g (g - lout) uout"
  using cross_lower [of bu g "g - lout" uout] by simp

text \<open>Leave the range at the top, let the growth go on, and come back.\<close>

lemma excursion_above:
  "inside False True (g + d) lout (g + d - (g - uout)) = inside False True g lout uout"
proof -
  have "inside False True (g + d) lout (g + d - (g - uout)) = inside False False (g + d) lout (g - uout)"
    using cross_upper [of False "g + d" lout "g + d - (g - uout)"] by simp
  also have "\<dots> = inside False True g lout uout"
    using accrue_above [of g d lout "g - uout"] cross_upper [of False g lout uout] by simp
  finally show ?thesis .
qed

lemma excursion_below:
  "inside False True (g + d) (g + d - (g - lout)) uout = inside False True g lout uout"
proof -
  have "inside False True (g + d) (g + d - (g - lout)) uout = inside True True (g + d) (g - lout) uout"
    using cross_lower [of True "g + d" "g - lout" uout] by simp
  also have "\<dots> = inside False True g lout uout"
    using accrue_below [of g d "g - lout" uout] cross_lower_back [of True g lout uout] by simp
  finally show ?thesis .
qed

end

text \<open>The fee growths of the model, one token at a time, for two initialised ticks.\<close>

definition fee_inside :: "bool \<Rightarrow> bool \<Rightarrow> u128 \<Rightarrow> u128 \<Rightarrow> u128 \<Rightarrow> u128" where
  "fee_inside bl bu g lout uout = g - (if bl then g - lout else lout) - (if bu then uout else g - uout)"

lemma next_fee_growths_inside_eq:
  assumes "tick_initialized lower" "tick_initialized upper"
  shows "next_fee_growths_inside cur lower l upper u ga gb =
    (fee_inside (cur < l) (cur < u) ga (fee_growth_outside_a lower) (fee_growth_outside_a upper),
     fee_inside (cur < l) (cur < u) gb (fee_growth_outside_b lower) (fee_growth_outside_b upper))"
  using assms by (simp add: next_fee_growths_inside_def fee_inside_def)

lemma reward_growth_inside_eq:
  assumes "reward_initialized info"
  shows "reward_growth_inside cur True l True u info lout uout =
    fee_inside (cur < l) (cur < u) (growth_global_x64 info) lout uout"
  using assms by (simp add: reward_growth_inside_def fee_inside_def Let_def)

interpretation fee_growth: growth_range fee_inside
  by unfold_locales (simp_all add: fee_inside_def)

lemma next_tick_cross_update_Ok_iff:
  "next_tick_cross_update t ga gb infos = Ok t' \<longleftrightarrow>
    t' = t\<lparr>fee_growth_outside_a := ga - fee_growth_outside_a t,
           fee_growth_outside_b := gb - fee_growth_outside_b t,
           reward_growths_outside :=
             arr_zip (\<lambda>info outside. if \<not> reward_initialized info then outside
                                     else growth_global_x64 info - outside)
               infos (reward_growths_outside t)\<rparr>"
  by (auto simp: next_tick_cross_update_def Let_def)

lemma cross_twice:
  assumes "next_tick_cross_update t ga gb infos = Ok t'"
  shows "next_tick_cross_update t' ga gb infos = Ok t"
  using assms by (cases infos; cases "reward_growths_outside t")
    (auto simp: next_tick_cross_update_Ok_iff intro!: tick.equality)

lemma cross_keeps_liquidity:
  assumes "next_tick_cross_update t ga gb infos = Ok t'"
  shows "liquidity_net t' = liquidity_net t" "liquidity_gross t' = liquidity_gross t"
    "tick_initialized t' = tick_initialized t"
  using assms by (simp_all add: next_tick_cross_update_Ok_iff)

lemma cross_upper_fee_growths:
  assumes "next_tick_cross_update t ga gb infos = Ok t'"
    and "tick_initialized lower" "tick_initialized t"
    and "cur < u" "u \<le> cur'" "cur < l \<longleftrightarrow> cur' < l"
  shows "next_fee_growths_inside cur' lower l t' u ga gb = next_fee_growths_inside cur lower l t u ga gb"
  using assms fee_growth.cross_upper [of "cur < l"]
  by (simp add: next_tick_cross_update_Ok_iff next_fee_growths_inside_eq)

lemma cross_lower_fee_growths:
  assumes "next_tick_cross_update t ga gb infos = Ok t'"
    and "tick_initialized upper" "tick_initialized t"
    and "cur < l" "l \<le> cur'" "cur < u \<longleftrightarrow> cur' < u"
  shows "next_fee_growths_inside cur' t' l upper u ga gb = next_fee_growths_inside cur t l upper u ga gb"
  using assms fee_growth.cross_lower [of "cur < u"]
  by (simp add: next_tick_cross_update_Ok_iff next_fee_growths_inside_eq)

section \<open>Rewards of a pool\<close>

lemma arr_list_map_arr3: "arr_list (map_arr3 f xs) = map f (arr_list xs)"
  by (cases xs) simp

lemma next_pool_reward_infos_Ok:
  assumes "next_pool_reward_infos p t = Ok infos"
  shows "reward_last_updated_timestamp p \<le> t"
    and "map reward_mint (arr_list infos) = map reward_mint (arr_list (pool_reward_infos p))"
    and "map reward_vault (arr_list infos) = map reward_vault (arr_list (pool_reward_infos p))"
    and "map reward_authority (arr_list infos) = map reward_authority (arr_list (pool_reward_infos p))"
  using assms
  by (auto simp: next_pool_reward_infos_def Let_def not_less arr_list_map_arr3 next_reward_info_def
      split: if_splits)

section \<open>Liquidity of ticks, positions and the pool\<close>

lemma next_tick_modify_liquidity_Ok:
  assumes "next_tick_modify_liquidity_update t i cur ga gb infos d upr = Ok t'" "d \<noteq> 0"
  shows "in_signed 128 d \<Longrightarrow> int (unat (liquidity_gross t')) = int (unat (liquidity_gross t)) + d"
    and "liquidity_gross t' \<noteq> 0 \<Longrightarrow> liquidity_net t' = (if upr then liquidity_net t - d else liquidity_net t + d)"
    and "liquidity_gross t' \<noteq> 0 \<longleftrightarrow> tick_initialized t'"
    and "liquidity_gross t' = 0 \<Longrightarrow> t' = default_tick"
proof -
  obtain gross where g: "add_liquidity_delta (liquidity_gross t) d = Ok gross"
    and t': "gross = 0 \<and> t' = default_tick \<or> gross \<noteq> 0 \<and> tick_initialized t' \<and> liquidity_gross t' = gross \<and>
      liquidity_net t' = (if upr then liquidity_net t - d else liquidity_net t + d)"
    using assms by (auto simp: next_tick_modify_liquidity_update_def and_then_Inr_iff Let_def checked_signed_def
        split: if_splits prod.splits)
  have d: "liquidity_gross default_tick = 0" "\<not> tick_initialized default_tick" by (simp_all add: default_tick_def)
  show "in_signed 128 d \<Longrightarrow> int (unat (liquidity_gross t')) = int (unat (liquidity_gross t)) + d"
    using add_liquidity_delta_Ok [OF g] t' d by auto
  show "liquidity_gross t' \<noteq> 0 \<Longrightarrow> liquidity_net t' = (if upr then liquidity_net t - d else liquidity_net t + d)"
    "liquidity_gross t' \<noteq> 0 \<longleftrightarrow> tick_initialized t'"
    "liquidity_gross t' = 0 \<Longrightarrow> t' = default_tick"
    using t' d by auto
qed

lemma next_tick_modify_liquidity_keeps_outside:
  assumes "next_tick_modify_liquidity_update t i cur ga gb infos d upr = Ok t'" "d \<noteq> 0"
    and "liquidity_gross t \<noteq> 0" "liquidity_gross t' \<noteq> 0" "tick_initialized t"
  shows "t' = t\<lparr>liquidity_gross := liquidity_gross t', liquidity_net := liquidity_net t'\<rparr>"
proof -
  obtain gross where g: "add_liquidity_delta (liquidity_gross t) d = Ok gross"
    using assms(1,2) by (auto simp: next_tick_modify_liquidity_update_def and_then_Inr_iff)
  have "gross \<noteq> 0" using assms(1,2,4) g by (auto simp: next_tick_modify_liquidity_update_def default_tick_def)
  then show ?thesis
    using assms g by (auto simp: next_tick_modify_liquidity_update_def and_then_Inr_iff intro!: tick.equality)
qed

section \<open>Properties\<close>

text \<open>C23: Crossing a tick keeps the fee growth inside every position that starts or ends at it: when
  the current tick moves up over the tick and the tick's outside growths are flipped, the growth
  inside is what it was before, and crossing back restores the tick.\<close>

theorem crossing_keeps_fee_growth_inside:
  assumes "next_tick_cross_update t ga gb infos = Ok t'"
    and "tick_initialized t" "tick_initialized other" "cur < i" "i \<le> cur'"
  shows "((cur < l \<longleftrightarrow> cur' < l) \<longrightarrow>
      next_fee_growths_inside cur' other l t' i ga gb = next_fee_growths_inside cur other l t i ga gb) \<and>
    ((cur < u \<longleftrightarrow> cur' < u) \<longrightarrow>
      next_fee_growths_inside cur' t' i other u ga gb = next_fee_growths_inside cur t i other u ga gb) \<and>
    next_tick_cross_update t' ga gb infos = Ok t"
  using cross_upper_fee_growths [OF assms(1,3,2,4,5)] cross_lower_fee_growths [OF assms(1,3,2,4,5)]
    cross_twice [OF assms(1)] by blast

definition sample_tick :: tick where
  "sample_tick = default_tick\<lparr>tick_initialized := True, liquidity_gross := 5, liquidity_net := 5,
     fee_growth_outside_a := 30, fee_growth_outside_b := - 4\<rparr>"

lemma crossing_keeps_fee_growth_inside_witness:
  "\<exists>t'. next_tick_cross_update sample_tick 100 7 (arr_const default_reward_info) = Ok t' \<and>
     next_fee_growths_inside 12 sample_tick (-64) t' 10 100 7 =
     next_fee_growths_inside 3 sample_tick (-64) sample_tick 10 100 7"
proof -
  have i: "tick_initialized sample_tick" by code_simp
  obtain t' where c: "next_tick_cross_update sample_tick 100 7 (arr_const default_reward_info) = Ok t'"
    by (simp add: next_tick_cross_update_Ok_iff)
  show ?thesis
    using crossing_keeps_fee_growth_inside [OF c i i, of 3 10 12 "-64"] c by simp
qed

text \<open>C24: Fees that accrue while the current tick is outside a range do not change the growth inside
  it, and fees that accrue while it is inside are added to it, all modulo \<open>2 ^ 128\<close>.\<close>

theorem fee_growth_counts_inside_only:
  assumes "tick_initialized lower" "tick_initialized upper" "l < u"
  shows "next_fee_growths_inside cur lower l upper u (ga + da) (gb + db) =
    (let (ia, ib) = next_fee_growths_inside cur lower l upper u ga gb in
     if l \<le> cur \<and> cur < u then (ia + da, ib + db) else (ia, ib))"
  unfolding next_fee_growths_inside_eq [OF assms(1,2)]
  using assms(3) fee_growth.accrue_in fee_growth.accrue_below fee_growth.accrue_above
  by (cases "cur < l"; cases "cur < u") simp_all

lemma fee_growth_counts_inside_only_witness:
  "next_fee_growths_inside 5 sample_tick (-64) sample_tick 64 (100 + 9) (7 + 1) =
     (let (ia, ib) = next_fee_growths_inside 5 sample_tick (-64) sample_tick 64 100 7 in (ia + 9, ib + 1))"
proof -
  have i: "tick_initialized sample_tick" by code_simp
  from fee_growth_counts_inside_only [OF i i, of "-64" 64 5 100 9 7 1] show ?thesis by simp
qed

text \<open>C39: Rewards accrue with time: a time before the last update is refused, no time or no liquidity
  changes nothing, and otherwise every initialised reward grows by its emissions over the time
  that passed per unit of liquidity, or not at all when the product overflows 128 bits.\<close>

theorem pool_rewards_accrue:
  "next_pool_reward_infos p t =
    (if t < reward_last_updated_timestamp p then Fail InvalidTimestamp
     else if pool_liquidity p = 0 \<or> t = reward_last_updated_timestamp p then Ok (pool_reward_infos p)
     else Ok (map_arr3 (\<lambda>info.
       let emitted = (unat t - unat (reward_last_updated_timestamp p)) * unat (emissions_per_second_x64 info) in
       if reward_initialized info \<and> emitted < 2 ^ 128
       then info\<lparr>growth_global_x64 := growth_global_x64 info + of_nat (emitted div unat (pool_liquidity p))\<rparr>
       else info) (pool_reward_infos p)))"
proof -
  have e: "next_reward_info (ucast (t - reward_last_updated_timestamp p)) (pool_liquidity p) info =
      (let emitted = (unat t - unat (reward_last_updated_timestamp p)) * unat (emissions_per_second_x64 info) in
       if reward_initialized info \<and> emitted < 2 ^ 128
       then info\<lparr>growth_global_x64 := growth_global_x64 info + of_nat (emitted div unat (pool_liquidity p))\<rparr>
       else info)"
    if "\<not> t < reward_last_updated_timestamp p" "pool_liquidity p \<noteq> 0" for info
  proof -
    have "unat (ucast (t - reward_last_updated_timestamp p) :: u128) = unat t - unat (reward_last_updated_timestamp p)"
      using that(1) by (simp add: unat_ucast_up unat_sub word_le_nat_alt not_less word_less_nat_alt)
    then show ?thesis
      using that(2) by (simp add: next_reward_info_def checked_mul_div_def checked_mul_div_round_up_if_spec
          value_or_zero_def Let_def not_less)
  qed
  show ?thesis by (auto simp: next_pool_reward_infos_def Let_def e intro!: arr3.map_cong)
qed

text \<open>C38: Adding liquidity to a tick and removing it again leaves the tick as it was: its gross and
  net liquidity and its outside growths, or the empty tick when it had no liquidity before.\<close>

theorem tick_liquidity_roundtrip:
  assumes "next_tick_modify_liquidity_update t i cur ga gb infos d upper = Ok t1"
    and "next_tick_modify_liquidity_update t1 i cur' ga' gb' infos' (- d) upper = Ok t2"
    and "0 < d" "d < 2 ^ 127" "tick_initialized t \<longleftrightarrow> liquidity_gross t \<noteq> 0"
  shows "t2 = (if liquidity_gross t = 0 then default_tick else t)"
proof -
  have r: "in_signed 128 d" "in_signed 128 (- d)" "d \<noteq> 0" "- d \<noteq> 0" using assms(3,4) by simp_all
  note m1 = next_tick_modify_liquidity_Ok [OF assms(1) r(3)] and m2 = next_tick_modify_liquidity_Ok [OF assms(2) r(4)]
  have g1: "int (unat (liquidity_gross t1)) = int (unat (liquidity_gross t)) + d" by (rule m1(1) [OF r(1)])
  have "int (unat (liquidity_gross t2)) = int (unat (liquidity_gross t1)) + - d" by (rule m2(1) [OF r(2)])
  then have "unat (liquidity_gross t2) = unat (liquidity_gross t)" using g1 by linarith
  then have g: "liquidity_gross t2 = liquidity_gross t" by (simp only: word_unat_eq_iff)
  have "0 < int (unat (liquidity_gross t1))" unfolding g1 using assms(3) by linarith
  then have g1': "liquidity_gross t1 \<noteq> 0" by auto
  show ?thesis
  proof (cases "liquidity_gross t = 0")
    case True
    then show ?thesis using g m2(4) by simp
  next
    case False
    then have g2: "liquidity_gross t2 \<noteq> 0" using g by simp
    have "t1 = t\<lparr>liquidity_gross := liquidity_gross t1, liquidity_net := liquidity_net t1\<rparr>"
      by (rule next_tick_modify_liquidity_keeps_outside [OF assms(1) r(3) False g1']) (use assms(5) False in simp)
    moreover have "t2 = t1\<lparr>liquidity_gross := liquidity_gross t2, liquidity_net := liquidity_net t2\<rparr>"
      by (rule next_tick_modify_liquidity_keeps_outside [OF assms(2) r(4) g1' g2]) (use m1(3) g1' in simp)
    moreover have "liquidity_net t2 = liquidity_net t"
      using m1(2) [OF g1'] m2(2) g False by (simp split: if_splits)
    ultimately show ?thesis using g False by (metis tick.surjective tick.update_convs(2,3))
  qed
qed

lemma tick_liquidity_roundtrip_witness:
  "\<exists>t1. next_tick_modify_liquidity_update sample_tick 10 3 100 7 (arr_const default_reward_info) 40 True = Ok t1 \<and>
     next_tick_modify_liquidity_update t1 10 25 900 8 (arr_const default_reward_info) (- 40) True = Ok sample_tick"
proof -
  have "is_ok (and_then (next_tick_modify_liquidity_update sample_tick 10 3 100 7 (arr_const default_reward_info) 40 True)
     (\<lambda>t1. next_tick_modify_liquidity_update t1 10 25 900 8 (arr_const default_reward_info) (- 40) True))"
    by code_simp
  then obtain t1 t2 where t:
    "next_tick_modify_liquidity_update sample_tick 10 3 100 7 (arr_const default_reward_info) 40 True = Ok t1"
    "next_tick_modify_liquidity_update t1 10 25 900 8 (arr_const default_reward_info) (- 40) True = Ok t2"
    by (auto simp: is_ok_iff and_then_Inr_iff)
  have "liquidity_gross sample_tick = 5" "tick_initialized sample_tick" by (simp_all add: sample_tick_def)
  then show ?thesis using tick_liquidity_roundtrip [OF t] t by simp
qed

end
