(* ===== verification/Liquidity_Manager.thy ===== *)
theory Liquidity_Manager
  imports Managers
begin

text \<open>
  Changing the liquidity of a position (\<^verbatim>\<open>manager/liquidity_manager.rs\<close>). The two tick arrays
  of a position may be the same account, so the functions that read or write them take the
  store of tick arrays and the two keys: \<open>load\<close> reads the store and \<open>load_mut\<close> followed by
  \<open>update_tick\<close> writes it back.
\<close>

type_synonym tick_array_store = "pubkey \<rightharpoonup> tick_array"

record modify_liquidity_update =
  mod_pool_liquidity :: u128
  mod_tick_lower_update :: tick_update
  mod_tick_upper_update :: tick_update
  mod_reward_infos :: "pool_reward_info arr3"
  mod_position_update :: position_update

text \<open>Loading an account that is not a tick array fails a constraint before the handler runs.\<close>

definition load_tick_array :: "tick_array_store \<Rightarrow> pubkey \<Rightarrow> tick_array result" where
  "load_tick_array arrays key = (case arrays key of None \<Rightarrow> Inl Constraint | Some ta \<Rightarrow> Ok ta)"

definition inner_calculate_modify_liquidity ::
  "pool \<Rightarrow> position \<Rightarrow> tick \<Rightarrow> tick \<Rightarrow> i32 \<Rightarrow> i32 \<Rightarrow> i128 \<Rightarrow> u64 \<Rightarrow> modify_liquidity_update result" where
  "inner_calculate_modify_liquidity p pos lower upper lower_index upper_index liquidity_delta timestamp =
     (if liquidity_delta = 0 \<and> position_liquidity pos = 0 then Fail LiquidityZero
      else
        and_then (next_pool_reward_infos p timestamp) (\<lambda>infos.
        and_then (next_pool_liquidity p (tick_upper_index pos) (tick_lower_index pos) liquidity_delta)
          (\<lambda>global_liquidity.
        and_then (next_tick_modify_liquidity_update lower lower_index (tick_current_index p)
          (fee_growth_global_a p) (fee_growth_global_b p) infos liquidity_delta False) (\<lambda>lower_update.
        and_then (next_tick_modify_liquidity_update upper upper_index (tick_current_index p)
          (fee_growth_global_a p) (fee_growth_global_b p) infos liquidity_delta True) (\<lambda>upper_update.
        let (inside_a, inside_b) = next_fee_growths_inside (tick_current_index p) lower lower_index
              upper upper_index (fee_growth_global_a p) (fee_growth_global_b p);
            rewards_inside = next_reward_growths_inside (tick_current_index p) lower lower_index
              upper upper_index infos
        in
        and_then (next_position_modify_liquidity_update pos liquidity_delta inside_a inside_b
          rewards_inside) (\<lambda>pos_update.
        Ok \<lparr>mod_pool_liquidity = global_liquidity, mod_tick_lower_update = lower_update,
            mod_tick_upper_update = upper_update, mod_reward_infos = infos,
            mod_position_update = pos_update\<rparr>))))))"

definition calculate_modify_liquidity ::
  "pool \<Rightarrow> position \<Rightarrow> tick_array_store \<Rightarrow> pubkey \<Rightarrow> pubkey \<Rightarrow> i128 \<Rightarrow> u64 \<Rightarrow>
   modify_liquidity_update result" where
  "calculate_modify_liquidity p pos arrays lower_key upper_key liquidity_delta timestamp =
     and_then (load_tick_array arrays lower_key) (\<lambda>ta_lower.
     and_then (get_tick ta_lower (tick_lower_index pos) (tick_spacing p)) (\<lambda>lower.
     and_then (load_tick_array arrays upper_key) (\<lambda>ta_upper.
     and_then (get_tick ta_upper (tick_upper_index pos) (tick_spacing p)) (\<lambda>upper.
     inner_calculate_modify_liquidity p pos lower upper (tick_lower_index pos)
       (tick_upper_index pos) liquidity_delta timestamp))))"

definition calculate_fee_and_reward_growths ::
  "pool \<Rightarrow> position \<Rightarrow> tick_array_store \<Rightarrow> pubkey \<Rightarrow> pubkey \<Rightarrow> u64 \<Rightarrow>
   (position_update \<times> pool_reward_info arr3) result" where
  "calculate_fee_and_reward_growths p pos arrays lower_key upper_key timestamp =
     and_then (load_tick_array arrays lower_key) (\<lambda>ta_lower.
     and_then (get_tick ta_lower (tick_lower_index pos) (tick_spacing p)) (\<lambda>lower.
     and_then (load_tick_array arrays upper_key) (\<lambda>ta_upper.
     and_then (get_tick ta_upper (tick_upper_index pos) (tick_spacing p)) (\<lambda>upper.
     and_then (inner_calculate_modify_liquidity p pos lower upper (tick_lower_index pos)
       (tick_upper_index pos) 0 timestamp) (\<lambda>upd.
     Ok (mod_position_update upd, mod_reward_infos upd))))))"

definition calculate_liquidity_token_deltas ::
  "i32 \<Rightarrow> u128 \<Rightarrow> position \<Rightarrow> i128 \<Rightarrow> (u64 \<times> u64) result" where
  "calculate_liquidity_token_deltas tick_current price pos liquidity_delta =
     (if liquidity_delta = 0 then Fail LiquidityZero
      else
        let liq = of_int (wrap_i128 \<bar>liquidity_delta\<bar>) :: u128; round_up = liquidity_delta > 0 in
        and_then (sqrt_price_from_tick_index (tick_lower_index pos)) (\<lambda>lower_price.
        and_then (sqrt_price_from_tick_index (tick_upper_index pos)) (\<lambda>upper_price.
        if tick_current < tick_lower_index pos then
          and_then (get_amount_delta_a lower_price upper_price liq round_up) (\<lambda>delta_a.
          Ok (delta_a, 0))
        else if tick_current < tick_upper_index pos then
          and_then (get_amount_delta_a price upper_price liq round_up) (\<lambda>delta_a.
          and_then (get_amount_delta_b lower_price price liq round_up) (\<lambda>delta_b.
          Ok (delta_a, delta_b)))
        else
          and_then (get_amount_delta_b lower_price upper_price liq round_up) (\<lambda>delta_b.
          Ok (0, delta_b)))))"

definition sync_modify_liquidity_values ::
  "pool \<Rightarrow> position \<Rightarrow> tick_array_store \<Rightarrow> pubkey \<Rightarrow> pubkey \<Rightarrow> modify_liquidity_update \<Rightarrow> u64 \<Rightarrow>
   (pool \<times> position \<times> tick_array_store) result" where
  "sync_modify_liquidity_values p pos arrays lower_key upper_key upd timestamp =
     (let pos = position_apply_update (mod_position_update upd) pos in
      and_then (load_tick_array arrays lower_key) (\<lambda>ta_lower.
      and_then (update_tick ta_lower (tick_lower_index pos) (tick_spacing p)
        (mod_tick_lower_update upd)) (\<lambda>ta_lower.
      let arrays = arrays(lower_key \<mapsto> ta_lower) in
      and_then (load_tick_array arrays upper_key) (\<lambda>ta_upper.
      and_then (update_tick ta_upper (tick_upper_index pos) (tick_spacing p)
        (mod_tick_upper_update upd)) (\<lambda>ta_upper.
      let arrays = arrays(upper_key \<mapsto> ta_upper) in
      Ok (update_rewards_and_liquidity (mod_reward_infos upd) (mod_pool_liquidity upd) timestamp p,
          pos, arrays))))))"

section \<open>What a change of liquidity does\<close>

lemma inner_calculate_OkD:
  assumes "inner_calculate_modify_liquidity p pos lower upper li ui d ts = Ok upd"
  shows "next_pool_reward_infos p ts = Ok (mod_reward_infos upd)"
    and "next_pool_liquidity p (tick_upper_index pos) (tick_lower_index pos) d = Ok (mod_pool_liquidity upd)"
    and "next_tick_modify_liquidity_update lower li (tick_current_index p) (fee_growth_global_a p)
      (fee_growth_global_b p) (mod_reward_infos upd) d False = Ok (mod_tick_lower_update upd)"
    and "next_tick_modify_liquidity_update upper ui (tick_current_index p) (fee_growth_global_a p)
      (fee_growth_global_b p) (mod_reward_infos upd) d True = Ok (mod_tick_upper_update upd)"
    and "add_liquidity_delta (position_liquidity pos) d = Ok (upd_position_liquidity (mod_position_update upd))"
    and "d \<noteq> 0 \<or> position_liquidity pos \<noteq> 0"
  using assms
  by (auto simp: inner_calculate_modify_liquidity_def next_position_modify_liquidity_update_def
      and_then_Inr_iff Let_def case_prod_beta split: if_splits)

lemma next_pool_liquidity_Ok:
  assumes "next_pool_liquidity p u l d = Ok liq" "in_signed 128 d"
  shows "int (unat liq) = int (unat (pool_liquidity p)) +
    (if l \<le> tick_current_index p \<and> tick_current_index p < u then d else 0)"
  using assms add_liquidity_delta_Ok [of "pool_liquidity p" d liq]
  by (auto simp: next_pool_liquidity_def simp del: in_signed_numerals split: if_splits)

text \<open>Taking out the liquidity that was put in never returns more tokens than it cost.\<close>

lemma token_deltas_out_le_in:
  assumes "0 < d" "calculate_liquidity_token_deltas cur price pos d = Ok (a, b)"
    "calculate_liquidity_token_deltas cur price pos (- d) = Ok (a', b')"
  shows "a' \<le> a \<and> b' \<le> b"
  using assms
  by (auto simp: calculate_liquidity_token_deltas_def and_then_Inr_iff Let_def
      dest: get_amount_delta_a_down_le_up get_amount_delta_b_down_le_up split: if_splits)

section \<open>Properties\<close>

text \<open>C21: A change of liquidity by \<open>d\<close> adds \<open>d\<close> to the liquidity of the position, adds it to the
  liquidity of the pool exactly when the current tick is inside the range, and adds it to the
  gross liquidity of both ticks, as integers without overflow.\<close>

theorem modify_liquidity_accounting:
  assumes "inner_calculate_modify_liquidity p pos lower upper (tick_lower_index pos) (tick_upper_index pos) d ts = Ok upd"
    and "in_signed 128 d" "d \<noteq> 0"
  shows "int (unat (upd_position_liquidity (mod_position_update upd))) = int (unat (position_liquidity pos)) + d \<and>
    int (unat (mod_pool_liquidity upd)) = int (unat (pool_liquidity p)) +
      (if tick_lower_index pos \<le> tick_current_index p \<and> tick_current_index p < tick_upper_index pos then d else 0) \<and>
    int (unat (liquidity_gross (mod_tick_lower_update upd))) = int (unat (liquidity_gross lower)) + d \<and>
    int (unat (liquidity_gross (mod_tick_upper_update upd))) = int (unat (liquidity_gross upper)) + d"
proof -
  note i = inner_calculate_OkD [OF assms(1)]
  show ?thesis
    using add_liquidity_delta_Ok [OF i(5) assms(2)] next_pool_liquidity_Ok [OF i(2) assms(2)]
      next_tick_modify_liquidity_Ok(1) [OF i(3) assms(3,2)] next_tick_modify_liquidity_Ok(1) [OF i(4) assms(3,2)]
    by blast
qed

definition sample_position :: position where
  "sample_position = default_position\<lparr>tick_lower_index := -5440, tick_upper_index := -512,
     position_liquidity := 3\<rparr>"

definition sample_pool :: pool where
  "sample_pool = default_pool\<lparr>tick_spacing := 64, fee_rate := 3000, protocol_fee_rate := 300,
     pool_liquidity := 1000000, sqrt_price := 2 ^ 64 - 2 ^ 60, tick_current_index := -1291,
     token_mint_a := 3, token_mint_b := 4\<rparr>"

lemma modify_liquidity_accounting_witness:
  "\<exists>upd. inner_calculate_modify_liquidity sample_pool sample_position (ticks sample_array ! 3)
       (ticks sample_array ! 80) (-5440) (-512) 40 5 = Ok upd \<and>
     int (unat (mod_pool_liquidity upd)) = 1000040"
proof -
  have "is_ok (inner_calculate_modify_liquidity sample_pool sample_position (ticks sample_array ! 3)
       (ticks sample_array ! 80) (tick_lower_index sample_position) (tick_upper_index sample_position) 40 5)" by code_simp
  then obtain upd where u: "inner_calculate_modify_liquidity sample_pool sample_position (ticks sample_array ! 3)
       (ticks sample_array ! 80) (tick_lower_index sample_position) (tick_upper_index sample_position) 40 5 = Ok upd"
    by (auto simp: is_ok_iff)
  show ?thesis
    using modify_liquidity_accounting [OF u] u by (simp add: sample_position_def sample_pool_def)
qed

text \<open>C22: Taking out a liquidity never pays more of either token than putting the same liquidity in
  costs at the same price.\<close>

theorem withdrawal_at_most_deposit:
  assumes "0 < d" "calculate_liquidity_token_deltas cur price pos d = Ok (a, b)"
    "calculate_liquidity_token_deltas cur price pos (- d) = Ok (a', b')"
  shows "a' \<le> a \<and> b' \<le> b"
  by (rule token_deltas_out_le_in [OF assms])

lemma withdrawal_at_most_deposit_witness:
  "\<exists>a b a' b'. calculate_liquidity_token_deltas (-1291) (2 ^ 64 - 2 ^ 60) sample_position 1000 = Ok (a, b) \<and>
     calculate_liquidity_token_deltas (-1291) (2 ^ 64 - 2 ^ 60) sample_position (- 1000) = Ok (a', b') \<and>
     a' \<le> a \<and> b' \<le> b"
proof -
  have "is_ok (calculate_liquidity_token_deltas (-1291) (2 ^ 64 - 2 ^ 60) sample_position 1000)" by code_simp
  then obtain a b where 1: "calculate_liquidity_token_deltas (-1291) (2 ^ 64 - 2 ^ 60) sample_position 1000 = Ok (a, b)"
    unfolding is_ok_pair_iff by blast
  have "is_ok (calculate_liquidity_token_deltas (-1291) (2 ^ 64 - 2 ^ 60) sample_position (- 1000))" by code_simp
  then obtain a' b' where 2: "calculate_liquidity_token_deltas (-1291) (2 ^ 64 - 2 ^ 60) sample_position (- 1000) = Ok (a', b')"
    unfolding is_ok_pair_iff by blast
  have "a' \<le> a \<and> b' \<le> b" by (rule withdrawal_at_most_deposit [OF _ 1 2]) simp
  then show ?thesis using 1 2 by blast
qed

text \<open>C37: Storing a change of liquidity writes both ticks, also when one tick array holds the two of
  them: reading the lower and the upper tick afterwards gives the computed ticks, every other
  account and every other tick of the two arrays is unchanged.\<close>

theorem sync_writes_both_ticks:
  assumes "sync_modify_liquidity_values p pos arrays lower_key upper_key upd ts = Ok (p', pos', arrays')"
    and "\<forall>k\<in>{lower_key, upper_key}. \<forall>ta. arrays k = Some ta \<longrightarrow> tick_array_valid ta (tick_spacing p)"
    and "tick_lower_index pos \<noteq> tick_upper_index pos"
  shows "(\<exists>ta. arrays' lower_key = Some ta \<and> get_tick ta (tick_lower_index pos) (tick_spacing p) = Ok (mod_tick_lower_update upd)) \<and>
    (\<exists>ta. arrays' upper_key = Some ta \<and> get_tick ta (tick_upper_index pos) (tick_spacing p) = Ok (mod_tick_upper_update upd)) \<and>
    (\<forall>k. k \<noteq> lower_key \<and> k \<noteq> upper_key \<longrightarrow> arrays' k = arrays k) \<and>
    (\<forall>k ta ta' i. arrays k = Some ta \<and> arrays' k = Some ta' \<and> i \<noteq> tick_lower_index pos \<and> i \<noteq> tick_upper_index pos
       \<longrightarrow> get_tick ta' i (tick_spacing p) = get_tick ta i (tick_spacing p))"
proof -
  let ?l = "tick_lower_index pos" and ?u = "tick_upper_index pos" and ?sp = "tick_spacing p"
  obtain tl tl' tu tu' where a: "arrays lower_key = Some tl"
    "update_tick tl ?l ?sp (mod_tick_lower_update upd) = Ok tl'"
    "(arrays(lower_key \<mapsto> tl')) upper_key = Some tu"
    "update_tick tu ?u ?sp (mod_tick_upper_update upd) = Ok tu'"
    "arrays' = arrays(lower_key \<mapsto> tl', upper_key \<mapsto> tu')"
    using assms(1) by (auto simp: sync_modify_liquidity_values_def and_then_Inr_iff Let_def load_tick_array_def
        position_apply_update_def split: option.splits)
  have vl: "tick_array_valid tl ?sp" using a(1) assms(2) by blast
  have vl': "tick_array_valid tl' ?sp" by (rule array_store.upd_valid [OF vl a(2)])
  have vu: "tick_array_valid tu ?sp" using a(3) vl' assms(2) by (auto split: if_splits)
  note gl = array_store.get_upd [OF vl a(2)] and gu = array_store.get_upd [OF vu a(4)]
  show ?thesis
  proof (cases "lower_key = upper_key")
    case True
    then show ?thesis using a gl gu assms(3) by auto
  next
    case False
    then show ?thesis using a gl gu assms(3) by auto
  qed
qed

definition sample_update :: modify_liquidity_update where
  "sample_update = \<lparr>mod_pool_liquidity = 9, mod_tick_lower_update = default_tick\<lparr>liquidity_gross := 1\<rparr>,
     mod_tick_upper_update = default_tick\<lparr>liquidity_gross := 2\<rparr>,
     mod_reward_infos = arr_const default_reward_info,
     mod_position_update = \<lparr>upd_position_liquidity = 4, upd_fee_growth_checkpoint_a = 0, upd_fee_owed_a = 0,
       upd_fee_growth_checkpoint_b = 0, upd_fee_owed_b = 0,
       upd_position_reward_infos = position_reward_infos default_position\<rparr>\<rparr>"

lemma sync_writes_both_ticks_witness:
  "\<exists>p' pos' arrays' ta. sync_modify_liquidity_values sample_pool sample_position [7 \<mapsto> sample_array] 7 7
       sample_update 5 = Ok (p', pos', arrays') \<and> arrays' 7 = Some ta \<and>
     get_tick ta (-5440) 64 = Ok (default_tick\<lparr>liquidity_gross := 1\<rparr>)"
proof -
  have v: "tick_array_valid sample_array 64" by code_simp
  have "is_ok (update_tick sample_array (-5440) 64 (default_tick\<lparr>liquidity_gross := 1\<rparr>))" by code_simp
  then obtain t1 where 1: "update_tick sample_array (-5440) 64 (default_tick\<lparr>liquidity_gross := 1\<rparr>) = Ok t1"
    by (auto simp: is_ok_iff)
  have "is_ok (update_tick sample_array (-512) 64 (default_tick\<lparr>liquidity_gross := 2\<rparr>))" by code_simp
  then obtain t2 where 2: "update_tick t1 (-512) 64 (default_tick\<lparr>liquidity_gross := 2\<rparr>) = Ok t2"
    unfolding is_ok_iff array_store.upd_defined_after [OF v 1, symmetric] by blast
  have pos: "tick_lower_index sample_position = -5440" "tick_upper_index sample_position = -512"
    "tick_spacing sample_pool = 64" by (simp_all add: sample_position_def sample_pool_def)
  obtain p' pos' arrays' where s: "sync_modify_liquidity_values sample_pool sample_position [7 \<mapsto> sample_array] 7 7
      sample_update 5 = Ok (p', pos', arrays')"
    using 1 2 by (simp add: sync_modify_liquidity_values_def Let_def load_tick_array_def pos
        position_apply_update_def sample_update_def)
  show ?thesis
    using sync_writes_both_ticks [OF s] s v pos by (auto simp: sample_update_def)
qed

end
