(* ===== verification/Swap_Math.thy ===== *)
theory Swap_Math
  imports Token_Math
begin

text \<open>
  One step of a swap at constant liquidity (\<^verbatim>\<open>math/swap_math.rs\<close>): the amounts, the fee
  and the price reached when at most \<open>amount_remaining\<close> is traded towards a target price.
  The theorems show that the price stays between the current and the target price, that a
  step never takes or gives more than what remains, that both amounts are rounded in favour
  of the pool and that the fee is at least the fee rate.
\<close>

record swap_step =
  amount_in :: u64
  amount_out :: u64
  next_price :: u128
  fee_amount :: u64

definition get_amount_fixed_delta :: "u128 \<Rightarrow> u128 \<Rightarrow> u128 \<Rightarrow> bool \<Rightarrow> bool \<Rightarrow> u64 result" where
  "get_amount_fixed_delta sqrt_price_current sqrt_price_target liquidity amount_specified_is_input a_to_b =
     (if a_to_b = amount_specified_is_input then
        get_amount_delta_a sqrt_price_current sqrt_price_target liquidity amount_specified_is_input
      else
        get_amount_delta_b sqrt_price_current sqrt_price_target liquidity amount_specified_is_input)"

definition get_amount_unfixed_delta :: "u128 \<Rightarrow> u128 \<Rightarrow> u128 \<Rightarrow> bool \<Rightarrow> bool \<Rightarrow> u64 result" where
  "get_amount_unfixed_delta sqrt_price_current sqrt_price_target liquidity amount_specified_is_input a_to_b =
     (if a_to_b = amount_specified_is_input then
        get_amount_delta_b sqrt_price_current sqrt_price_target liquidity (\<not> amount_specified_is_input)
      else
        get_amount_delta_a sqrt_price_current sqrt_price_target liquidity (\<not> amount_specified_is_input))"

definition compute_swap :: "u64 \<Rightarrow> u16 \<Rightarrow> u128 \<Rightarrow> u128 \<Rightarrow> u128 \<Rightarrow> bool \<Rightarrow> bool \<Rightarrow> swap_step result" where
  "compute_swap amount_remaining fee_rate liquidity sqrt_price_current sqrt_price_target
     amount_specified_is_input a_to_b =
     and_then (get_amount_fixed_delta sqrt_price_current sqrt_price_target liquidity
       amount_specified_is_input a_to_b) (\<lambda>amount_fixed_delta.
     and_then (if amount_specified_is_input then
         and_then (checked_mul_div (ucast amount_remaining)
             (FEE_RATE_MUL_VALUE - ucast fee_rate) FEE_RATE_MUL_VALUE) try_into_u64
       else Ok amount_remaining) (\<lambda>amount_calc.
     and_then (if amount_calc \<ge> amount_fixed_delta then Ok sqrt_price_target
       else get_next_sqrt_price sqrt_price_current liquidity amount_calc
              amount_specified_is_input a_to_b) (\<lambda>next_sqrt_price.
     let is_max_swap = (next_sqrt_price = sqrt_price_target) in
     and_then (get_amount_unfixed_delta sqrt_price_current next_sqrt_price liquidity
       amount_specified_is_input a_to_b) (\<lambda>amount_unfixed_delta.
     and_then (if \<not> is_max_swap then
         get_amount_fixed_delta sqrt_price_current next_sqrt_price liquidity
           amount_specified_is_input a_to_b
       else Ok amount_fixed_delta) (\<lambda>amount_fixed_delta.
     let (amount_in, amount_out) =
           (if amount_specified_is_input then (amount_fixed_delta, amount_unfixed_delta)
            else (amount_unfixed_delta, amount_fixed_delta));
         amount_out = (if \<not> amount_specified_is_input \<and> amount_out > amount_remaining
                       then amount_remaining else amount_out)
     in
     and_then (if amount_specified_is_input \<and> \<not> is_max_swap then
         Ok (amount_remaining - amount_in)
       else and_then (checked_mul_div_round_up (ucast amount_in) (ucast fee_rate)
              (FEE_RATE_MUL_VALUE - ucast fee_rate)) try_into_u64) (\<lambda>fee_amount.
     Ok \<lparr>amount_in = amount_in, amount_out = amount_out, next_price = next_sqrt_price,
         fee_amount = fee_amount\<rparr>))))))"

section \<open>The price reached by an amount\<close>

lemma b_input_nat:
  fixes p l m r k :: nat
  assumes "0 < l" "0 < k" and r: "r = p + m * k div l"
  shows "p \<le> r" and "quot True (l * (r - p)) k \<le> m"
    and "\<And>t. m * k < l * (t - p) \<Longrightarrow> p \<le> t \<Longrightarrow> r \<le> t"
proof -
  show "p \<le> r" by (simp add: r)
  show "quot True (l * (r - p)) k \<le> m" using assms by (simp add: quot_up_le_iff)
  fix t assume "m * k < l * (t - p)" "p \<le> t"
  then have "m * k div l \<le> (t - p) * l div l" by (intro div_le_mono) (simp add: mult.commute)
  then have "m * k div l \<le> t - p" using assms(1) by simp
  then show "r \<le> t" using r \<open>p \<le> t\<close> by simp
qed

lemma b_output_nat:
  fixes p l m r k :: nat
  assumes "0 < l" "0 < k" and r: "quot True (m * k) l \<le> p" "r = p - quot True (m * k) l"
  shows "r \<le> p" and "m \<le> l * (p - r) div k"
    and "\<And>t. m * k \<le> l * (p - t) \<Longrightarrow> t \<le> p \<Longrightarrow> t \<le> r"
proof -
  show "r \<le> p" by (simp add: r)
  have "m * k \<le> quot True (m * k) l * l" using assms(1) quot_up_le_iff by blast
  then show "m \<le> l * (p - r) div k" using assms by (simp add: less_eq_div_iff_mult_less_eq mult.commute)
  fix t assume "m * k \<le> l * (p - t)" "t \<le> p"
  then have "quot True (m * k) l \<le> p - t" using assms by (simp add: quot_up_le_iff mult.commute)
  then show "t \<le> r" using r \<open>t \<le> p\<close> by simp
qed

lemma next_price_a_Ok:
  assumes "get_next_sqrt_price_from_a_round_up p L m input = Ok r" "m \<noteq> 0"
  shows "input \<or> unat p * unat m < unat L * 2 ^ 64"
    and "unat r = quot True (unat L * 2 ^ 64 * unat p)
       (if input then unat L * 2 ^ 64 + unat p * unat m else unat L * 2 ^ 64 - unat p * unat m)"
proof -
  define q where "q = quot True (unat L * 2 ^ 64 * unat p)
       (if input then unat L * 2 ^ 64 + unat p * unat m else unat L * 2 ^ 64 - unat p * unat m)"
  have e: "unat L * unat p * 2 ^ 64 = unat L * 2 ^ 64 * unat p" by (simp only: ac_simps)
  have "(input \<or> unat p * unat m < unat L * 2 ^ 64) \<and> q < 2 ^ 128 \<and> of_nat q = r"
    using assms(1) unfolding get_next_sqrt_price_from_a_round_up_spec Let_def e q_def [symmetric]
    by (simp only: assms(2) if_False split: if_splits) (simp_all add: not_le)
  then show "input \<or> unat p * unat m < unat L * 2 ^ 64"
    "unat r = quot True (unat L * 2 ^ 64 * unat p)
       (if input then unat L * 2 ^ 64 + unat p * unat m else unat L * 2 ^ 64 - unat p * unat m)"
    unfolding q_def [symmetric] by (auto simp: unat_of_nat)
qed

lemma next_price_b_Ok:
  assumes "get_next_sqrt_price_from_b_round_down p L m input = Ok r"
  shows "input \<or> quot True (unat m * 2 ^ 64) (unat L) \<le> unat p"
    and "unat r = (if input then unat p + unat m * 2 ^ 64 div unat L
                   else unat p - quot True (unat m * 2 ^ 64) (unat L))"
proof -
  define d where "d = quot (\<not> input) (unat m * 2 ^ 64) (unat L)"
  have "of_nat (if input then unat p + d else unat p - d) = r \<and>
    (if input then unat p + d else unat p - d) < 2 ^ 128 \<and> (input \<or> d \<le> unat p)"
    using assms unat_less_size [of p] unfolding get_next_sqrt_price_from_b_round_down_spec Let_def d_def [symmetric]
    by (cases input) (simp_all add: not_le split: if_splits)
  then show "input \<or> quot True (unat m * 2 ^ 64) (unat L) \<le> unat p"
    "unat r = (if input then unat p + unat m * 2 ^ 64 div unat L
                   else unat p - quot True (unat m * 2 ^ 64) (unat L))"
    by (auto simp: d_def unat_of_nat simp del: of_nat_add of_nat_diff split: if_splits)
qed

definition toward :: "bool \<Rightarrow> u128 \<Rightarrow> u128 \<Rightarrow> u128 \<Rightarrow> bool" where
  "toward a_to_b current next target \<longleftrightarrow>
     (if a_to_b then target \<le> next \<and> next \<le> current else current \<le> next \<and> next \<le> target)"

lemma toward_nat: "toward a_to_b c n t \<longleftrightarrow>
    (if a_to_b then unat t \<le> unat n \<and> unat n \<le> unat c else unat c \<le> unat n \<and> unat n \<le> unat t)"
  by (simp add: toward_def word_le_nat_alt)

lemma next_price_a:
  assumes fixed: "get_amount_delta_a p t L input = Ok f" and m: "unat m < unat f"
    and r: "get_next_sqrt_price_from_a_round_up p L m input = Ok r"
    and dir: "toward input p p t"
  shows "toward input p r t"
    and "get_amount_delta_a p r L input = Ok f' \<Longrightarrow> if input then unat f' \<le> unat m else unat m \<le> unat f'"
proof -
  note ok = get_amount_delta_a_Ok [OF fixed]
  define P T R M l where "P = unat p" and "T = unat t" and "R = unat r" and "M = unat m" and "l = unat L * 2 ^ 64"
  have f: "unat f = quot input (l * price_gap P T) (P * T)" unfolding ok(3) by (simp add: P_def T_def l_def ac_simps)
  have P0: "0 < P" "0 < T" using ok by (simp_all add: P_def T_def)
  have l0: "0 < l" using m f by (cases l) (simp_all add: quot_if)
  show "toward input p r t"
    and "get_amount_delta_a p r L input = Ok f' \<Longrightarrow> if input then unat f' \<le> unat m else unat m \<le> unat f'"
  proof (atomize (full), cases "m = 0")
    case True
    then have "r = p" using r by (simp add: get_next_sqrt_price_from_a_round_up_spec Let_def)
    then show "toward input p r t \<and> (get_amount_delta_a p r L input = Ok f' \<longrightarrow> (if input then unat f' \<le> unat m else unat m \<le> unat f'))"
    proof (intro conjI impI)
      show "toward input p r t" using dir \<open>r = p\<close> by simp
      assume "get_amount_delta_a p r L input = Ok f'"
      from get_amount_delta_a_Ok(3) [OF this] have "unat f' = 0" by (simp add: \<open>r = p\<close> price_gap_def quot_if)
      then show "if input then unat f' \<le> unat m else unat m \<le> unat f'" using True by simp
    qed
  next
    case False
    then have M0: "0 < M" by (simp add: M_def unat_gt_0)
    show "toward input p r t \<and> (get_amount_delta_a p r L input = Ok f' \<longrightarrow> (if input then unat f' \<le> unat m else unat m \<le> unat f'))"
    proof (cases input)
      case True
      have R: "R = quot True (l * P) (l + P * M)"
        using next_price_a_Ok(2) [OF r False] True by (simp add: R_def l_def P_def M_def)
      note g = a_input_nat [OF P0(1) l0 M0 R]
      have "T \<le> P" using dir True by (simp add: toward_nat P_def T_def)
      moreover have "M * (P * T) < l * (P - T)"
      proof -
        have "\<not> quot True (l * (P - T)) (P * T) \<le> M"
          using m f True \<open>T \<le> P\<close> by (simp add: price_gap_def M_def)
        then show ?thesis using quot_up_le_iff [of "P * T" "l * (P - T)" M] P0 by (simp only: not_le) simp
      qed
      ultimately have "T \<le> R" using g(3) by blast
      moreover have "unat f' \<le> M" if "get_amount_delta_a p r L input = Ok f'"
        using get_amount_delta_a_Ok [OF that] True g(1,2) by (simp add: price_gap_def R_def P_def l_def ac_simps)
      ultimately show ?thesis using True g(1) by (simp add: toward_nat P_def T_def R_def M_def)
    next
      case out: False
      have R: "P * M < l" "R = quot True (l * P) (l - P * M)"
        using next_price_a_Ok [OF r False] out by (simp_all add: R_def l_def P_def M_def)
      note g = a_output_nat [OF P0(1) R]
      have "P \<le> T" using dir out by (simp add: toward_nat P_def T_def)
      moreover from this have "M * (P * T) \<le> l * (T - P)"
        using m f out le_quot_down_iff [of "P * T" M "l * (T - P)"] P0 by (simp add: price_gap_def M_def)
      ultimately have "R \<le> T" using g(3) by blast
      moreover have "M \<le> unat f'" if "get_amount_delta_a p r L input = Ok f'"
        using get_amount_delta_a_Ok [OF that] out g(1,2) by (simp add: price_gap_def R_def P_def l_def ac_simps)
      ultimately show ?thesis using out g(1) by (simp add: toward_nat P_def T_def R_def M_def)
    qed
  qed
qed

lemma next_price_b:
  assumes fixed: "get_amount_delta_b p t L input = Ok f" and m: "unat m < unat f"
    and r: "get_next_sqrt_price_from_b_round_down p L m input = Ok r"
    and dir: "toward (\<not> input) p p t"
  shows "toward (\<not> input) p r t"
    and "get_amount_delta_b p r L input = Ok f' \<Longrightarrow> if input then unat f' \<le> unat m else unat m \<le> unat f'"
proof -
  define P T R M l where "P = unat p" and "T = unat t" and "R = unat r" and "M = unat m" and "l = unat L"
  have f: "unat f = quot input (l * price_gap P T) (2 ^ 64)"
    unfolding get_amount_delta_b_Ok [OF fixed] by (simp add: P_def T_def l_def ac_simps)
  have l0: "0 < l" using m f by (cases l) (simp_all add: quot_if)
  have k: "0 < (2::nat) ^ 64" by simp
  show "toward (\<not> input) p r t"
    and "get_amount_delta_b p r L input = Ok f' \<Longrightarrow> if input then unat f' \<le> unat m else unat m \<le> unat f'"
  proof (atomize (full), cases input)
    case True
    have R: "R = P + M * 2 ^ 64 div l"
      using next_price_b_Ok(2) [OF r] True by (simp add: R_def l_def P_def M_def)
    note g = b_input_nat [OF l0 k R]
    have "P \<le> T" using dir True by (simp add: toward_nat P_def T_def)
    moreover have "M * 2 ^ 64 < l * (T - P)"
    proof -
      have "\<not> quot True (l * (T - P)) (2 ^ 64) \<le> M"
        using m f True \<open>P \<le> T\<close> by (simp add: price_gap_def M_def)
      then show ?thesis unfolding quot_up_le_iff [OF k] by (rule not_le_imp_less)
    qed
    ultimately have "R \<le> T" using g(3) by blast
    moreover have "unat f' \<le> M" if "get_amount_delta_b p r L input = Ok f'"
      using get_amount_delta_b_Ok [OF that] True g(1,2) by (simp add: price_gap_def R_def P_def l_def)
    ultimately show "toward (\<not> input) p r t \<and> (get_amount_delta_b p r L input = Ok f' \<longrightarrow> (if input then unat f' \<le> unat m else unat m \<le> unat f'))"
      using True g(1) by (simp add: toward_nat P_def T_def R_def M_def)
  next
    case out: False
    have R: "quot True (M * 2 ^ 64) l \<le> P" "R = P - quot True (M * 2 ^ 64) l"
      using next_price_b_Ok [OF r] out by (simp_all add: R_def l_def P_def M_def)
    note g = b_output_nat [OF l0 k R]
    have "T \<le> P" using dir out by (simp add: toward_nat P_def T_def)
    moreover from this have "M * 2 ^ 64 \<le> l * (P - T)"
      using m f out le_quot_down_iff [OF k, of M "l * (P - T)"] by (simp add: price_gap_def M_def)
    ultimately have "T \<le> R" using g(3) by blast
    moreover have "M \<le> unat f'" if "get_amount_delta_b p r L input = Ok f'"
      using get_amount_delta_b_Ok [OF that] out g(1,2) by (simp add: price_gap_def R_def P_def l_def)
    ultimately show "toward (\<not> input) p r t \<and> (get_amount_delta_b p r L input = Ok f' \<longrightarrow> (if input then unat f' \<le> unat m else unat m \<le> unat f'))"
      using out g(1) by (simp add: toward_nat P_def T_def R_def M_def)
  qed
qed

section \<open>What a step computes\<close>

lemma and_thenE:
  assumes "and_then r f = Inr y"
  obtains x where "r = Inr x" "f x = Inr y"
  using assms by (auto simp: and_then_Inr_iff)

lemma fee_complement: "unat (FEE_RATE_MUL_VALUE - ucast (f::u16)) = 1000000 - unat f" "unat f < 65536"
proof -
  show f: "unat f < 65536" using unat_less_size [of f] by simp
  have "unat (ucast f :: u128) = unat f" by (rule unat_ucast_up) simp
  then show "unat (FEE_RATE_MUL_VALUE - ucast f) = 1000000 - unat f"
    using f by (subst unat_sub) (simp_all add: word_le_nat_alt FEE_RATE_MUL_VALUE_def)
qed

lemma unat_ucast_u16 [simp]: "unat (ucast (f::u16) :: u128) = unat f"
  by (rule unat_ucast_up) simp

lemma fee_input_cap:
  "and_then (checked_mul_div (ucast (m::u64)) (FEE_RATE_MUL_VALUE - ucast (f::u16)) FEE_RATE_MUL_VALUE) try_into_u64
   = Ok (of_nat (unat m * (1000000 - unat f) div 1000000))"
proof -
  define q where "q = unat m * (1000000 - unat f) div 1000000"
  have c: "unat m * (1000000 - unat f) \<le> unat m * 1000000" by (rule mult_le_mono2) simp
  have "q \<le> unat m" unfolding q_def using div_le_mono [OF c, of 1000000] by simp
  then have q: "q < 2 ^ 64" using unat_u64_less [of m] by linarith
  have p: "unat m * (1000000 - unat f) < 2 ^ 128"
    by (rule le_less_trans [OF c]) (use unat_u64_less [of m] in simp)
  have F: "unat FEE_RATE_MUL_VALUE = 1000000" "FEE_RATE_MUL_VALUE \<noteq> 0" by (simp_all add: FEE_RATE_MUL_VALUE_def)
  have "checked_mul_div (ucast m) (FEE_RATE_MUL_VALUE - ucast f) FEE_RATE_MUL_VALUE = Ok (of_nat q)"
    unfolding checked_mul_div_def checked_mul_div_round_up_if_spec fee_complement unat_ucast_u128 F(1) quot_down q_def [symmetric]
    using F(2) p by (simp del: mult_less_cancel2)
  moreover have "try_into_u64 (of_nat q) = Ok (of_nat q)"
    using q by (simp add: unat_of_nat)
  ultimately show ?thesis by (simp add: q_def)
qed

lemma fee_round_up:
  assumes "checked_mul_div_round_up (ucast (m::u64)) (ucast (f::u16)) (FEE_RATE_MUL_VALUE - ucast f) = Ok x"
  shows "unat x = quot True (unat m * unat f) (1000000 - unat f)"
  using assms
  by (auto simp: checked_mul_div_round_up_def checked_mul_div_round_up_if_spec fee_complement
      unat_ucast_u128 unat_of_nat order_le_less_trans [OF quot_le] split: if_splits)

lemma compute_swap_OkD:
  assumes "compute_swap rem fee L cur tgt input a_to_b = Ok s"
  obtains fixed calc unfixed fixed' where
    "get_amount_fixed_delta cur tgt L input a_to_b = Ok fixed"
    "unat calc = (if input then unat rem * (1000000 - unat fee) div 1000000 else unat rem)"
    "if fixed \<le> calc then next_price s = tgt else get_next_sqrt_price cur L calc input a_to_b = Ok (next_price s)"
    "get_amount_unfixed_delta cur (next_price s) L input a_to_b = Ok unfixed"
    "get_amount_fixed_delta cur (next_price s) L input a_to_b = Ok fixed'"
    "amount_in s = (if input then fixed' else unfixed)"
    "amount_out s = (if input then unfixed else min fixed' rem)"
    "if input \<and> next_price s \<noteq> tgt then fee_amount s = rem - amount_in s
     else unat (fee_amount s) = quot True (unat (amount_in s) * unat fee) (1000000 - unat fee)"
proof -
  have calc: "unat (of_nat (unat rem * (1000000 - unat fee) div 1000000) :: u64) = unat rem * (1000000 - unat fee) div 1000000"
  proof -
    have "unat rem * (1000000 - unat fee) div 1000000 \<le> unat rem * 1000000 div 1000000"
      by (intro div_le_mono mult_le_mono2) simp
    then show ?thesis using unat_u64_less [of rem] by (simp add: unat_of_nat)
  qed
  obtain fixed calc nxt unfixed fixed' where
    1: "get_amount_fixed_delta cur tgt L input a_to_b = Ok fixed" and
    2: "(if input then Ok (of_nat (unat rem * (1000000 - unat fee) div 1000000)) else Ok rem) = Ok calc" and
    3: "(if fixed \<le> calc then Ok tgt else get_next_sqrt_price cur L calc input a_to_b) = Ok nxt" and
    4: "get_amount_unfixed_delta cur nxt L input a_to_b = Ok unfixed" and
    5: "(if nxt \<noteq> tgt then get_amount_fixed_delta cur nxt L input a_to_b else Ok fixed) = Ok fixed'" and
    6: "(\<lambda>(ai, ao). and_then (if input \<and> nxt \<noteq> tgt then Ok (rem - ai)
              else and_then (checked_mul_div_round_up (ucast ai) (ucast fee)
                      (FEE_RATE_MUL_VALUE - ucast fee)) try_into_u64)
             (\<lambda>x. Ok \<lparr>amount_in = ai, amount_out = if \<not> input \<and> rem < ao then rem else ao,
                next_price = nxt, fee_amount = x\<rparr>))
          (if input then (fixed', unfixed) else (unfixed, fixed')) = Ok s"
    using assms unfolding compute_swap_def fee_input_cap Let_def by (elim and_thenE) blast
  have nxt: "next_price s = nxt" using 6 by (auto simp: and_then_Inr_iff split: if_splits)
  show ?thesis
  proof (rule that [OF 1, of calc unfixed fixed'])
    show "unat calc = (if input then unat rem * (1000000 - unat fee) div 1000000 else unat rem)"
      using 2 calc by (auto split: if_splits)
    show "if fixed \<le> calc then next_price s = tgt else get_next_sqrt_price cur L calc input a_to_b = Ok (next_price s)"
      using 3 by (auto simp: nxt split: if_splits)
    show "get_amount_unfixed_delta cur (next_price s) L input a_to_b = Ok unfixed" using 4 by (simp add: nxt)
    show "get_amount_fixed_delta cur (next_price s) L input a_to_b = Ok fixed'"
      using 5 1 by (auto simp: nxt split: if_splits)
    show "amount_in s = (if input then fixed' else unfixed)"
      "amount_out s = (if input then unfixed else min fixed' rem)"
      using 6 by (auto simp: and_then_Inr_iff min_def split: if_splits)
    show "if input \<and> next_price s \<noteq> tgt then fee_amount s = rem - amount_in s
      else unat (fee_amount s) = quot True (unat (amount_in s) * unat fee) (1000000 - unat fee)"
      unfolding nxt using 6 by (auto elim!: and_thenE simp: fee_round_up split: if_splits)
  qed
qed

section \<open>Correctness of a step\<close>

lemma fixed_delta_step:
  assumes fixed: "get_amount_fixed_delta p t L input a_to_b = Ok f" and m: "\<not> f \<le> m"
    and r: "get_next_sqrt_price p L m input a_to_b = Ok r"
    and dir: "toward a_to_b p p t"
    and fixed': "get_amount_fixed_delta p r L input a_to_b = Ok f'"
  shows "toward a_to_b p r t" and "if input then f' \<le> m else m \<le> f'"
proof -
  have m: "unat m < unat f" using m by (simp add: word_le_nat_alt)
  show "toward a_to_b p r t" "if input then f' \<le> m else m \<le> f'"
  proof (atomize (full), cases "a_to_b = input")
    case True
    then have "get_amount_delta_a p t L input = Ok f" "get_next_sqrt_price_from_a_round_up p L m input = Ok r"
      "get_amount_delta_a p r L input = Ok f'" "toward input p p t"
      using assms by (simp_all add: get_amount_fixed_delta_def get_next_sqrt_price_def)
    then show "toward a_to_b p r t \<and> (if input then f' \<le> m else m \<le> f')"
      using next_price_a m True by (auto simp: word_le_nat_alt)
  next
    case False
    then have "get_amount_delta_b p t L input = Ok f" "get_next_sqrt_price_from_b_round_down p L m input = Ok r"
      "get_amount_delta_b p r L input = Ok f'" "toward (\<not> input) p p t"
      using assms by (auto simp: get_amount_fixed_delta_def get_next_sqrt_price_def)
    moreover have "a_to_b = (\<not> input)" using False by auto
    ultimately show "toward a_to_b p r t \<and> (if input then f' \<le> m else m \<le> f')"
      using next_price_b m by (auto simp: word_le_nat_alt)
  qed
qed

lemma compute_swap_core:
  assumes swap: "compute_swap rem fee L cur tgt input a_to_b = Ok s"
    and dir: "toward a_to_b cur cur tgt"
  obtains fixed unfixed where
    "toward a_to_b cur (next_price s) tgt"
    "get_amount_fixed_delta cur (next_price s) L input a_to_b = Ok fixed"
    "get_amount_unfixed_delta cur (next_price s) L input a_to_b = Ok unfixed"
    "amount_in s = (if input then fixed else unfixed)"
    "amount_out s = (if input then unfixed else min fixed rem)"
    "input \<longrightarrow> unat fixed \<le> unat rem * (1000000 - unat fee) div 1000000"
    "\<not> input \<and> next_price s \<noteq> tgt \<longrightarrow> rem \<le> fixed"
    "if input \<and> next_price s \<noteq> tgt then fee_amount s = rem - amount_in s
     else unat (fee_amount s) = quot True (unat (amount_in s) * unat fee) (1000000 - unat fee)"
proof -
  obtain fixed calc unfixed fixed' where c:
    "get_amount_fixed_delta cur tgt L input a_to_b = Ok fixed"
    "unat calc = (if input then unat rem * (1000000 - unat fee) div 1000000 else unat rem)"
    "if fixed \<le> calc then next_price s = tgt else get_next_sqrt_price cur L calc input a_to_b = Ok (next_price s)"
    "get_amount_unfixed_delta cur (next_price s) L input a_to_b = Ok unfixed"
    "get_amount_fixed_delta cur (next_price s) L input a_to_b = Ok fixed'"
    "amount_in s = (if input then fixed' else unfixed)"
    "amount_out s = (if input then unfixed else min fixed' rem)"
    "if input \<and> next_price s \<noteq> tgt then fee_amount s = rem - amount_in s
     else unat (fee_amount s) = quot True (unat (amount_in s) * unat fee) (1000000 - unat fee)"
    by (rule compute_swap_OkD [OF swap])
  have "toward a_to_b cur (next_price s) tgt \<and> (input \<longrightarrow> fixed' \<le> calc) \<and> (\<not> input \<and> next_price s \<noteq> tgt \<longrightarrow> calc \<le> fixed')"
  proof (cases "fixed \<le> calc")
    case True
    then show ?thesis using c(1,3,5) dir by (auto simp: toward_def split: if_splits)
  next
    case False
    then show ?thesis using fixed_delta_step [OF c(1) False _ dir c(5)] c(3) by (auto split: if_splits)
  qed
  then show ?thesis
    using that [OF _ c(5,4,6,7) _ _ c(8)] c(2) by (auto simp: word_le_nat_alt split: if_splits)
qed

lemma fee_split_nat:
  assumes "x \<le> m * (1000000 - f) div 1000000" "f < (1000000::nat)"
  shows "x \<le> m" "x + quot True (x * f) (1000000 - f) \<le> m" "x * f \<le> (m - x) * (1000000 - f)"
proof -
  have 1: "x * 1000000 \<le> m * (1000000 - f)" using assms by (simp add: less_eq_div_iff_mult_less_eq)
  also have "\<dots> \<le> m * 1000000" by (rule mult_le_mono2) simp
  finally show le: "x \<le> m" by simp
  have "x * (1000000 - f) + x * f = x * 1000000" using assms(2) by (simp flip: distrib_left)
  then show *: "x * f \<le> (m - x) * (1000000 - f)" using 1 le by (simp add: diff_mult_distrib)
  have "quot True (x * f) (1000000 - f) \<le> m - x" using * assms(2) by (simp add: quot_up_le_iff)
  then show "x + quot True (x * f) (1000000 - f) \<le> m" using le by linarith
qed

lemma compute_swap_toward:
  assumes "compute_swap rem fee L cur tgt input a_to_b = Ok s" "toward a_to_b cur cur tgt"
  shows "toward a_to_b cur (next_price s) tgt"
  by (rule compute_swap_core [OF assms])

lemma compute_swap_step_amounts:
  assumes "compute_swap rem fee L cur tgt input a_to_b = Ok s" "toward a_to_b cur cur tgt"
  shows "if input then unat (amount_in s) + unat (fee_amount s) \<le> unat rem else amount_out s \<le> rem"
    and "next_price s \<noteq> tgt \<Longrightarrow>
       if input then unat (amount_in s) + unat (fee_amount s) = unat rem else amount_out s = rem"
    and "unat (amount_in s) * unat fee \<le> unat (fee_amount s) * (1000000 - unat fee)"
proof -
  have f: "unat fee < 1000000" using fee_complement(2) [of fee] by simp
  obtain fixed unfixed where c:
    "toward a_to_b cur (next_price s) tgt"
    "get_amount_fixed_delta cur (next_price s) L input a_to_b = Ok fixed"
    "get_amount_unfixed_delta cur (next_price s) L input a_to_b = Ok unfixed"
    "amount_in s = (if input then fixed else unfixed)"
    "amount_out s = (if input then unfixed else min fixed rem)"
    "input \<longrightarrow> unat fixed \<le> unat rem * (1000000 - unat fee) div 1000000"
    "\<not> input \<and> next_price s \<noteq> tgt \<longrightarrow> rem \<le> fixed"
    "if input \<and> next_price s \<noteq> tgt then fee_amount s = rem - amount_in s
     else unat (fee_amount s) = quot True (unat (amount_in s) * unat fee) (1000000 - unat fee)"
    by (rule compute_swap_core [OF assms])
  have pos: "0 < 1000000 - unat fee" using f by simp
  note up = quot_up_le_iff [OF pos, THEN iffD1, OF order_refl]
  show "if input then unat (amount_in s) + unat (fee_amount s) \<le> unat rem else amount_out s \<le> rem"
    "next_price s \<noteq> tgt \<Longrightarrow>
       if input then unat (amount_in s) + unat (fee_amount s) = unat rem else amount_out s = rem"
    "unat (amount_in s) * unat fee \<le> unat (fee_amount s) * (1000000 - unat fee)"
  proof (atomize (full), cases input)
    case True
    note g = fee_split_nat [OF c(6) [THEN mp, OF True] f]
    have "unat (rem - fixed) = unat rem - unat fixed" using g(1) by (simp add: unat_sub word_le_nat_alt)
    then show "(if input then unat (amount_in s) + unat (fee_amount s) \<le> unat rem else amount_out s \<le> rem) \<and>
      (next_price s \<noteq> tgt \<longrightarrow> (if input then unat (amount_in s) + unat (fee_amount s) = unat rem else amount_out s = rem)) \<and>
      unat (amount_in s) * unat fee \<le> unat (fee_amount s) * (1000000 - unat fee)"
      using c(4,8) True g up [of "unat fixed * unat fee"] by (cases "next_price s = tgt") simp_all
  next
    case False
    then show "(if input then unat (amount_in s) + unat (fee_amount s) \<le> unat rem else amount_out s \<le> rem) \<and>
      (next_price s \<noteq> tgt \<longrightarrow> (if input then unat (amount_in s) + unat (fee_amount s) = unat rem else amount_out s = rem)) \<and>
      unat (amount_in s) * unat fee \<le> unat (fee_amount s) * (1000000 - unat fee)"
      using c(4,5,7,8) up [of "unat unfixed * unat fee"] by (auto simp: min_def)
  qed
qed

definition exact_in :: "bool \<Rightarrow> u128 \<Rightarrow> u128 \<Rightarrow> u128 \<Rightarrow> real" where
  "exact_in a_to_b p q L = (if a_to_b then exact_a else exact_b) (unat p) (unat q) (unat L)"

lemma compute_swap_step_rounding:
  assumes "compute_swap rem fee L cur tgt input a_to_b = Ok s" "toward a_to_b cur cur tgt"
  shows "exact_in a_to_b cur (next_price s) L \<le> unat (amount_in s)"
    and "unat (amount_out s) \<le> exact_in (\<not> a_to_b) cur (next_price s) L"
proof -
  obtain fixed unfixed where c:
    "toward a_to_b cur (next_price s) tgt"
    "get_amount_fixed_delta cur (next_price s) L input a_to_b = Ok fixed"
    "get_amount_unfixed_delta cur (next_price s) L input a_to_b = Ok unfixed"
    "amount_in s = (if input then fixed else unfixed)"
    "amount_out s = (if input then unfixed else min fixed rem)"
    "input \<longrightarrow> unat fixed \<le> unat rem * (1000000 - unat fee) div 1000000"
    "\<not> input \<and> next_price s \<noteq> tgt \<longrightarrow> rem \<le> fixed"
    "if input \<and> next_price s \<noteq> tgt then fee_amount s = rem - amount_in s
     else unat (fee_amount s) = quot True (unat (amount_in s) * unat fee) (1000000 - unat fee)"
    by (rule compute_swap_core [OF assms])
  have "unat (min fixed rem) \<le> unat fixed" by (simp add: unat_min_max)
  then have out: "unat (amount_out s) \<le> unat (if input then unfixed else fixed)" using c(5) by simp
  have "exact_in a_to_b cur (next_price s) L \<le> unat (if input then fixed else unfixed)"
    using c(2,3) get_amount_delta_a_rounding [of cur "next_price s" L True]
      get_amount_delta_b_rounding [of cur "next_price s" L True]
    by (cases input; cases a_to_b; simp add: exact_in_def get_amount_fixed_delta_def get_amount_unfixed_delta_def)
  then show "exact_in a_to_b cur (next_price s) L \<le> unat (amount_in s)" using c(4) by simp
  have "unat (if input then unfixed else fixed) \<le> exact_in (\<not> a_to_b) cur (next_price s) L"
    using c(2,3) get_amount_delta_a_rounding [of cur "next_price s" L False]
      get_amount_delta_b_rounding [of cur "next_price s" L False]
    by (cases input; cases a_to_b; simp add: exact_in_def get_amount_fixed_delta_def get_amount_unfixed_delta_def)
  then show "unat (amount_out s) \<le> exact_in (\<not> a_to_b) cur (next_price s) L" 
    using out of_nat_le_iff [where 'a = real] by (meson order_trans)
qed

section \<open>Properties\<close>

text \<open>C20: A step of a swap moves the price towards the target and never past it. It never uses
  more than the amount that remains: with a given input, the input and the fee together; with
  a given output, the output. When the step stops before the target it uses all of it.\<close>

theorem compute_swap_within_amount:
  assumes "compute_swap amount_left rate L cur tgt input a_to_b = Ok s"
    "if a_to_b then tgt \<le> cur else cur \<le> tgt"
  shows "(if a_to_b then tgt \<le> next_price s \<and> next_price s \<le> cur
           else cur \<le> next_price s \<and> next_price s \<le> tgt) \<and>
    (let used = (if input then unat (amount_in s) + unat (fee_amount s) else unat (amount_out s))
     in used \<le> unat amount_left \<and> (next_price s \<noteq> tgt \<longrightarrow> used = unat amount_left))"
proof -
  have d: "toward a_to_b cur cur tgt" using assms(2) by (simp add: toward_def split: if_splits)
  show ?thesis
    using compute_swap_toward [OF assms(1) d] compute_swap_step_amounts [OF assms(1) d]
    by (auto simp: toward_def Let_def word_le_nat_alt split: if_splits)
qed

lemma compute_swap_within_amount_witness:
  "\<exists>s. compute_swap 1000 3000 1000000 (2 ^ 64) (2 ^ 64 + 2 ^ 60) True False = Ok s \<and>
     next_price s \<noteq> 2 ^ 64 + 2 ^ 60 \<and> unat (amount_in s) + unat (fee_amount s) = 1000"
proof -
  have c: "compute_swap 1000 3000 1000000 (2 ^ 64) (2 ^ 64 + 2 ^ 60) True False =
    Ok \<lparr>amount_in = 997, amount_out = 996, next_price = 18465135477551040038, fee_amount = 3\<rparr>" by code_simp
  show ?thesis using compute_swap_within_amount [OF c] unfolding c by simp
qed

text \<open>C19: Both amounts of a step are rounded in favour of the pool: the input is at least the
  real amount that the move of the price costs, the output at most the real amount that it
  frees, and the fee is at least the fee rate's share of the gross input.\<close>

theorem compute_swap_favours_pool:
  assumes "compute_swap amount_left rate L cur tgt input a_to_b = Ok s"
    "if a_to_b then tgt \<le> cur else cur \<le> tgt"
  shows "exact_in a_to_b cur (next_price s) L \<le> unat (amount_in s) \<and>
    unat (amount_out s) \<le> exact_in (\<not> a_to_b) cur (next_price s) L \<and>
    (unat (amount_in s) + unat (fee_amount s)) * unat rate \<le> unat (fee_amount s) * 1000000"
proof -
  have d: "toward a_to_b cur cur tgt" using assms(2) by (simp add: toward_def split: if_splits)
  have f: "unat rate < 1000000" using fee_complement(2) [of rate] by simp
  have "(unat (amount_in s) + unat (fee_amount s)) * unat rate \<le>
      unat (fee_amount s) * (1000000 - unat rate) + unat (fee_amount s) * unat rate"
    using compute_swap_step_amounts(3) [OF assms(1) d] by (simp add: distrib_right)
  also have "\<dots> = unat (fee_amount s) * 1000000" using f by (simp flip: distrib_left)
  finally show ?thesis using compute_swap_step_rounding [OF assms(1) d] by simp
qed

lemma compute_swap_favours_pool_witness:
  "exact_in True (2 ^ 64 + 2 ^ 60) (2 ^ 64) 1000000 \<le> 58824 \<and>
   58824 * 3000 \<le> 178 * (1000000::nat)"
proof -
  have c: "compute_swap 62500 3000 1000000 (2 ^ 64 + 2 ^ 60) (2 ^ 64) False True =
    Ok \<lparr>amount_in = 58824, amount_out = 62500, next_price = 2 ^ 64, fee_amount = 178\<rparr>" by code_simp
  show ?thesis using compute_swap_favours_pool [OF c] by simp
qed

end
