(* ===== verification/Swap_Manager.thy ===== *)
theory Swap_Manager
  imports Managers Swap_Math
begin

text \<open>
  Swapping across ticks (\<^verbatim>\<open>manager/swap_manager.rs\<close>) over a sequence of one to three tick
  arrays (\<^verbatim>\<open>util/swap_tick_sequence.rs\<close>).
\<close>

section \<open>The sequence of tick arrays\<close>

type_synonym swap_tick_sequence = "tick_array list"

definition swap_tick_sequence_new ::
  "tick_array \<Rightarrow> tick_array option \<Rightarrow> tick_array option \<Rightarrow> swap_tick_sequence" where
  "swap_tick_sequence_new ta0 ta1 ta2 =
     [ta0] @ (case ta1 of None \<Rightarrow> [] | Some ta \<Rightarrow> [ta]) @ (case ta2 of None \<Rightarrow> [] | Some ta \<Rightarrow> [ta])"

definition seq_array :: "swap_tick_sequence \<Rightarrow> nat \<Rightarrow> tick_array option" where
  "seq_array arrays i = (if i < length arrays then Some (arrays ! i) else None)"

definition seq_get_tick :: "swap_tick_sequence \<Rightarrow> nat \<Rightarrow> i32 \<Rightarrow> u16 \<Rightarrow> tick result" where
  "seq_get_tick arrays array_index tick_index spacing =
     (case seq_array arrays array_index of
        Some ta \<Rightarrow> get_tick ta tick_index spacing
      | None \<Rightarrow> Fail TickArrayIndexOutofBounds)"

definition seq_update_tick ::
  "swap_tick_sequence \<Rightarrow> nat \<Rightarrow> i32 \<Rightarrow> u16 \<Rightarrow> tick_update \<Rightarrow> swap_tick_sequence result" where
  "seq_update_tick arrays array_index tick_index spacing upd =
     (case seq_array arrays array_index of
        Some ta \<Rightarrow> and_then (update_tick ta tick_index spacing upd) (\<lambda>ta. Ok (arrays[array_index := ta]))
      | None \<Rightarrow> Fail TickArrayIndexOutofBounds)"

definition seq_get_tick_offset :: "swap_tick_sequence \<Rightarrow> nat \<Rightarrow> i32 \<Rightarrow> u16 \<Rightarrow> int result" where
  "seq_get_tick_offset arrays array_index tick_index spacing =
     (case seq_array arrays array_index of
        Some ta \<Rightarrow> tick_offset ta tick_index spacing
      | None \<Rightarrow> Fail TickArrayIndexOutofBounds)"

text \<open>The search loop visits each array at most once: the measure is the number left.\<close>

function seq_next_loop ::
  "swap_tick_sequence \<Rightarrow> u16 \<Rightarrow> bool \<Rightarrow> i32 \<Rightarrow> nat \<Rightarrow> (nat \<times> i32) result" where
  "seq_next_loop arrays spacing a_to_b search_index array_index =
     (if array_index < length arrays then
        let ticks_in_array = wrap_i32 (TICK_ARRAY_SIZE * i32_of_u16 spacing);
            next_array = arrays ! array_index;
            last_tick = wrap_i32 (wrap_i32 (start_tick_index next_array + ticks_in_array) - 1)
        in
        and_then (get_next_init_tick_index next_array search_index spacing a_to_b) (\<lambda>next_index.
        case next_index of
          Some next_index \<Rightarrow> Ok (array_index, next_index)
        | None \<Rightarrow>
            if a_to_b \<and> is_min_tick_array next_array then Ok (array_index, MIN_TICK_INDEX)
            else if \<not> a_to_b \<and> is_max_tick_array next_array spacing then Ok (array_index, MAX_TICK_INDEX)
            else if array_index + 1 = length arrays then
              if a_to_b then Ok (array_index, start_tick_index next_array)
              else Ok (array_index, last_tick)
            else
              seq_next_loop arrays spacing a_to_b
                (if a_to_b then wrap_i32 (start_tick_index next_array - 1) else last_tick)
                (array_index + 1))
      else Fail TickArraySequenceInvalidIndex)"
  by pat_completeness auto

termination
  by (relation "measure (\<lambda>(arrays, _, _, _, i). length arrays - i)") auto

declare seq_next_loop.simps [simp del]

definition seq_get_next_initialized_tick_index ::
  "swap_tick_sequence \<Rightarrow> i32 \<Rightarrow> u16 \<Rightarrow> bool \<Rightarrow> nat \<Rightarrow> (nat \<times> i32) result" where
  "seq_get_next_initialized_tick_index arrays tick_index spacing a_to_b start_array_index =
     seq_next_loop arrays spacing a_to_b tick_index start_array_index"

section \<open>Fees and crossing\<close>

definition calculate_protocol_fee :: "u64 \<Rightarrow> u16 \<Rightarrow> u64 result" where
  "calculate_protocol_fee global_fee rate =
     unwrap (try_into_u64 (ucast global_fee * ucast rate div PROTOCOL_FEE_RATE_MUL_VALUE))"

definition calculate_fees :: "u64 \<Rightarrow> u16 \<Rightarrow> u128 \<Rightarrow> u64 \<Rightarrow> u128 \<Rightarrow> (u64 \<times> u128) result" where
  "calculate_fees fee rate curr_liquidity curr_protocol_fee curr_fee_growth =
     and_then (if rate > 0 then
         and_then (calculate_protocol_fee fee rate) (\<lambda>delta.
         Ok (fee - delta, curr_protocol_fee + delta))
       else Ok (fee, curr_protocol_fee)) (\<lambda>(global_fee, next_protocol_fee).
     let next_fee_growth =
           (if curr_liquidity > 0 then
              curr_fee_growth + push_bit Q64_RESOLUTION (ucast global_fee) div curr_liquidity
            else curr_fee_growth)
     in Ok (next_protocol_fee, next_fee_growth))"

definition calculate_update ::
  "tick \<Rightarrow> bool \<Rightarrow> u128 \<Rightarrow> u128 \<Rightarrow> u128 \<Rightarrow> pool_reward_info arr3 \<Rightarrow> (tick_update \<times> u128) result" where
  "calculate_update t a_to_b liq growth_a growth_b infos =
     (let signed_liquidity_net = (if a_to_b then wrap_i128 (- liquidity_net t) else liquidity_net t) in
      and_then (next_tick_cross_update t growth_a growth_b infos) (\<lambda>upd.
      and_then (add_liquidity_delta liq signed_liquidity_net) (\<lambda>next_liquidity.
      Ok (upd, next_liquidity))))"

definition get_next_sqrt_prices :: "i32 \<Rightarrow> u128 \<Rightarrow> bool \<Rightarrow> (u128 \<times> u128) result" where
  "get_next_sqrt_prices next_tick_index sqrt_price_limit a_to_b =
     and_then (sqrt_price_from_tick_index next_tick_index) (\<lambda>next_tick_price.
     Ok (next_tick_price,
         if a_to_b then max sqrt_price_limit next_tick_price
         else min sqrt_price_limit next_tick_price))"

section \<open>The swap loop\<close>

record swap_state =
  amount_remaining :: u64
  amount_calculated :: u64
  curr_sqrt_price :: u128
  curr_tick_index :: i32
  curr_liquidity :: u128
  curr_protocol_fee :: u64
  curr_array_index :: nat
  curr_fee_growth_global_input :: u128
  swap_arrays :: swap_tick_sequence

record post_swap_update =
  amount_a :: u64
  amount_b :: u64
  next_liquidity :: u128
  next_tick_index :: i32
  next_sqrt_price :: u128
  next_fee_growth_global :: u128
  next_reward_infos :: "pool_reward_info arr3"
  next_protocol_fee :: u64

text \<open>Account for the amounts of a step.\<close>

definition swap_amounts :: "bool \<Rightarrow> swap_step \<Rightarrow> swap_state \<Rightarrow> swap_state result" where
  "swap_amounts is_input step st =
     (if is_input then
        and_then (ok_or (checked_sub (amount_remaining st) (amount_in step)) AmountRemainingOverflow) (\<lambda>rem1.
        and_then (ok_or (checked_sub rem1 (fee_amount step)) AmountRemainingOverflow) (\<lambda>rem2.
        and_then (ok_or (checked_add (amount_calculated st) (amount_out step)) AmountCalcOverflow) (\<lambda>calc.
        Ok (st\<lparr>amount_remaining := rem2, amount_calculated := calc\<rparr>))))
      else
        and_then (ok_or (checked_sub (amount_remaining st) (amount_out step)) AmountRemainingOverflow) (\<lambda>rem1.
        and_then (ok_or (checked_add (amount_calculated st) (amount_in step)) AmountCalcOverflow) (\<lambda>calc1.
        and_then (ok_or (checked_add calc1 (fee_amount step)) AmountCalcOverflow) (\<lambda>calc2.
        Ok (st\<lparr>amount_remaining := rem1, amount_calculated := calc2\<rparr>)))))"

text \<open>Cross the next tick when it is initialized.\<close>

definition swap_cross ::
  "pool \<Rightarrow> pool_reward_info arr3 \<Rightarrow> bool \<Rightarrow> nat \<Rightarrow> i32 \<Rightarrow> swap_state \<Rightarrow> swap_state result" where
  "swap_cross p infos a_to_b array_index tick_index st =
     (case seq_get_tick (swap_arrays st) array_index tick_index (tick_spacing p) of
        Inl (Err _) \<Rightarrow> Ok st
      | Inl f \<Rightarrow> Inl f
      | Inr t \<Rightarrow>
          if tick_initialized t then
            let (growth_a, growth_b) =
                  (if a_to_b then (curr_fee_growth_global_input st, fee_growth_global_b p)
                   else (fee_growth_global_a p, curr_fee_growth_global_input st))
            in
            and_then (calculate_update t a_to_b (curr_liquidity st) growth_a growth_b infos)
              (\<lambda>(upd, liq).
            and_then (seq_update_tick (swap_arrays st) array_index tick_index (tick_spacing p) upd)
              (\<lambda>arrays.
            Ok (st\<lparr>curr_liquidity := liq, swap_arrays := arrays\<rparr>)))
          else Ok st)"

text \<open>Move to the next tick: the array index advances at the border of an array.\<close>

definition swap_advance :: "pool \<Rightarrow> bool \<Rightarrow> nat \<Rightarrow> i32 \<Rightarrow> swap_state \<Rightarrow> swap_state result" where
  "swap_advance p a_to_b array_index tick_index st =
     and_then (seq_get_tick_offset (swap_arrays st) array_index tick_index (tick_spacing p)) (\<lambda>offset.
     Ok (st\<lparr>curr_array_index :=
              (if a_to_b \<and> offset = 0 \<or> \<not> a_to_b \<and> offset = TICK_ARRAY_SIZE - 1
               then array_index + 1 else array_index),
            curr_tick_index := (if a_to_b then wrap_i32 (tick_index - 1) else tick_index)\<rparr>))"

definition swap_iteration ::
  "pool \<Rightarrow> pool_reward_info arr3 \<Rightarrow> u128 \<Rightarrow> bool \<Rightarrow> bool \<Rightarrow> swap_state \<Rightarrow> swap_state result" where
  "swap_iteration p infos sqrt_price_limit is_input a_to_b st =
     and_then (seq_get_next_initialized_tick_index (swap_arrays st) (curr_tick_index st)
       (tick_spacing p) a_to_b (curr_array_index st)) (\<lambda>(array_index, tick_index).
     and_then (get_next_sqrt_prices tick_index sqrt_price_limit a_to_b) (\<lambda>(tick_price, target).
     and_then (compute_swap (amount_remaining st) (fee_rate p) (curr_liquidity st)
       (curr_sqrt_price st) target is_input a_to_b) (\<lambda>step.
     and_then (swap_amounts is_input step st) (\<lambda>st.
     and_then (calculate_fees (fee_amount step) (protocol_fee_rate p) (curr_liquidity st)
       (curr_protocol_fee st) (curr_fee_growth_global_input st)) (\<lambda>(protocol_fee, growth).
     let st = st\<lparr>curr_protocol_fee := protocol_fee, curr_fee_growth_global_input := growth\<rparr> in
     and_then (if next_price step = tick_price then
         and_then (swap_cross p infos a_to_b array_index tick_index st)
           (swap_advance p a_to_b array_index tick_index)
       else if next_price step \<noteq> curr_sqrt_price st then
         and_then (tick_index_from_sqrt_price (next_price step)) (\<lambda>t.
         Ok (st\<lparr>curr_tick_index := t\<rparr>))
       else Ok st) (\<lambda>st.
     Ok (st\<lparr>curr_sqrt_price := next_price step\<rparr>)))))))"

text \<open>The loop, with fuel \<open>swap_fuel\<close>, more than the number of ticks the arrays hold.\<close>

fun swap_loop ::
  "nat \<Rightarrow> pool \<Rightarrow> pool_reward_info arr3 \<Rightarrow> u128 \<Rightarrow> bool \<Rightarrow> bool \<Rightarrow> swap_state \<Rightarrow> swap_state result" where
  "swap_loop fuel p infos sqrt_price_limit is_input a_to_b st =
     (if amount_remaining st > 0 \<and> sqrt_price_limit \<noteq> curr_sqrt_price st then
        case fuel of
          0 \<Rightarrow> Inl Diverge
        | Suc fuel \<Rightarrow>
            and_then (swap_iteration p infos sqrt_price_limit is_input a_to_b st)
              (swap_loop fuel p infos sqrt_price_limit is_input a_to_b)
      else Ok st)"

declare swap_loop.simps [simp del]

definition swap_fuel :: "swap_tick_sequence \<Rightarrow> nat" where
  "swap_fuel arrays = 90 * length arrays + 2"

text \<open>The local variables before the loop.\<close>

definition swap_start :: "pool \<Rightarrow> swap_tick_sequence \<Rightarrow> u64 \<Rightarrow> bool \<Rightarrow> swap_state" where
  "swap_start p arrays amount a_to_b =
     \<lparr>amount_remaining = amount, amount_calculated = 0, curr_sqrt_price = sqrt_price p,
      curr_tick_index = tick_current_index p, curr_liquidity = pool_liquidity p,
      curr_protocol_fee = 0, curr_array_index = 0,
      curr_fee_growth_global_input =
        (if a_to_b then fee_growth_global_a p else fee_growth_global_b p),
      swap_arrays = arrays\<rparr>"

definition swap ::
  "pool \<Rightarrow> swap_tick_sequence \<Rightarrow> u64 \<Rightarrow> u128 \<Rightarrow> bool \<Rightarrow> bool \<Rightarrow> u64 \<Rightarrow>
   (post_swap_update \<times> swap_tick_sequence) result" where
  "swap p arrays amount sqrt_price_limit is_input a_to_b timestamp =
     (if sqrt_price_limit < MIN_SQRT_PRICE_X64 \<or> sqrt_price_limit > MAX_SQRT_PRICE_X64 then
        Fail SqrtPriceOutOfBounds
      else if a_to_b \<and> sqrt_price_limit > sqrt_price p \<or> \<not> a_to_b \<and> sqrt_price_limit < sqrt_price p then
        Fail InvalidSqrtPriceLimitDirection
      else if amount = 0 then Fail ZeroTradableAmount
      else
        and_then (next_pool_reward_infos p timestamp) (\<lambda>infos.
        and_then (swap_loop (swap_fuel arrays) p infos sqrt_price_limit is_input a_to_b
          (swap_start p arrays amount a_to_b)) (\<lambda>st.
        let (a, b) = (if a_to_b = is_input then (amount - amount_remaining st, amount_calculated st)
                      else (amount_calculated st, amount - amount_remaining st))
        in Ok (\<lparr>amount_a = a, amount_b = b, next_liquidity = curr_liquidity st,
                next_tick_index = curr_tick_index st, next_sqrt_price = curr_sqrt_price st,
                next_fee_growth_global = curr_fee_growth_global_input st,
                next_reward_infos = infos, next_protocol_fee = curr_protocol_fee st\<rparr>,
               swap_arrays st))))"

section \<open>The fees of a step\<close>

lemma calculate_protocol_fee_Ok:
  assumes "unat rate \<le> 10000"
  shows "calculate_protocol_fee fee rate = Ok (of_nat (unat fee * unat rate div 10000))"
    and "unat fee * unat rate div 10000 \<le> unat fee"
proof -
  have fee: "unat fee < 2 ^ 64" using unat_less_size [of fee] by simp
  show le: "unat fee * unat rate div 10000 \<le> unat fee"
    using mult_le_mono2 [OF assms, of "unat fee"] div_le_mono [of "unat fee * unat rate" "unat fee * 10000" 10000] by simp
  have "unat fee * unat rate \<le> 2 ^ 64 * 10000" using mult_le_mono [of "unat fee" "2 ^ 64" "unat rate" 10000] fee assms by simp
  then have m: "unat ((ucast fee :: u128) * ucast rate) = unat fee * unat rate"
    by (subst unat_mult_less) (simp_all add: unat_ucast_up)
  have "unat ((ucast fee :: u128) * ucast rate div PROTOCOL_FEE_RATE_MUL_VALUE) = unat fee * unat rate div 10000"
    unfolding unat_div m by (simp add: PROTOCOL_FEE_RATE_MUL_VALUE_def)
  moreover have "unat (of_nat (unat fee * unat rate div 10000) :: u64) = unat fee * unat rate div 10000"
    using le fee by (simp add: unat_of_nat)
  ultimately have "try_into_u64 ((ucast fee :: u128) * ucast rate div PROTOCOL_FEE_RATE_MUL_VALUE) =
      Inr (of_nat (unat fee * unat rate div 10000))" by (simp only: try_into_u64_Inr_iff)
  then show "calculate_protocol_fee fee rate = Ok (of_nat (unat fee * unat rate div 10000))"
    by (simp add: calculate_protocol_fee_def)
qed

text \<open>The fee is split between the protocol and the liquidity, and the part of the liquidity is
  spread over it.\<close>

lemma calculate_fees_spec:
  assumes "unat rate \<le> 10000"
  shows "calculate_fees fee rate L pf g =
    (let cut = unat fee * unat rate div 10000 in
     Ok (pf + of_nat cut, g + (if L = 0 then 0 else of_nat ((unat fee - cut) * 2 ^ 64 div unat L))))"
proof -
  define cut where "cut = unat fee * unat rate div 10000"
  note p = calculate_protocol_fee_Ok [OF assms, of fee, folded cut_def]
  have fee: "unat fee < 2 ^ 64" using unat_less_size [of fee] by simp
  have uc: "unat (of_nat cut :: u64) = cut" using p(2) fee by (simp add: unat_of_nat)
  have "unat (fee - of_nat cut) = unat fee - cut"
    using p(2) uc by (simp add: unat_sub word_le_nat_alt)
  then have push: "push_bit Q64_RESOLUTION (ucast (fee - of_nat cut) :: u128) div L = of_nat ((unat fee - cut) * 2 ^ 64 div unat L)"
    using fee by (intro word_of_nat_eqI)
      (simp_all add: unat_div unat_push_bit unat_ucast_up Q64_RESOLUTION_def)
  have "rate = 0 \<Longrightarrow> cut = 0" by (simp add: cut_def)
  then show ?thesis
    using p(1) push unfolding calculate_fees_def cut_def [symmetric] Let_def
    by (auto simp: word_gt_0)
qed

section \<open>Invariants of the swap loop\<close>

lemma swap_loop_invariant:
  assumes "swap_loop fuel p infos lmt inp atb st = Ok st'" "P st"
    and "\<And>st st'. P st \<Longrightarrow> amount_remaining st > 0 \<Longrightarrow> lmt \<noteq> curr_sqrt_price st \<Longrightarrow>
      swap_iteration p infos lmt inp atb st = Ok st' \<Longrightarrow> P st'"
  shows "P st' \<and> (amount_remaining st' = 0 \<or> curr_sqrt_price st' = lmt)"
  using assms(1,2)
proof (induction fuel arbitrary: st)
  case 0
  then show ?case by (subst (asm) swap_loop.simps) (auto simp: word_gt_0 split: if_splits)
next
  case (Suc fuel)
  show ?case
  proof (cases "amount_remaining st > 0 \<and> lmt \<noteq> curr_sqrt_price st")
    case True
    then obtain st1 where "swap_iteration p infos lmt inp atb st = Ok st1"
      "swap_loop fuel p infos lmt inp atb st1 = Ok st'"
      using Suc.prems(1) by (subst (asm) swap_loop.simps) (auto simp: and_then_Inr_iff)
    then show ?thesis using Suc.IH [of st1] assms(3) [of st st1] True Suc.prems(2) by blast
  next
    case False
    then show ?thesis using Suc.prems by (subst (asm) swap_loop.simps) (auto simp: word_gt_0)
  qed
qed

text \<open>What one round does, as facts on the state before and after it.\<close>

lemma swap_cross_keeps:
  assumes "swap_cross p infos atb k i st = Ok st'"
  shows "amount_remaining st' = amount_remaining st" "amount_calculated st' = amount_calculated st"
    "curr_sqrt_price st' = curr_sqrt_price st" "curr_tick_index st' = curr_tick_index st"
    "curr_array_index st' = curr_array_index st" "curr_protocol_fee st' = curr_protocol_fee st"
    "curr_fee_growth_global_input st' = curr_fee_growth_global_input st"
  using assms by (auto simp: swap_cross_def and_then_Inr_iff Let_def split: sum.splits fault.splits if_splits)

lemma swap_advance_Ok_iff:
  "swap_advance p atb k i st = Ok st' \<longleftrightarrow>
     (\<exists>offset. seq_get_tick_offset (swap_arrays st) k i (tick_spacing p) = Ok offset \<and>
       st' = st\<lparr>curr_array_index := (if atb \<and> offset = 0 \<or> \<not> atb \<and> offset = 87 then k + 1 else k),
                curr_tick_index := (if atb then wrap_i32 (i - 1) else i)\<rparr>)"
  by (auto simp: swap_advance_def and_then_Inr_iff TICK_ARRAY_SIZE_def)

lemma swap_iteration_OkE:
  assumes "swap_iteration p infos lmt inp atb st = Ok st'"
  obtains k i tick_price target step st1 pf g where
    "seq_get_next_initialized_tick_index (swap_arrays st) (curr_tick_index st) (tick_spacing p) atb
       (curr_array_index st) = Ok (k, i)"
    "get_next_sqrt_prices i lmt atb = Ok (tick_price, target)"
    "compute_swap (amount_remaining st) (fee_rate p) (curr_liquidity st) (curr_sqrt_price st) target
       inp atb = Ok step"
    "swap_amounts inp step st = Ok st1"
    "calculate_fees (fee_amount step) (protocol_fee_rate p) (curr_liquidity st) (curr_protocol_fee st)
       (curr_fee_growth_global_input st) = Ok (pf, g)"
    "curr_sqrt_price st' = next_price step"
    "amount_remaining st' = amount_remaining st1"
    "amount_calculated st' = amount_calculated st1"
    "curr_protocol_fee st' = pf"
    "curr_fee_growth_global_input st' = g"
    "if next_price step = tick_price then
       \<exists>st2. swap_cross p infos atb k i (st1\<lparr>curr_protocol_fee := pf, curr_fee_growth_global_input := g\<rparr>) = Ok st2 \<and>
         (\<exists>offset. seq_get_tick_offset (swap_arrays st2) k i (tick_spacing p) = Ok offset \<and>
           curr_liquidity st' = curr_liquidity st2 \<and> swap_arrays st' = swap_arrays st2 \<and>
           curr_array_index st' = (if atb \<and> offset = 0 \<or> \<not> atb \<and> offset = 87 then k + 1 else k) \<and>
           curr_tick_index st' = (if atb then wrap_i32 (i - 1) else i))
     else curr_liquidity st' = curr_liquidity st \<and> swap_arrays st' = swap_arrays st \<and>
       curr_array_index st' = curr_array_index st \<and>
       (if next_price step \<noteq> curr_sqrt_price st
        then tick_index_from_sqrt_price (next_price step) = Ok (curr_tick_index st')
        else curr_tick_index st' = curr_tick_index st)"
proof -
  obtain k i tick_price target step st1 pf g st2 where
    1: "seq_get_next_initialized_tick_index (swap_arrays st) (curr_tick_index st) (tick_spacing p) atb
       (curr_array_index st) = Ok (k, i)"
    "get_next_sqrt_prices i lmt atb = Ok (tick_price, target)"
    "compute_swap (amount_remaining st) (fee_rate p) (curr_liquidity st) (curr_sqrt_price st) target
       inp atb = Ok step"
    "swap_amounts inp step st = Ok st1"
    "calculate_fees (fee_amount step) (protocol_fee_rate p) (curr_liquidity st1) (curr_protocol_fee st1)
       (curr_fee_growth_global_input st1) = Ok (pf, g)" and
    2: "(if next_price step = tick_price then
         and_then (swap_cross p infos atb k i (st1\<lparr>curr_protocol_fee := pf, curr_fee_growth_global_input := g\<rparr>))
           (swap_advance p atb k i)
       else if next_price step \<noteq> curr_sqrt_price st1 then
         and_then (tick_index_from_sqrt_price (next_price step)) (\<lambda>t.
         Ok (st1\<lparr>curr_protocol_fee := pf, curr_fee_growth_global_input := g, curr_tick_index := t\<rparr>))
       else Ok (st1\<lparr>curr_protocol_fee := pf, curr_fee_growth_global_input := g\<rparr>)) = Ok st2" and
    3: "st' = st2\<lparr>curr_sqrt_price := next_price step\<rparr>"
    using assms by (auto simp: swap_iteration_def and_then_Inr_iff Let_def cong: if_cong)
  have same: "curr_sqrt_price st1 = curr_sqrt_price st" "curr_liquidity st1 = curr_liquidity st"
    "swap_arrays st1 = swap_arrays st" "curr_tick_index st1 = curr_tick_index st"
    "curr_array_index st1 = curr_array_index st" "curr_protocol_fee st1 = curr_protocol_fee st"
    "curr_fee_growth_global_input st1 = curr_fee_growth_global_input st"
    using 1(4) by (auto simp: swap_amounts_def and_then_Inr_iff split: if_splits)
  show ?thesis
    by (rule that [OF 1(1-4)]; use 1(5) 2 3 same in \<open>auto simp: swap_advance_Ok_iff and_then_Inr_iff
        dest: swap_cross_keeps split: if_splits\<close>)
qed

section \<open>Searching the sequence\<close>

lemma seq_next_loop_index:
  "seq_next_loop arrays sp atb s k = Ok (k', t) \<Longrightarrow> k \<le> k' \<and> k' < length arrays"
proof (induction "length arrays - k" arbitrary: s k)
  case 0
  then show ?case by (subst (asm) seq_next_loop.simps) simp
next
  case (Suc m)
  then have k: "k < length arrays" by simp
  obtain r where r: "get_next_init_tick_index (arrays ! k) s sp atb = Ok r"
    using Suc.prems k by (subst (asm) seq_next_loop.simps) (auto simp: Let_def and_then_Inr_iff)
  consider "k' = k" | s' where "seq_next_loop arrays sp atb s' (k + 1) = Ok (k', t)"
    using Suc.prems k r by (subst (asm) seq_next_loop.simps) (auto simp: Let_def split: if_splits option.splits)
  then show ?case
  proof cases
    case 1
    then show ?thesis using k by simp
  next
    case 2
    have "m = length arrays - (k + 1)" using Suc.hyps(2) by arith
    from Suc.hyps(1) [OF this 2] show ?thesis by simp
  qed
qed

text \<open>One step of the search loop when the array holds no further tick in the direction.\<close>

lemma seq_next_loop_found:
  assumes "k < length arrays" "get_next_init_tick_index (arrays ! k) s sp atb = Ok (Some t)"
  shows "seq_next_loop arrays sp atb s k = Ok (k, t)"
  using assms by (subst seq_next_loop.simps) (simp add: Let_def)

lemma array_end:
  assumes "tick_array_valid ta sp"
  shows "wrap_i32 (wrap_i32 (start_tick_index ta + wrap_i32 (TICK_ARRAY_SIZE * i32_of_u16 sp)) - 1) =
      start_tick_index ta + 88 * i32_of_u16 sp - 1"
    "wrap_i32 (start_tick_index ta - 1) = start_tick_index ta - 1"
    "is_max_tick_array ta sp \<longleftrightarrow> 443636 < start_tick_index ta + 88 * i32_of_u16 sp"
    "is_min_tick_array ta \<longleftrightarrow> start_tick_index ta \<le> -443636"
proof -
  note b = tick_array_validD [OF assms]
  have 1: "wrap_i32 (TICK_ARRAY_SIZE * i32_of_u16 sp) = 88 * i32_of_u16 sp"
    unfolding TICK_ARRAY_SIZE_def by (rule wrap_i32_id) (use b in linarith)+
  have 2: "wrap_i32 (start_tick_index ta + 88 * i32_of_u16 sp) = start_tick_index ta + 88 * i32_of_u16 sp"
    by (rule wrap_i32_id) (use b in linarith)+
  show "wrap_i32 (wrap_i32 (start_tick_index ta + wrap_i32 (TICK_ARRAY_SIZE * i32_of_u16 sp)) - 1) =
      start_tick_index ta + 88 * i32_of_u16 sp - 1"
    unfolding 1 2 by (rule wrap_i32_id) (use b in linarith)+
  show "wrap_i32 (start_tick_index ta - 1) = start_tick_index ta - 1"
    by (rule wrap_i32_id) (use b in linarith)+
  show "is_max_tick_array ta sp \<longleftrightarrow> 443636 < start_tick_index ta + 88 * i32_of_u16 sp"
    unfolding is_max_tick_array_def 1 2 MAX_TICK_INDEX_def by auto
  show "is_min_tick_array ta \<longleftrightarrow> start_tick_index ta \<le> -443636"
    by (simp add: is_min_tick_array_def MIN_TICK_INDEX_def)
qed

lemma initialized_at_range:
  assumes "tick_array_valid ta sp" "initialized_at ta sp u"
  shows "start_tick_index ta \<le> u" "u < start_tick_index ta + 88 * i32_of_u16 sp"
proof -
  note b = tick_array_validD [OF assms(1)]
  obtain n where n: "n < 88" "u = start_tick_index ta + int n * i32_of_u16 sp"
    using assms(2) b by (auto simp: initialized_at_iff)
  have "int n * i32_of_u16 sp < 88 * i32_of_u16 sp" "0 \<le> int n * i32_of_u16 sp" using n b by simp_all
  then show "start_tick_index ta \<le> u" "u < start_tick_index ta + 88 * i32_of_u16 sp" using n by simp_all
qed

lemma get_next_range:
  "get_next_init_tick_index ta s sp atb = Ok r \<Longrightarrow> in_search_range ta s sp (\<not> atb)"
  by (simp add: get_next_init_tick_index_def split: if_splits)

text \<open>Starts of valid arrays are multiples of the length of an array.\<close>

lemma arrays_apart:
  assumes "tick_array_valid ta sp" "tick_array_valid tb sp" "start_tick_index tb < start_tick_index ta"
  shows "start_tick_index tb + 88 * i32_of_u16 sp \<le> start_tick_index ta"
proof -
  let ?w = "88 * i32_of_u16 sp" and ?d = "start_tick_index ta - start_tick_index tb"
  have "?w dvd start_tick_index ta" "?w dvd start_tick_index tb"
    using assms(1,2) valid_start_tickD(1) by (auto simp: tick_array_valid_def)
  then have "?w dvd ?d" by (rule dvd_diff)
  then have "?w \<le> ?d" using assms(3) by (intro zdvd_imp_le) simp_all
  then show ?thesis by simp
qed

text \<open>
  Going down, the search returns a tick at or below the start, there is no initialised tick
  between the two in the arrays it visited, and a tick that is not initialised is the smallest
  tick of all or the start of the last array.
\<close>

lemma seq_next_loop_down:
  assumes "\<forall>ta\<in>set arrays. tick_array_valid ta sp"
    and "seq_next_loop arrays sp True s k = Ok (k', t)" "-443636 \<le> s"
  shows "t \<le> s \<and> (\<forall>j u. k \<le> j \<and> j \<le> k' \<and> initialized_at (arrays ! j) sp u \<and> u \<le> s \<longrightarrow> u \<le> t) \<and>
    (initialized_at (arrays ! k') sp t \<or> t = -443636 \<or>
     k' = length arrays - 1 \<and> t = start_tick_index (arrays ! k')) \<and>
    (\<forall>j. k \<le> j \<and> j \<le> k' \<longrightarrow> start_tick_index (arrays ! j) \<le> s)"
  using assms(2,3)
proof (induction "length arrays - k" arbitrary: s k)
  case 0
  then show ?case by (subst (asm) seq_next_loop.simps) simp
next
  case (Suc m)
  let ?ta = "arrays ! k"
  have k: "k < length arrays" using Suc.hyps(2) by simp
  then have v: "tick_array_valid ?ta sp" using assms(1) by simp
  note e = array_end [OF v]
  obtain r where r: "get_next_init_tick_index ?ta s sp True = Ok r"
    using Suc.prems(1) k by (subst (asm) seq_next_loop.simps) (auto simp: Let_def and_then_Inr_iff)
  have rng: "in_search_range ?ta s sp False" using get_next_range [OF r] by simp
  then have lo: "start_tick_index ?ta \<le> s" by (simp add: in_search_range_iff [OF v])
  note g = get_next_init_tick_index_down [OF v rng]
  show ?case
  proof (cases r)
    case (Some t0)
    then have "k' = k \<and> t = t0" using Suc.prems(1) seq_next_loop_found [OF k, of s sp True t0] r by simp
    then show ?thesis using g r Some lo by (auto simp: le_antisym)
  next
    case None
    then have none: "\<And>u. initialized_at ?ta sp u \<Longrightarrow> s < u" using g r by auto
    show ?thesis
    proof (cases "is_min_tick_array ?ta \<or> k + 1 = length arrays")
      case True
      then have "k' = k \<and> (t = -443636 \<or> k = length arrays - 1 \<and> t = start_tick_index ?ta)"
        using Suc.prems(1) k r None by (subst (asm) seq_next_loop.simps)
          (auto simp: Let_def MIN_TICK_INDEX_def split: if_splits)
      then show ?thesis using none lo Suc.prems(2) by force
    next
      case False
      then have rec: "seq_next_loop arrays sp True (start_tick_index ?ta - 1) (k + 1) = Ok (k', t)"
        using Suc.prems(1) k r None e by (subst (asm) seq_next_loop.simps) (simp add: Let_def)
      have "-443636 \<le> start_tick_index ?ta - 1" using False e by simp
      from Suc.hyps(1) [OF _ rec this] Suc.hyps(2) have ih:
        "t \<le> start_tick_index ?ta - 1"
        "\<And>j u. k + 1 \<le> j \<Longrightarrow> j \<le> k' \<Longrightarrow> initialized_at (arrays ! j) sp u \<Longrightarrow> u \<le> start_tick_index ?ta - 1 \<Longrightarrow> u \<le> t"
        "initialized_at (arrays ! k') sp t \<or> t = -443636 \<or> k' = length arrays - 1 \<and> t = start_tick_index (arrays ! k')"
        "\<And>j. k + 1 \<le> j \<Longrightarrow> j \<le> k' \<Longrightarrow> start_tick_index (arrays ! j) \<le> start_tick_index ?ta - 1"
        by auto
      have "u \<le> t" if "k \<le> j" "j \<le> k'" "initialized_at (arrays ! j) sp u" "u \<le> s" for j u
      proof (cases "j = k")
        case True
        then show ?thesis using none [of u] that by simp
      next
        case False
        then have j: "k + 1 \<le> j" using that by simp
        have "j < length arrays" using seq_next_loop_index [OF rec] that by simp
        then have vj: "tick_array_valid (arrays ! j) sp" using assms(1) by simp
        have "start_tick_index (arrays ! j) + 88 * i32_of_u16 sp \<le> start_tick_index ?ta"
          by (rule arrays_apart [OF v vj]) (use ih(4) [OF j that(2)] in simp)
        then have "u \<le> start_tick_index ?ta - 1" using initialized_at_range(2) [OF vj that(3)] by simp
        then show ?thesis using ih(2) [OF j that(2,3)] by simp
      qed
      moreover have "start_tick_index (arrays ! j) \<le> s" if "k \<le> j" "j \<le> k'" for j
        using that ih(4) [of j] lo by (cases "j = k") auto
      ultimately show ?thesis using ih(1,3) lo by auto
    qed
  qed
qed

text \<open>Going up, it returns a tick above the start.\<close>

lemma seq_next_loop_up:
  assumes "\<forall>ta\<in>set arrays. tick_array_valid ta sp"
    and "seq_next_loop arrays sp False s k = Ok (k', t)" "s < 443636"
  shows "s < t \<and> (\<forall>j u. k \<le> j \<and> j \<le> k' \<and> initialized_at (arrays ! j) sp u \<and> s < u \<longrightarrow> t \<le> u) \<and>
    (initialized_at (arrays ! k') sp t \<or> t = 443636 \<or>
     k' = length arrays - 1 \<and> t = start_tick_index (arrays ! k') + 88 * i32_of_u16 sp - 1) \<and>
    (\<forall>j. k \<le> j \<and> j \<le> k' \<longrightarrow> s < start_tick_index (arrays ! j) + 88 * i32_of_u16 sp - 1)"
  using assms(2,3)
proof (induction "length arrays - k" arbitrary: s k)
  case 0
  then show ?case by (subst (asm) seq_next_loop.simps) simp
next
  case (Suc m)
  let ?ta = "arrays ! k" let ?last = "start_tick_index (arrays ! k) + 88 * i32_of_u16 sp - 1"
  have k: "k < length arrays" using Suc.hyps(2) by simp
  then have v: "tick_array_valid ?ta sp" using assms(1) by simp
  note e = array_end [OF v]
  have r0: "0 < i32_of_u16 sp" using tick_array_validD [OF v] by simp
  obtain r where r: "get_next_init_tick_index ?ta s sp False = Ok r"
    using Suc.prems(1) k by (subst (asm) seq_next_loop.simps) (auto simp: Let_def and_then_Inr_iff)
  have rng: "in_search_range ?ta s sp True" using get_next_range [OF r] by simp
  then have hi: "s < ?last" using r0 by (simp add: in_search_range_iff [OF v])
  note g = get_next_init_tick_index_up [OF v rng]
  show ?case
  proof (cases r)
    case (Some t0)
    then have "k' = k \<and> t = t0" using Suc.prems(1) seq_next_loop_found [OF k, of s sp False t0] r by simp
    then show ?thesis using g r Some hi by (auto simp: le_antisym)
  next
    case None
    then have none: "\<And>u. initialized_at ?ta sp u \<Longrightarrow> u \<le> s" using g r by auto
    show ?thesis
    proof (cases "is_max_tick_array ?ta sp \<or> k + 1 = length arrays")
      case True
      then have "k' = k \<and> (t = 443636 \<or> k = length arrays - 1 \<and> t = ?last)"
        using Suc.prems(1) k r None e by (subst (asm) seq_next_loop.simps)
          (auto simp: Let_def MAX_TICK_INDEX_def split: if_splits)
      then show ?thesis using none hi Suc.prems(2) by force
    next
      case False
      then have rec: "seq_next_loop arrays sp False ?last (k + 1) = Ok (k', t)"
        using Suc.prems(1) k r None e by (subst (asm) seq_next_loop.simps) (simp add: Let_def)
      have "?last < 443636" using False e by simp
      from Suc.hyps(1) [OF _ rec this] Suc.hyps(2) have ih:
        "?last < t"
        "\<And>j u. k + 1 \<le> j \<Longrightarrow> j \<le> k' \<Longrightarrow> initialized_at (arrays ! j) sp u \<Longrightarrow> ?last < u \<Longrightarrow> t \<le> u"
        "initialized_at (arrays ! k') sp t \<or> t = 443636 \<or>
         k' = length arrays - 1 \<and> t = start_tick_index (arrays ! k') + 88 * i32_of_u16 sp - 1"
        "\<And>j. k + 1 \<le> j \<Longrightarrow> j \<le> k' \<Longrightarrow> ?last < start_tick_index (arrays ! j) + 88 * i32_of_u16 sp - 1"
        by auto
      have "t \<le> u" if "k \<le> j" "j \<le> k'" "initialized_at (arrays ! j) sp u" "s < u" for j u
      proof (cases "j = k")
        case True
        then show ?thesis using none [of u] that by simp
      next
        case False
        then have j: "k + 1 \<le> j" using that by simp
        have "j < length arrays" using seq_next_loop_index [OF rec] that by simp
        then have vj: "tick_array_valid (arrays ! j) sp" using assms(1) by simp
        have "start_tick_index ?ta + 88 * i32_of_u16 sp \<le> start_tick_index (arrays ! j)"
          by (rule arrays_apart [OF vj v]) (use ih(4) [OF j that(2)] in simp)
        then have "?last < u" using initialized_at_range(1) [OF vj that(3)] by simp
        then show ?thesis using ih(2) [OF j that(2,3)] by simp
      qed
      moreover have "s < start_tick_index (arrays ! j) + 88 * i32_of_u16 sp - 1" if "k \<le> j" "j \<le> k'" for j
        using that ih(4) [of j] hi by (cases "j = k") auto
      ultimately show ?thesis using ih(1,3) hi by auto
    qed
  qed
qed

text \<open>Each array of the sequence is a store of ticks, by way of the array's own interface.\<close>

definition seq_valid :: "swap_tick_sequence \<Rightarrow> u16 \<Rightarrow> bool" where
  "seq_valid arrays spacing \<longleftrightarrow> list_all (\<lambda>ta. tick_array_valid ta spacing) arrays"

lemma seq_validD: "seq_valid arrays sp \<Longrightarrow> k < length arrays \<Longrightarrow> tick_array_valid (arrays ! k) sp"
  by (simp add: seq_valid_def list_all_length)

lemma seq_update_tick_Ok_iff:
  "seq_update_tick arrays k i sp t = Ok arrays' \<longleftrightarrow>
    k < length arrays \<and> (\<exists>ta. update_tick (arrays ! k) i sp t = Ok ta \<and> arrays' = arrays[k := ta])"
  by (auto simp: seq_update_tick_def seq_array_def and_then_Inr_iff split: option.splits if_splits)

lemma seq_get_tick_Ok_iff:
  "seq_get_tick arrays k i sp = Ok t \<longleftrightarrow> k < length arrays \<and> get_tick (arrays ! k) i sp = Ok t"
  by (auto simp: seq_get_tick_def seq_array_def split: option.splits if_splits)

interpretation seq_store: tick_store "\<lambda>arrays i. seq_get_tick arrays k i sp"
    "\<lambda>arrays i t. seq_update_tick arrays k i sp t" "\<lambda>arrays. seq_valid arrays sp" for k sp
proof unfold_locales
  fix s i t s' j
  assume v: "seq_valid s sp"
  show "seq_valid s' sp" if u: "seq_update_tick s k i sp t = Ok s'"
  proof -
    obtain ta where "k < length s" "update_tick (s ! k) i sp t = Ok ta" "s' = s[k := ta]"
      using u by (auto simp: seq_update_tick_Ok_iff)
    then show ?thesis
      using v array_store.upd_valid [of "s ! k" sp i t ta] seq_validD [OF v, of k]
      by (auto simp: seq_valid_def list_all_iff dest: set_update_subset_insert [THEN subsetD])
  qed
  show "seq_get_tick s' k j sp = (if j = i then Ok t else seq_get_tick s k j sp)"
    if u: "seq_update_tick s k i sp t = Ok s'"
  proof -
    obtain ta where "k < length s" "update_tick (s ! k) i sp t = Ok ta" "s' = s[k := ta]"
      using u by (auto simp: seq_update_tick_Ok_iff)
    then show ?thesis
      using array_store.get_upd [of "s ! k" sp i t ta j] seq_validD [OF v, of k]
      by (simp add: seq_get_tick_def seq_array_def)
  qed
  show "(\<exists>s'. seq_update_tick s k i sp t = Ok s') = (\<exists>u. seq_get_tick s k i sp = Ok u)"
    using array_store.upd_defined [of "s ! k" sp i t] seq_validD [OF v, of k]
    by (auto simp: seq_update_tick_Ok_iff seq_get_tick_Ok_iff)
qed

section \<open>The amounts of a swap\<close>

lemma swap_OkE:
  assumes "swap p arrays amount lmt inp atb ts = Ok (upd, arrays')"
  obtains infos st where
    "MIN_SQRT_PRICE_X64 \<le> lmt" "lmt \<le> MAX_SQRT_PRICE_X64"
    "if atb then lmt \<le> sqrt_price p else sqrt_price p \<le> lmt" "amount \<noteq> 0"
    "next_pool_reward_infos p ts = Ok infos"
    "swap_loop (swap_fuel arrays) p infos lmt inp atb (swap_start p arrays amount atb) = Ok st"
    "amount_a upd = (if atb = inp then amount - amount_remaining st else amount_calculated st)"
    "amount_b upd = (if atb = inp then amount_calculated st else amount - amount_remaining st)"
    "next_liquidity upd = curr_liquidity st" "next_tick_index upd = curr_tick_index st"
    "next_sqrt_price upd = curr_sqrt_price st" "next_protocol_fee upd = curr_protocol_fee st"
    "next_fee_growth_global upd = curr_fee_growth_global_input st"
    "next_reward_infos upd = infos" "arrays' = swap_arrays st"
proof -
  have g: "\<not> (lmt < MIN_SQRT_PRICE_X64 \<or> lmt > MAX_SQRT_PRICE_X64)"
    "\<not> (atb \<and> lmt > sqrt_price p \<or> \<not> atb \<and> lmt < sqrt_price p)" "amount \<noteq> 0"
    using assms unfolding swap_def by (auto split: if_splits)
  obtain infos st where s: "next_pool_reward_infos p ts = Ok infos"
    "swap_loop (swap_fuel arrays) p infos lmt inp atb (swap_start p arrays amount atb) = Ok st" and
    r: "(let (a, b) = (if atb = inp then (amount - amount_remaining st, amount_calculated st)
                      else (amount_calculated st, amount - amount_remaining st))
        in Ok (\<lparr>amount_a = a, amount_b = b, next_liquidity = curr_liquidity st,
                next_tick_index = curr_tick_index st, next_sqrt_price = curr_sqrt_price st,
                next_fee_growth_global = curr_fee_growth_global_input st,
                next_reward_infos = infos, next_protocol_fee = curr_protocol_fee st\<rparr>,
               swap_arrays st)) = Ok (upd, arrays')"
    using assms unfolding swap_def if_not_P [OF g(1)] if_not_P [OF g(2)] if_not_P [OF g(3)] and_then_Inr_iff
    by blast
  show ?thesis
    by (rule that [OF _ _ _ g(3) s]) (use g(1,2) r in \<open>cases "atb = inp"; cases atb; auto\<close>)+
qed

lemma swap_amounts_le:
  "swap_amounts inp step st = Ok st' \<Longrightarrow> amount_remaining st' \<le> amount_remaining st"
  by (auto simp: swap_amounts_def and_then_Inr_iff checked_sub_Some_iff word_le_nat_alt split: if_splits)

lemma swap_iteration_amount_le:
  "swap_iteration p infos lmt inp atb st = Ok st' \<Longrightarrow> amount_remaining st' \<le> amount_remaining st"
  by (erule swap_iteration_OkE) (use swap_amounts_le in simp)

text \<open>A swap only updates ticks: the arrays keep their number, their starts and their pool, and
  stay valid.\<close>

definition same_arrays :: "swap_tick_sequence \<Rightarrow> swap_tick_sequence \<Rightarrow> bool" where
  "same_arrays xs ys \<longleftrightarrow> map start_tick_index xs = map start_tick_index ys \<and>
     map tick_array_pool xs = map tick_array_pool ys"

lemma same_arrays_refl [simp]: "same_arrays xs xs"
  by (simp add: same_arrays_def)

lemma same_arrays_trans [trans]: "same_arrays xs ys \<Longrightarrow> same_arrays ys zs \<Longrightarrow> same_arrays xs zs"
  by (simp add: same_arrays_def)

lemma same_arrays_length: "same_arrays xs ys \<Longrightarrow> length xs = length ys"
  unfolding same_arrays_def by (metis length_map)

lemma seq_update_tick_same:
  "seq_update_tick arrays k i sp t = Ok arrays' \<Longrightarrow> same_arrays arrays arrays'"
  by (auto simp: seq_update_tick_Ok_iff update_tick_Ok_iff same_arrays_def map_update
      intro!: list_update_same_conv [THEN iffD2, symmetric])

lemma swap_cross_arrays:
  assumes "swap_cross p infos atb k i st = Ok st'"
  shows "same_arrays (swap_arrays st) (swap_arrays st')"
    and "seq_valid (swap_arrays st) (tick_spacing p) \<Longrightarrow> seq_valid (swap_arrays st') (tick_spacing p)"
proof -
  have "swap_arrays st' = swap_arrays st \<or>
    (\<exists>t. seq_update_tick (swap_arrays st) k i (tick_spacing p) t = Ok (swap_arrays st'))"
    using assms by (auto simp: swap_cross_def and_then_Inr_iff Let_def split: sum.splits fault.splits if_splits)
  then consider "swap_arrays st' = swap_arrays st" |
    t where "seq_update_tick (swap_arrays st) k i (tick_spacing p) t = Ok (swap_arrays st')" by blast
  then show "same_arrays (swap_arrays st) (swap_arrays st')"
    "seq_valid (swap_arrays st) (tick_spacing p) \<Longrightarrow> seq_valid (swap_arrays st') (tick_spacing p)"
    by (cases; use seq_update_tick_same seq_store.upd_valid in auto)+
qed

lemma swap_iteration_arrays:
  assumes "swap_iteration p infos lmt inp atb st = Ok st'"
  shows "same_arrays (swap_arrays st) (swap_arrays st')"
    and "seq_valid (swap_arrays st) (tick_spacing p) \<Longrightarrow> seq_valid (swap_arrays st') (tick_spacing p)"
proof -
  obtain k i step st1 pf g st2 where "swap_amounts inp step st = Ok st1" and
    s: "swap_arrays st' = swap_arrays st \<or>
      swap_cross p infos atb k i (st1\<lparr>curr_protocol_fee := pf, curr_fee_growth_global_input := g\<rparr>) = Ok st2 \<and>
      swap_arrays st' = swap_arrays st2"
    by (rule swap_iteration_OkE [OF assms]) (metis (no_types, lifting))
  then have e: "swap_arrays st1 = swap_arrays st"
    by (auto simp: swap_amounts_def and_then_Inr_iff split: if_splits)
  show "same_arrays (swap_arrays st) (swap_arrays st')"
    "seq_valid (swap_arrays st) (tick_spacing p) \<Longrightarrow> seq_valid (swap_arrays st') (tick_spacing p)"
    using s swap_cross_arrays [of p infos atb k i
        "st1\<lparr>curr_protocol_fee := pf, curr_fee_growth_global_input := g\<rparr>" st2] e by auto
qed

lemma swap_arrays_preserved:
  assumes "swap p arrays amount lmt inp atb ts = Ok (upd, arrays')"
  shows "same_arrays arrays arrays'"
    and "seq_valid arrays (tick_spacing p) \<Longrightarrow> seq_valid arrays' (tick_spacing p)"
proof -
  let ?P = "\<lambda>st. same_arrays arrays (swap_arrays st) \<and>
    (seq_valid arrays (tick_spacing p) \<longrightarrow> seq_valid (swap_arrays st) (tick_spacing p))"
  obtain infos st where
    l: "swap_loop (swap_fuel arrays) p infos lmt inp atb (swap_start p arrays amount atb) = Ok st"
    and a: "arrays' = swap_arrays st"
    by (rule swap_OkE [OF assms])
  have start: "?P (swap_start p arrays amount atb)" by (simp add: swap_start_def)
  have step: "?P st''" if "?P st'" "swap_iteration p infos lmt inp atb st' = Ok st''" for st' st''
    using that swap_iteration_arrays [OF that(2)] same_arrays_trans by blast
  have "?P st \<and> (amount_remaining st = 0 \<or> curr_sqrt_price st = lmt)"
    by (rule swap_loop_invariant [where P = ?P, OF l]) (rule start, erule step, assumption)
  then show "same_arrays arrays arrays'"
    "seq_valid arrays (tick_spacing p) \<Longrightarrow> seq_valid arrays' (tick_spacing p)"
    using a by simp_all
qed

lemma swap_specified_amount:
  assumes "swap p arrays amount lmt inp atb ts = Ok (upd, arrays')"
  shows "(if atb = inp then amount_a upd else amount_b upd) \<le> amount"
    and "(if atb = inp then amount_a upd else amount_b upd) = amount \<or> next_sqrt_price upd = lmt"
proof -
  obtain infos st where
    l: "swap_loop (swap_fuel arrays) p infos lmt inp atb (swap_start p arrays amount atb) = Ok st"
    and s: "amount_a upd = (if atb = inp then amount - amount_remaining st else amount_calculated st)"
    "amount_b upd = (if atb = inp then amount_calculated st else amount - amount_remaining st)"
    "next_sqrt_price upd = curr_sqrt_price st"
    by (rule swap_OkE [OF assms])
  have start: "amount_remaining (swap_start p arrays amount atb) \<le> amount" by (simp add: swap_start_def)
  have step: "amount_remaining st'' \<le> amount"
    if "amount_remaining st' \<le> amount" "swap_iteration p infos lmt inp atb st' = Ok st''" for st' st''
    using swap_iteration_amount_le [OF that(2)] that(1) by (rule order_trans)
  have "amount_remaining st \<le> amount \<and> (amount_remaining st = 0 \<or> curr_sqrt_price st = lmt)"
    by (rule swap_loop_invariant [where P = "\<lambda>st. amount_remaining st \<le> amount", OF l])
      (rule start, erule step, assumption)
  then show "(if atb = inp then amount_a upd else amount_b upd) \<le> amount"
    "(if atb = inp then amount_a upd else amount_b upd) = amount \<or> next_sqrt_price upd = lmt"
    using s by (auto simp: word_le_nat_alt unat_sub)
qed

section \<open>Correctness of fees and swaps\<close>

text \<open>C36: A swap step's fee is split without loss: the protocol receives
  \<open>floor (fee * rate / 10000)\<close>, never more than the fee, and the growth of the fees per unit of
  liquidity rises by \<open>floor (rest * 2^64 / liquidity)\<close>, so what the liquidity providers can claim
  is at most the rest. With no liquidity in range the growth is unchanged.\<close>

theorem calculate_fees_correct:
  assumes "unat rate \<le> 10000"
  shows "\<exists>cut. cut = unat fee * unat rate div 10000 \<and> cut \<le> unat fee \<and>
    calculate_fees fee rate L pf g =
      Ok (pf + of_nat cut, g + (if L = 0 then 0 else of_nat ((unat fee - cut) * 2 ^ 64 div unat L))) \<and>
    unat L * ((unat fee - cut) * 2 ^ 64 div unat L) \<le> (unat fee - cut) * 2 ^ 64"
proof -
  have "unat fee * unat rate div 10000 \<le> unat fee * 10000 div 10000"
    using assms by (intro div_le_mono mult_le_mono) simp_all
  then show ?thesis using calculate_fees_spec [OF assms, of fee L pf g] by (simp add: Let_def)
qed

lemma calculate_fees_correct_witness: "calculate_fees 1000 2500 10 7 5 = Ok (257, 1383505805528216371205)"
proof -
  have "unat (2500 :: u16) \<le> 10000" by simp
  then show ?thesis using calculate_fees_correct [of 2500 1000 10 7 5] by simp
qed

text \<open>C18: A swap never moves more of the token whose amount was specified than that amount, and
  stops early only when the price has reached the limit. The other account data it touches are
  ticks: the tick arrays keep their number, their start indices and their pool, and stay valid.\<close>

theorem swap_trades_at_most_amount:
  assumes "swap p arrays amount lmt inp atb ts = Ok (upd, arrays')"
  shows "(if atb = inp then amount_a upd else amount_b upd) \<le> amount \<and>
    ((if atb = inp then amount_a upd else amount_b upd) = amount \<or> next_sqrt_price upd = lmt) \<and>
    map start_tick_index arrays' = map start_tick_index arrays \<and>
    map tick_array_pool arrays' = map tick_array_pool arrays \<and>
    (seq_valid arrays (tick_spacing p) \<longrightarrow> seq_valid arrays' (tick_spacing p))"
  using swap_specified_amount [OF assms] swap_arrays_preserved [OF assms] by (simp add: same_arrays_def)

definition sample_swap_pool :: pool where
  "sample_swap_pool = default_pool\<lparr>tick_spacing := 64, fee_rate := 3000, protocol_fee_rate := 300,
     pool_liquidity := 1000000, sqrt_price := 2 ^ 64\<rparr>"

definition sample_swap_array :: tick_array where
  "sample_swap_array = default_tick_array\<lparr>start_tick_index := 0\<rparr>"

text \<open>The rounds of a small swap, evaluated step by step.\<close>

lemma swap_fuel_one: "swap_fuel [ta] = Suc (Suc 90)"
  by (simp add: swap_fuel_def)

lemma sample_round:
  assumes c: "compute_swap amount 3000 1000000 18446744073709551616 19599665578316398592 True False =
      Ok \<lparr>amount_in = paid, amount_out = got, next_price = price, fee_amount = 3\<rparr>"
    and k: "tick_index_from_sqrt_price price = Ok tick"
    and a: "checked_sub amount paid = Some 3" "amount \<noteq> 0"
    and p: "price \<noteq> 24444953783141064184" "price \<noteq> 18446744073709551616"
  shows "swap sample_swap_pool [sample_swap_array] amount 19599665578316398592 True False 0 =
     Ok (\<lparr>amount_a = got, amount_b = amount, next_liquidity = 1000000, next_tick_index = tick,
          next_sqrt_price = price, next_fee_growth_global = 55340232221128,
          next_reward_infos = arr_const default_reward_info, next_protocol_fee = 0\<rparr>,
         [sample_swap_array])"
proof -
  let ?st = "swap_start sample_swap_pool [sample_swap_array] amount False"
  let ?infos = "arr_const default_reward_info"
  let ?st' = "\<lparr>amount_remaining = 0, amount_calculated = got, curr_sqrt_price = price,
        curr_tick_index = tick, curr_liquidity = 1000000, curr_protocol_fee = 0,
        curr_array_index = 0, curr_fee_growth_global_input = 55340232221128,
        swap_arrays = [sample_swap_array]\<rparr>"
  have i: "next_pool_reward_infos sample_swap_pool 0 = Ok ?infos" by code_simp
  have n: "seq_get_next_initialized_tick_index [sample_swap_array] 0 64 False 0 = Ok (0, 5631)"
    by code_simp
  have t: "get_next_sqrt_prices 5631 19599665578316398592 False =
    Ok (24444953783141064184, 19599665578316398592)" by code_simp
  have f: "calculate_fees 3 300 1000000 0 0 = Ok (0, 55340232221128)" by code_simp
  have u: "unat got < 18446744073709551616" using unat_less_size [of got] by simp
  have it: "swap_iteration sample_swap_pool ?infos 19599665578316398592 True False ?st = Ok ?st'"
    using n t c f k a p u
    by (simp add: swap_iteration_def swap_start_def swap_amounts_def sample_swap_pool_def
        default_pool_def checked_add_def checked_sub_def [of 3] Let_def)
  then have "swap_loop (swap_fuel [sample_swap_array]) sample_swap_pool ?infos 19599665578316398592
      True False ?st = Ok ?st'"
    using a(2) unfolding swap_fuel_one
    by (simp add: swap_loop.simps swap_start_def sample_swap_pool_def default_pool_def word_gt_0)
  with i a(2) show ?thesis
    by (simp add: swap_def MIN_SQRT_PRICE_X64_def MAX_SQRT_PRICE_X64_def sample_swap_pool_def default_pool_def)
qed

lemma sample_swap:
  "swap sample_swap_pool [sample_swap_array] 1000 19599665578316398592 True False 0 =
     Ok (\<lparr>amount_a = 996, amount_b = 1000, next_liquidity = 1000000, next_tick_index = 19,
          next_sqrt_price = 18465135477551040038, next_fee_growth_global = 55340232221128,
          next_reward_infos = arr_const default_reward_info, next_protocol_fee = 0\<rparr>,
         [sample_swap_array])"
proof (rule sample_round)
  show "compute_swap 1000 3000 1000000 18446744073709551616 19599665578316398592 True False =
    Ok \<lparr>amount_in = 997, amount_out = 996, next_price = 18465135477551040038, fee_amount = 3\<rparr>"
    by code_simp
  show "tick_index_from_sqrt_price 18465135477551040038 = Ok 19" by code_simp
qed (simp_all add: checked_sub_def)

lemma swap_trades_at_most_amount_witness:
  "\<exists>upd arrays'. swap sample_swap_pool [sample_swap_array] 1000 19599665578316398592 True False 0 =
     Ok (upd, arrays') \<and> amount_b upd \<le> 1000 \<and> map start_tick_index arrays' = [0]"
  using swap_trades_at_most_amount [OF sample_swap] sample_swap by (auto simp: sample_swap_array_def)

end
