(* ===== verification/Accounts.thy ===== *)
theory Accounts
  imports Liquidity_Manager Swap_Manager
begin

text \<open>
  The accounts that the instructions read and write, and the parts of the platform they rely
  on. The program's own accounts are maps from keys to the records of the \<open>State\<close> theories.
  Code outside the repository is a parameter: the SPL token program and the metadata program
  are the functions of \<open>token_ops\<close> on a ledger of token accounts and mints, the derivation of
  program addresses is \<open>create_program_address\<close> and \<open>find_program_address\<close>, and the clock,
  the signatures of the transaction and the base-58 text of a key are fields of \<open>env\<close>.
\<close>

section \<open>Token accounts\<close>

text \<open>The fields of \<open>anchor_spl::token::TokenAccount\<close> and \<open>Mint\<close> that the program reads.\<close>

record token_account =
  ta_mint :: pubkey
  ta_owner :: pubkey
  ta_amount :: u64
  ta_delegate :: "pubkey option"
  ta_delegated_amount :: u64

record mint_account =
  mint_decimals :: u8

record ledger =
  token_accounts :: "pubkey \<rightharpoonup> token_account"
  mints :: "pubkey \<rightharpoonup> mint_account"

text \<open>
  The calls into other programs: the arguments are the accounts and the amounts that the
  code passes, the authority is the account that signs the call.
\<close>

record token_ops =
  op_transfer :: "ledger \<Rightarrow> pubkey \<Rightarrow> pubkey \<Rightarrow> pubkey \<Rightarrow> u64 \<Rightarrow> ledger result"
  op_burn_checked :: "ledger \<Rightarrow> pubkey \<Rightarrow> pubkey \<Rightarrow> pubkey \<Rightarrow> u64 \<Rightarrow> u8 \<Rightarrow> ledger result"
  op_close_account :: "ledger \<Rightarrow> pubkey \<Rightarrow> pubkey \<Rightarrow> pubkey \<Rightarrow> ledger result"
  op_mint_to :: "ledger \<Rightarrow> pubkey \<Rightarrow> pubkey \<Rightarrow> pubkey \<Rightarrow> u64 \<Rightarrow> ledger result"
  op_set_mint_authority :: "ledger \<Rightarrow> pubkey \<Rightarrow> pubkey option \<Rightarrow> pubkey \<Rightarrow> ledger result"
  op_create_metadata :: "ledger \<Rightarrow> pubkey \<Rightarrow> pubkey \<Rightarrow> pubkey \<Rightarrow> pubkey \<Rightarrow> pubkey \<Rightarrow> string \<Rightarrow> string \<Rightarrow> string \<Rightarrow> ledger result"
  op_init_account :: "ledger \<Rightarrow> pubkey \<Rightarrow> pubkey \<Rightarrow> pubkey \<Rightarrow> ledger result"
  op_init_mint :: "ledger \<Rightarrow> pubkey \<Rightarrow> pubkey \<Rightarrow> u8 \<Rightarrow> ledger result"

datatype seed = Seed_Text string | Seed_Key pubkey | Seed_Bytes "u8 list"

record env =
  ops :: token_ops
  create_program_address :: "seed list \<Rightarrow> pubkey"
  find_program_address :: "seed list \<Rightarrow> pubkey \<times> u8"
  unix_timestamp :: i64
  is_signer :: "pubkey \<Rightarrow> bool"
  key_to_string :: "pubkey \<Rightarrow> string"
  int_to_string :: "int \<Rightarrow> string"
  token_ID :: pubkey
  metadata_ID :: pubkey

section \<open>The program's accounts\<close>

record chain_state =
  configs :: "pubkey \<rightharpoonup> pools_config"
  fee_tiers :: "pubkey \<rightharpoonup> fee_tier"
  pools :: "pubkey \<rightharpoonup> pool"
  positions :: "pubkey \<rightharpoonup> position"
  bundles :: "pubkey \<rightharpoonup> position_bundle"
  tick_arrays :: tick_array_store
  tokens :: ledger

section \<open>Account constraints\<close>

text \<open>
  The guards that Anchor generates from \<open>#[account(...)]\<close>: a missing account, a wrong type,
  a missing signature, a failed \<open>address\<close>, \<open>has_one\<close> or \<open>constraint\<close> all reject the
  instruction before its handler runs.
\<close>

definition require :: "bool \<Rightarrow> unit result" where
  "require b = (if b then Ok () else Inl Constraint)"

definition account :: "(pubkey \<rightharpoonup> 'a) \<Rightarrow> pubkey \<Rightarrow> 'a result" where
  "account m key = (case m key of None \<Rightarrow> Inl Constraint | Some x \<Rightarrow> Ok x)"

definition signer :: "env \<Rightarrow> pubkey \<Rightarrow> unit result" where
  "signer e key = require (is_signer e key)"

text \<open>\<open>init\<close> creates an account that does not exist yet.\<close>

definition unused :: "chain_state \<Rightarrow> pubkey \<Rightarrow> bool" where
  "unused s key \<longleftrightarrow> configs s key = None \<and> fee_tiers s key = None \<and> pools s key = None \<and>
     positions s key = None \<and> bundles s key = None \<and> tick_arrays s key = None \<and>
     token_accounts (tokens s) key = None \<and> mints (tokens s) key = None"

definition init_account :: "chain_state \<Rightarrow> pubkey \<Rightarrow> unit result" where
  "init_account s key = require (unused s key)"

text \<open>\<open>seeds = [...], bump\<close>: the account is the address derived from the seeds.\<close>

definition seeds_account :: "env \<Rightarrow> seed list \<Rightarrow> pubkey \<Rightarrow> unit result" where
  "seeds_account e seeds key = require (fst (find_program_address e seeds) = key)"

lemma require_Inr_iff [simp]: "require b = Inr u \<longleftrightarrow> b"
  by (simp add: require_def)

lemma account_Inr_iff [simp]: "account m key = Inr x \<longleftrightarrow> m key = Some x"
  by (simp add: account_def split: option.splits)

lemma signer_Inr_iff [simp]: "signer e key = Inr u \<longleftrightarrow> is_signer e key"
  by (simp add: signer_def)

lemma init_account_Inr_iff [simp]: "init_account s key = Inr u \<longleftrightarrow> unused s key"
  by (simp add: init_account_def)

lemma seeds_account_Inr_iff [simp]:
  "seeds_account e seeds key = Inr u \<longleftrightarrow> fst (find_program_address e seeds) = key"
  by (simp add: seeds_account_def)

section \<open>Helpers of the handlers\<close>

definition to_timestamp_u64 :: "i64 \<Rightarrow> u64 result" where
  "to_timestamp_u64 t = (if t < 0 then Fail InvalidTimestampConversion else Ok (of_int t))"

definition validate_owner :: "env \<Rightarrow> pubkey \<Rightarrow> pubkey \<Rightarrow> unit result" where
  "validate_owner e expected_owner key =
     (if expected_owner \<noteq> key \<or> \<not> is_signer e key then Fail MissingOrInvalidDelegate else Ok ())"

definition verify_position_authority :: "env \<Rightarrow> token_account \<Rightarrow> pubkey \<Rightarrow> unit result" where
  "verify_position_authority e token authority =
     (case ta_delegate token of
        Some delegate \<Rightarrow>
          if authority = delegate then
            and_then (validate_owner e delegate authority) (\<lambda>_.
            if ta_delegated_amount token \<noteq> 1 then Fail InvalidPositionTokenAmount else Ok ())
          else validate_owner e (ta_owner token) authority
      | None \<Rightarrow> validate_owner e (ta_owner token) authority)"

definition verify_position_bundle_authority :: "env \<Rightarrow> token_account \<Rightarrow> pubkey \<Rightarrow> unit result" where
  "verify_position_bundle_authority e token authority = verify_position_authority e token authority"

end
