(* ===== verification/Token_Util.thy ===== *)
theory Token_Util
  imports Accounts
begin

text \<open>
  Calls into the token and metadata programs (\<^verbatim>\<open>util/token.rs\<close>) and the transfers of a swap
  (\<^verbatim>\<open>util/swap_utils.rs\<close>). A call signed with seeds succeeds only when the seeds derive the
  address that has to sign.
\<close>

section \<open>Signing as a program address\<close>

definition pool_seeds :: "pool \<Rightarrow> seed list" where
  "pool_seeds p = [Seed_Text ''pool'', Seed_Key (pool_config p), Seed_Key (token_mint_a p),
     Seed_Key (token_mint_b p), Seed_Bytes (tick_spacing_seed p), Seed_Bytes [pool_bump p]]"

definition signed_with :: "env \<Rightarrow> seed list \<Rightarrow> pubkey \<Rightarrow> unit result" where
  "signed_with e seeds authority = require (create_program_address e seeds = authority)"

lemma signed_with_Inr_iff [simp]:
  "signed_with e seeds key = Inr u \<longleftrightarrow> create_program_address e seeds = key"
  by (simp add: signed_with_def)

section \<open>Transfers\<close>

definition transfer_from_owner_to_vault ::
  "env \<Rightarrow> pubkey \<Rightarrow> pubkey \<Rightarrow> pubkey \<Rightarrow> u64 \<Rightarrow> ledger \<Rightarrow> ledger result" where
  "transfer_from_owner_to_vault e authority owner_account vault amount l =
     op_transfer (ops e) l owner_account vault authority amount"

definition transfer_from_vault_to_owner ::
  "env \<Rightarrow> pubkey \<Rightarrow> pool \<Rightarrow> pubkey \<Rightarrow> pubkey \<Rightarrow> u64 \<Rightarrow> ledger \<Rightarrow> ledger result" where
  "transfer_from_vault_to_owner e pool_key p vault owner_account amount l =
     and_then (signed_with e (pool_seeds p) pool_key) (\<lambda>_.
     op_transfer (ops e) l vault owner_account pool_key amount)"

section \<open>Position tokens\<close>

definition burn_and_close_user_position_token ::
  "env \<Rightarrow> pubkey \<Rightarrow> pubkey \<Rightarrow> pubkey \<Rightarrow> mint_account \<Rightarrow> pubkey \<Rightarrow> ledger \<Rightarrow> ledger result" where
  "burn_and_close_user_position_token e authority receiver mint_key mint token_key l =
     and_then (op_burn_checked (ops e) l token_key mint_key authority 1 (mint_decimals mint))
       (\<lambda>l. op_close_account (ops e) l token_key receiver authority)"

definition mint_position_token ::
  "env \<Rightarrow> pubkey \<Rightarrow> pool \<Rightarrow> pubkey \<Rightarrow> pubkey \<Rightarrow> ledger \<Rightarrow> ledger result" where
  "mint_position_token e pool_key p mint_key token_key l =
     and_then (signed_with e (pool_seeds p) pool_key) (\<lambda>_.
     op_mint_to (ops e) l mint_key token_key pool_key 1)"

definition remove_position_token_mint_authority ::
  "env \<Rightarrow> pubkey \<Rightarrow> pool \<Rightarrow> pubkey \<Rightarrow> ledger \<Rightarrow> ledger result" where
  "remove_position_token_mint_authority e pool_key p mint_key l =
     and_then (signed_with e (pool_seeds p) pool_key) (\<lambda>_.
     op_set_mint_authority (ops e) l mint_key None pool_key)"

definition mint_position_token_and_remove_authority ::
  "env \<Rightarrow> pubkey \<Rightarrow> pool \<Rightarrow> pubkey \<Rightarrow> pubkey \<Rightarrow> ledger \<Rightarrow> ledger result" where
  "mint_position_token_and_remove_authority e pool_key p mint_key token_key l =
     and_then (mint_position_token e pool_key p mint_key token_key l)
       (remove_position_token_mint_authority e pool_key p mint_key)"

definition WP_METADATA_NAME :: string where
  "WP_METADATA_NAME = ''Orca ElysiumPool Position''"

definition WP_METADATA_SYMBOL :: string where
  "WP_METADATA_SYMBOL = ''OWP''"

definition WP_METADATA_URI :: string where
  "WP_METADATA_URI = ''https://arweave.net/E19ZNY2sqMqddm1Wx7mrXPUZ0ZZ5ISizhebb0UsVEws''"

definition WPB_METADATA_NAME_PREFIX :: string where
  "WPB_METADATA_NAME_PREFIX = ''Orca Position Bundle''"

definition WPB_METADATA_SYMBOL :: string where
  "WPB_METADATA_SYMBOL = ''OPB''"

definition WPB_METADATA_URI :: string where
  "WPB_METADATA_URI = ''https://arweave.net/A_Wo8dx2_3lSUwMIi7bdT_sqxi8soghRNAWXXiqXpgE''"

definition mint_position_token_with_metadata_and_remove_authority ::
  "env \<Rightarrow> pubkey \<Rightarrow> pool \<Rightarrow> pubkey \<Rightarrow> pubkey \<Rightarrow> pubkey \<Rightarrow> pubkey \<Rightarrow> pubkey \<Rightarrow> ledger \<Rightarrow> ledger result" where
  "mint_position_token_with_metadata_and_remove_authority e pool_key p mint_key token_key
     metadata_key update_auth funder l =
     and_then (mint_position_token e pool_key p mint_key token_key l) (\<lambda>l.
     and_then (signed_with e (pool_seeds p) pool_key) (\<lambda>_.
     and_then (op_create_metadata (ops e) l metadata_key mint_key pool_key funder update_auth
       WP_METADATA_NAME WP_METADATA_SYMBOL WP_METADATA_URI) (\<lambda>l.
     remove_position_token_mint_authority e pool_key p mint_key l)))"

section \<open>Bundle tokens\<close>

definition mint_position_bundle_token ::
  "env \<Rightarrow> pubkey \<Rightarrow> pubkey \<Rightarrow> pubkey \<Rightarrow> seed list \<Rightarrow> ledger \<Rightarrow> ledger result" where
  "mint_position_bundle_token e bundle_key mint_key token_key seeds l =
     and_then (signed_with e seeds bundle_key) (\<lambda>_.
     op_mint_to (ops e) l mint_key token_key bundle_key 1)"

definition remove_position_bundle_token_mint_authority ::
  "env \<Rightarrow> pubkey \<Rightarrow> pubkey \<Rightarrow> seed list \<Rightarrow> ledger \<Rightarrow> ledger result" where
  "remove_position_bundle_token_mint_authority e bundle_key mint_key seeds l =
     and_then (signed_with e seeds bundle_key) (\<lambda>_.
     op_set_mint_authority (ops e) l mint_key None bundle_key)"

definition mint_position_bundle_token_and_remove_authority ::
  "env \<Rightarrow> pubkey \<Rightarrow> pubkey \<Rightarrow> pubkey \<Rightarrow> seed list \<Rightarrow> ledger \<Rightarrow> ledger result" where
  "mint_position_bundle_token_and_remove_authority e bundle_key mint_key token_key seeds l =
     and_then (mint_position_bundle_token e bundle_key mint_key token_key seeds l)
       (remove_position_bundle_token_mint_authority e bundle_key mint_key seeds)"

text \<open>The slices \<open>[0..4]\<close> and \<open>[len - 4..]\<close> panic on a text of fewer than four characters.\<close>

definition bundle_nft_name :: "string \<Rightarrow> string result" where
  "bundle_nft_name mint_address =
     (if length mint_address < 4 then Inl Panic
      else Ok (WPB_METADATA_NAME_PREFIX @ '' '' @ take 4 mint_address @ ''...'' @
               drop (length mint_address - 4) mint_address))"

definition mint_position_bundle_token_with_metadata_and_remove_authority ::
  "env \<Rightarrow> pubkey \<Rightarrow> pubkey \<Rightarrow> pubkey \<Rightarrow> pubkey \<Rightarrow> pubkey \<Rightarrow> pubkey \<Rightarrow> seed list \<Rightarrow> ledger \<Rightarrow>
   ledger result" where
  "mint_position_bundle_token_with_metadata_and_remove_authority e funder bundle_key mint_key
     token_key metadata_key update_auth seeds l =
     and_then (mint_position_bundle_token e bundle_key mint_key token_key seeds l) (\<lambda>l.
     and_then (bundle_nft_name (key_to_string e mint_key)) (\<lambda>nft_name.
     and_then (signed_with e seeds bundle_key) (\<lambda>_.
     and_then (op_create_metadata (ops e) l metadata_key mint_key bundle_key funder update_auth
       nft_name WPB_METADATA_SYMBOL WPB_METADATA_URI) (\<lambda>l.
     remove_position_bundle_token_mint_authority e bundle_key mint_key seeds l))))"

definition burn_and_close_position_bundle_token ::
  "env \<Rightarrow> pubkey \<Rightarrow> pubkey \<Rightarrow> pubkey \<Rightarrow> mint_account \<Rightarrow> pubkey \<Rightarrow> ledger \<Rightarrow> ledger result" where
  "burn_and_close_position_bundle_token e authority receiver mint_key mint token_key l =
     burn_and_close_user_position_token e authority receiver mint_key mint token_key l"

section \<open>The transfers of a swap\<close>

definition perform_swap ::
  "env \<Rightarrow> pubkey \<Rightarrow> pool \<Rightarrow> pubkey \<Rightarrow> pubkey \<Rightarrow> pubkey \<Rightarrow> pubkey \<Rightarrow> pubkey \<Rightarrow> u64 \<Rightarrow> u64 \<Rightarrow> bool \<Rightarrow>
   ledger \<Rightarrow> ledger result" where
  "perform_swap e pool_key p authority owner_a owner_b vault_a vault_b sum_a sum_b a_to_b l =
     (let (deposit_user, deposit_pool, deposit_amount, withdrawal_user, withdrawal_pool, withdrawal_amount) =
            (if a_to_b then (owner_a, vault_a, sum_a, owner_b, vault_b, sum_b)
             else (owner_b, vault_b, sum_b, owner_a, vault_a, sum_a))
      in and_then (transfer_from_owner_to_vault e authority deposit_user deposit_pool deposit_amount l)
           (transfer_from_vault_to_owner e pool_key p withdrawal_pool withdrawal_user withdrawal_amount))"

definition update_and_swap_pool ::
  "env \<Rightarrow> pubkey \<Rightarrow> pool \<Rightarrow> pubkey \<Rightarrow> pubkey \<Rightarrow> pubkey \<Rightarrow> pubkey \<Rightarrow> pubkey \<Rightarrow> post_swap_update \<Rightarrow>
   bool \<Rightarrow> u64 \<Rightarrow> ledger \<Rightarrow> (pool \<times> ledger) result" where
  "update_and_swap_pool e pool_key p authority owner_a owner_b vault_a vault_b upd
     is_token_fee_in_a timestamp l =
     (let p = update_after_swap (next_liquidity upd) (next_tick_index upd) (next_sqrt_price upd)
                (next_fee_growth_global upd) (next_reward_infos upd) (next_protocol_fee upd)
                is_token_fee_in_a timestamp p
      in and_then (perform_swap e pool_key p authority owner_a owner_b vault_a vault_b
           (amount_a upd) (amount_b upd) is_token_fee_in_a l) (\<lambda>l.
         Ok (p, l)))"

end
