(* ===== verification/Instructions_Config.thy ===== *)
theory Instructions_Config
  imports Token_Util
begin

text \<open>
  The instructions that configure a market: config, fee tier, pool, tick array and reward
  initialization and the setters (\<^verbatim>\<open>instructions/initialize_*.rs\<close>, \<^verbatim>\<open>instructions/set_*.rs\<close>).
  Each instruction checks the constraints of its accounts struct, runs the handler and
  writes the changed accounts back. A record with the keys of the accounts struct is passed
  where it has more than a few of them. The system program, the rent account and the funder's
  lamports are not part of the state; \<open>funder\<close> must sign.
\<close>

section \<open>Config and fee tiers\<close>

definition initialize_config ::
  "env \<Rightarrow> pubkey \<Rightarrow> pubkey \<Rightarrow> pubkey \<Rightarrow> pubkey \<Rightarrow> pubkey \<Rightarrow> u16 \<Rightarrow> chain_state \<Rightarrow> chain_state result" where
  "initialize_config e config_key funder fee_auth collect_auth reward_auth rate s =
     and_then (init_account s config_key) (\<lambda>_.
     and_then (signer e funder) (\<lambda>_.
     and_then (config_initialize fee_auth collect_auth reward_auth rate
       \<lparr>fee_authority = 0, collect_protocol_fees_authority = 0,
        reward_emissions_super_authority = 0, default_protocol_fee_rate = 0\<rparr>) (\<lambda>config.
     Ok (s\<lparr>configs := (configs s)(config_key \<mapsto> config)\<rparr>))))"

definition initialize_fee_tier ::
  "env \<Rightarrow> pubkey \<Rightarrow> pubkey \<Rightarrow> pubkey \<Rightarrow> pubkey \<Rightarrow> u16 \<Rightarrow> u16 \<Rightarrow> chain_state \<Rightarrow> chain_state result" where
  "initialize_fee_tier e config_key tier_key funder authority spacing rate s =
     and_then (account (configs s) config_key) (\<lambda>config.
     and_then (init_account s tier_key) (\<lambda>_.
     and_then (seeds_account e [Seed_Text ''fee_tier'', Seed_Key config_key,
       Seed_Bytes (u16_to_le_bytes spacing)] tier_key) (\<lambda>_.
     and_then (signer e funder) (\<lambda>_.
     and_then (require (authority = fee_authority config)) (\<lambda>_.
     and_then (signer e authority) (\<lambda>_.
     and_then (fee_tier_initialize config_key spacing rate
       \<lparr>tier_pools_config = 0, tier_tick_spacing = 0, default_fee_rate = 0\<rparr>) (\<lambda>tier.
     Ok (s\<lparr>fee_tiers := (fee_tiers s)(tier_key \<mapsto> tier)\<rparr>))))))))"

definition set_default_fee_rate ::
  "env \<Rightarrow> pubkey \<Rightarrow> pubkey \<Rightarrow> pubkey \<Rightarrow> u16 \<Rightarrow> chain_state \<Rightarrow> chain_state result" where
  "set_default_fee_rate e config_key tier_key authority rate s =
     and_then (account (configs s) config_key) (\<lambda>config.
     and_then (account (fee_tiers s) tier_key) (\<lambda>tier.
     and_then (require (tier_pools_config tier = config_key)) (\<lambda>_.
     and_then (require (authority = fee_authority config)) (\<lambda>_.
     and_then (signer e authority) (\<lambda>_.
     and_then (update_default_fee_rate rate tier) (\<lambda>tier.
     Ok (s\<lparr>fee_tiers := (fee_tiers s)(tier_key \<mapsto> tier)\<rparr>)))))))"

text \<open>The setters of the config: the authority that signs is the one the config names.\<close>

definition set_fee_authority ::
  "env \<Rightarrow> pubkey \<Rightarrow> pubkey \<Rightarrow> pubkey \<Rightarrow> chain_state \<Rightarrow> chain_state result" where
  "set_fee_authority e config_key authority new_authority s =
     and_then (account (configs s) config_key) (\<lambda>config.
     and_then (require (authority = fee_authority config)) (\<lambda>_.
     and_then (signer e authority) (\<lambda>_.
     Ok (s\<lparr>configs := (configs s)(config_key \<mapsto> update_fee_authority new_authority config)\<rparr>))))"

definition set_collect_protocol_fees_authority ::
  "env \<Rightarrow> pubkey \<Rightarrow> pubkey \<Rightarrow> pubkey \<Rightarrow> chain_state \<Rightarrow> chain_state result" where
  "set_collect_protocol_fees_authority e config_key authority new_authority s =
     and_then (account (configs s) config_key) (\<lambda>config.
     and_then (require (authority = collect_protocol_fees_authority config)) (\<lambda>_.
     and_then (signer e authority) (\<lambda>_.
     Ok (s\<lparr>configs := (configs s)(config_key \<mapsto>
             update_collect_protocol_fees_authority new_authority config)\<rparr>))))"

definition set_reward_emissions_super_authority ::
  "env \<Rightarrow> pubkey \<Rightarrow> pubkey \<Rightarrow> pubkey \<Rightarrow> chain_state \<Rightarrow> chain_state result" where
  "set_reward_emissions_super_authority e config_key authority new_authority s =
     and_then (account (configs s) config_key) (\<lambda>config.
     and_then (require (authority = reward_emissions_super_authority config)) (\<lambda>_.
     and_then (signer e authority) (\<lambda>_.
     Ok (s\<lparr>configs := (configs s)(config_key \<mapsto>
             update_reward_emissions_super_authority new_authority config)\<rparr>))))"

definition set_default_protocol_fee_rate ::
  "env \<Rightarrow> pubkey \<Rightarrow> pubkey \<Rightarrow> u16 \<Rightarrow> chain_state \<Rightarrow> chain_state result" where
  "set_default_protocol_fee_rate e config_key authority rate s =
     and_then (account (configs s) config_key) (\<lambda>config.
     and_then (require (authority = fee_authority config)) (\<lambda>_.
     and_then (signer e authority) (\<lambda>_.
     and_then (update_default_protocol_fee_rate rate config) (\<lambda>config.
     Ok (s\<lparr>configs := (configs s)(config_key \<mapsto> config)\<rparr>)))))"

section \<open>Pools\<close>

record initialize_pool_accounts =
  ip_pools_config :: pubkey
  ip_token_mint_a :: pubkey
  ip_token_mint_b :: pubkey
  ip_funder :: pubkey
  ip_pool :: pubkey
  ip_token_vault_a :: pubkey
  ip_token_vault_b :: pubkey
  ip_fee_tier :: pubkey
  ip_token_program :: pubkey

definition initialize_pool ::
  "env \<Rightarrow> initialize_pool_accounts \<Rightarrow> u16 \<Rightarrow> u128 \<Rightarrow> chain_state \<Rightarrow> chain_state result" where
  "initialize_pool e a spacing initial_sqrt_price s =
     (let seeds = [Seed_Text ''pool'', Seed_Key (ip_pools_config a), Seed_Key (ip_token_mint_a a),
                   Seed_Key (ip_token_mint_b a), Seed_Bytes (u16_to_le_bytes spacing)];
          bump = snd (find_program_address e seeds)
      in
      and_then (account (configs s) (ip_pools_config a)) (\<lambda>config.
      and_then (account (mints (tokens s)) (ip_token_mint_a a)) (\<lambda>_.
      and_then (account (mints (tokens s)) (ip_token_mint_b a)) (\<lambda>_.
      and_then (signer e (ip_funder a)) (\<lambda>_.
      and_then (init_account s (ip_pool a)) (\<lambda>_.
      and_then (seeds_account e seeds (ip_pool a)) (\<lambda>_.
      and_then (require (unused s (ip_token_vault_a a) \<and> ip_token_vault_a a \<noteq> ip_pool a)) (\<lambda>_.
      and_then (op_init_account (ops e) (tokens s) (ip_token_vault_a a) (ip_token_mint_a a) (ip_pool a)) (\<lambda>l.
      and_then (require (unused s (ip_token_vault_b a) \<and> ip_token_vault_b a \<noteq> ip_pool a \<and>
        ip_token_vault_b a \<noteq> ip_token_vault_a a)) (\<lambda>_.
      and_then (op_init_account (ops e) l (ip_token_vault_b a) (ip_token_mint_b a) (ip_pool a)) (\<lambda>l.
      and_then (account (fee_tiers s) (ip_fee_tier a)) (\<lambda>tier.
      and_then (require (tier_pools_config tier = ip_pools_config a)) (\<lambda>_.
      and_then (require (ip_token_program a = token_ID e)) (\<lambda>_.
      and_then (pool_initialize (ip_pools_config a) config bump spacing initial_sqrt_price
        (default_fee_rate tier) (ip_token_mint_a a) (ip_token_vault_a a) (ip_token_mint_b a)
        (ip_token_vault_b a) default_pool) (\<lambda>p.
      Ok (s\<lparr>pools := (pools s)(ip_pool a \<mapsto> p), tokens := l\<rparr>))))))))))))))))"

definition set_fee_rate ::
  "env \<Rightarrow> pubkey \<Rightarrow> pubkey \<Rightarrow> pubkey \<Rightarrow> u16 \<Rightarrow> chain_state \<Rightarrow> chain_state result" where
  "set_fee_rate e config_key pool_key authority rate s =
     and_then (account (configs s) config_key) (\<lambda>config.
     and_then (account (pools s) pool_key) (\<lambda>p.
     and_then (require (pool_config p = config_key)) (\<lambda>_.
     and_then (require (authority = fee_authority config)) (\<lambda>_.
     and_then (signer e authority) (\<lambda>_.
     and_then (update_fee_rate rate p) (\<lambda>p.
     Ok (s\<lparr>pools := (pools s)(pool_key \<mapsto> p)\<rparr>)))))))"

definition set_protocol_fee_rate ::
  "env \<Rightarrow> pubkey \<Rightarrow> pubkey \<Rightarrow> pubkey \<Rightarrow> u16 \<Rightarrow> chain_state \<Rightarrow> chain_state result" where
  "set_protocol_fee_rate e config_key pool_key authority rate s =
     and_then (account (configs s) config_key) (\<lambda>config.
     and_then (account (pools s) pool_key) (\<lambda>p.
     and_then (require (pool_config p = config_key)) (\<lambda>_.
     and_then (require (authority = fee_authority config)) (\<lambda>_.
     and_then (signer e authority) (\<lambda>_.
     and_then (update_protocol_fee_rate rate p) (\<lambda>p.
     Ok (s\<lparr>pools := (pools s)(pool_key \<mapsto> p)\<rparr>)))))))"

section \<open>Tick arrays\<close>

definition initialize_tick_array ::
  "env \<Rightarrow> pubkey \<Rightarrow> pubkey \<Rightarrow> pubkey \<Rightarrow> i32 \<Rightarrow> chain_state \<Rightarrow> chain_state result" where
  "initialize_tick_array e pool_key funder array_key start s =
     and_then (account (pools s) pool_key) (\<lambda>p.
     and_then (signer e funder) (\<lambda>_.
     and_then (init_account s array_key) (\<lambda>_.
     and_then (seeds_account e [Seed_Text ''tick_array'', Seed_Key pool_key,
       Seed_Text (int_to_string e start)] array_key) (\<lambda>_.
     and_then (tick_array_initialize pool_key p start default_tick_array) (\<lambda>ta.
     Ok (s\<lparr>tick_arrays := (tick_arrays s)(array_key \<mapsto> ta)\<rparr>))))))"

section \<open>Rewards\<close>

definition initialize_reward_instr ::
  "env \<Rightarrow> pubkey \<Rightarrow> pubkey \<Rightarrow> pubkey \<Rightarrow> pubkey \<Rightarrow> pubkey \<Rightarrow> pubkey \<Rightarrow> u8 \<Rightarrow> chain_state \<Rightarrow> chain_state result" where
  "initialize_reward_instr e authority funder pool_key mint_key vault_key token_program reward_index s =
     and_then (account (pools s) pool_key) (\<lambda>p.
     and_then (arr_get (pool_reward_infos p) (unat reward_index)) (\<lambda>info.
     and_then (require (authority = reward_authority info)) (\<lambda>_.
     and_then (signer e authority) (\<lambda>_.
     and_then (signer e funder) (\<lambda>_.
     and_then (account (mints (tokens s)) mint_key) (\<lambda>_.
     and_then (init_account s vault_key) (\<lambda>_.
     and_then (op_init_account (ops e) (tokens s) vault_key mint_key pool_key) (\<lambda>l.
     and_then (require (token_program = token_ID e)) (\<lambda>_.
     and_then (initialize_reward (unat reward_index) mint_key vault_key p) (\<lambda>p.
     Ok (s\<lparr>pools := (pools s)(pool_key \<mapsto> p), tokens := l\<rparr>)))))))))))"

definition set_reward_authority ::
  "env \<Rightarrow> pubkey \<Rightarrow> pubkey \<Rightarrow> pubkey \<Rightarrow> u8 \<Rightarrow> chain_state \<Rightarrow> chain_state result" where
  "set_reward_authority e pool_key authority new_authority reward_index s =
     and_then (account (pools s) pool_key) (\<lambda>p.
     and_then (arr_get (pool_reward_infos p) (unat reward_index)) (\<lambda>info.
     and_then (require (authority = reward_authority info)) (\<lambda>_.
     and_then (signer e authority) (\<lambda>_.
     and_then (update_reward_authority (unat reward_index) new_authority p) (\<lambda>p.
     Ok (s\<lparr>pools := (pools s)(pool_key \<mapsto> p)\<rparr>))))))"

definition set_reward_authority_by_super_authority ::
  "env \<Rightarrow> pubkey \<Rightarrow> pubkey \<Rightarrow> pubkey \<Rightarrow> pubkey \<Rightarrow> u8 \<Rightarrow> chain_state \<Rightarrow> chain_state result" where
  "set_reward_authority_by_super_authority e config_key pool_key authority new_authority reward_index s =
     and_then (account (configs s) config_key) (\<lambda>config.
     and_then (account (pools s) pool_key) (\<lambda>p.
     and_then (require (pool_config p = config_key)) (\<lambda>_.
     and_then (require (authority = reward_emissions_super_authority config)) (\<lambda>_.
     and_then (signer e authority) (\<lambda>_.
     and_then (update_reward_authority (unat reward_index) new_authority p) (\<lambda>p.
     Ok (s\<lparr>pools := (pools s)(pool_key \<mapsto> p)\<rparr>)))))))"

definition DAY_IN_SECONDS :: u128 where
  "DAY_IN_SECONDS = 60 * 60 * 24"

definition set_reward_emissions ::
  "env \<Rightarrow> pubkey \<Rightarrow> pubkey \<Rightarrow> pubkey \<Rightarrow> u8 \<Rightarrow> u128 \<Rightarrow> chain_state \<Rightarrow> chain_state result" where
  "set_reward_emissions e pool_key authority vault_key reward_index emissions s =
     and_then (account (pools s) pool_key) (\<lambda>p.
     and_then (arr_get (pool_reward_infos p) (unat reward_index)) (\<lambda>info.
     and_then (require (authority = reward_authority info)) (\<lambda>_.
     and_then (signer e authority) (\<lambda>_.
     and_then (account (token_accounts (tokens s)) vault_key) (\<lambda>vault.
     and_then (require (vault_key = Pool_State.reward_vault info)) (\<lambda>_.
     and_then (checked_mul_shift_right DAY_IN_SECONDS emissions) (\<lambda>emissions_per_day.
     if ta_amount vault < emissions_per_day then Fail RewardVaultAmountInsufficient
     else
       and_then (to_timestamp_u64 (unix_timestamp e)) (\<lambda>timestamp.
       and_then (next_pool_reward_infos p timestamp) (\<lambda>infos.
       and_then (update_emissions (unat reward_index) infos timestamp emissions p) (\<lambda>p.
       Ok (s\<lparr>pools := (pools s)(pool_key \<mapsto> p)\<rparr>)))))))))))"

section \<open>What a successful instruction has checked and written\<close>

lemma initialize_config_OkE:
  assumes "initialize_config e ck funder fee_auth collect_auth reward_auth rate s = Ok s'"
  obtains c where "unused s ck" "is_signer e funder"
    "config_initialize fee_auth collect_auth reward_auth rate
       \<lparr>fee_authority = 0, collect_protocol_fees_authority = 0,
        reward_emissions_super_authority = 0, default_protocol_fee_rate = 0\<rparr> = Ok c"
    "s' = s\<lparr>configs := (configs s)(ck \<mapsto> c)\<rparr>"
  using assms by (auto simp: initialize_config_def and_then_Inr_iff intro: that)

lemma initialize_fee_tier_OkE:
  assumes "initialize_fee_tier e ck tk funder auth spacing rate s = Ok s'"
  obtains c tier where "configs s ck = Some c" "unused s tk" "is_signer e (fee_authority c)"
    "fee_tier_initialize ck spacing rate
       \<lparr>tier_pools_config = 0, tier_tick_spacing = 0, default_fee_rate = 0\<rparr> = Ok tier"
    "s' = s\<lparr>fee_tiers := (fee_tiers s)(tk \<mapsto> tier)\<rparr>"
  using assms by (auto simp: initialize_fee_tier_def and_then_Inr_iff intro: that)

lemma set_default_fee_rate_OkE:
  assumes "set_default_fee_rate e ck tk auth rate s = Ok s'"
  obtains c tier tier' where "configs s ck = Some c" "fee_tiers s tk = Some tier"
    "tier_pools_config tier = ck" "is_signer e (fee_authority c)"
    "update_default_fee_rate rate tier = Ok tier'"
    "s' = s\<lparr>fee_tiers := (fee_tiers s)(tk \<mapsto> tier')\<rparr>"
  using assms by (auto simp: set_default_fee_rate_def and_then_Inr_iff intro: that)

lemma set_fee_authority_OkE:
  assumes "set_fee_authority e ck auth new_auth s = Ok s'"
  obtains c where "configs s ck = Some c" "is_signer e (fee_authority c)"
    "s' = s\<lparr>configs := (configs s)(ck \<mapsto> update_fee_authority new_auth c)\<rparr>"
  using assms by (auto simp: set_fee_authority_def and_then_Inr_iff intro: that)

lemma set_collect_protocol_fees_authority_OkE:
  assumes "set_collect_protocol_fees_authority e ck auth new_auth s = Ok s'"
  obtains c where "configs s ck = Some c" "is_signer e (collect_protocol_fees_authority c)"
    "s' = s\<lparr>configs := (configs s)(ck \<mapsto> update_collect_protocol_fees_authority new_auth c)\<rparr>"
  using assms by (auto simp: set_collect_protocol_fees_authority_def and_then_Inr_iff intro: that)

lemma set_reward_emissions_super_authority_OkE:
  assumes "set_reward_emissions_super_authority e ck auth new_auth s = Ok s'"
  obtains c where "configs s ck = Some c" "is_signer e (reward_emissions_super_authority c)"
    "s' = s\<lparr>configs := (configs s)(ck \<mapsto> update_reward_emissions_super_authority new_auth c)\<rparr>"
  using assms by (auto simp: set_reward_emissions_super_authority_def and_then_Inr_iff intro: that)

lemma set_default_protocol_fee_rate_OkE:
  assumes "set_default_protocol_fee_rate e ck auth rate s = Ok s'"
  obtains c c' where "configs s ck = Some c" "is_signer e (fee_authority c)"
    "update_default_protocol_fee_rate rate c = Ok c'"
    "s' = s\<lparr>configs := (configs s)(ck \<mapsto> c')\<rparr>"
  using assms by (auto simp: set_default_protocol_fee_rate_def and_then_Inr_iff intro: that)

lemma initialize_pool_OkE:
  assumes "initialize_pool e a spacing price s = Ok s'"
  obtains c tier p l l' where "configs s (ip_pools_config a) = Some c"
    "fee_tiers s (ip_fee_tier a) = Some tier" "tier_pools_config tier = ip_pools_config a"
    "unused s (ip_pool a)" "is_signer e (ip_funder a)"
    "op_init_account (ops e) (tokens s) (ip_token_vault_a a) (ip_token_mint_a a) (ip_pool a) = Ok l"
    "op_init_account (ops e) l (ip_token_vault_b a) (ip_token_mint_b a) (ip_pool a) = Ok l'"
    "pool_initialize (ip_pools_config a) c
       (snd (find_program_address e [Seed_Text ''pool'', Seed_Key (ip_pools_config a),
          Seed_Key (ip_token_mint_a a), Seed_Key (ip_token_mint_b a), Seed_Bytes (u16_to_le_bytes spacing)]))
       spacing price (default_fee_rate tier) (ip_token_mint_a a) (ip_token_vault_a a)
       (ip_token_mint_b a) (ip_token_vault_b a) default_pool = Ok p"
    "s' = s\<lparr>pools := (pools s)(ip_pool a \<mapsto> p), tokens := l'\<rparr>"
  using assms by (auto simp: initialize_pool_def and_then_Inr_iff Let_def intro: that)

lemma set_fee_rate_OkE:
  assumes "set_fee_rate e ck pk auth rate s = Ok s'"
  obtains c p p' where "configs s ck = Some c" "pools s pk = Some p" "pool_config p = ck"
    "is_signer e (fee_authority c)" "update_fee_rate rate p = Ok p'"
    "s' = s\<lparr>pools := (pools s)(pk \<mapsto> p')\<rparr>"
  using assms by (auto simp: set_fee_rate_def and_then_Inr_iff intro: that)

lemma set_protocol_fee_rate_OkE:
  assumes "set_protocol_fee_rate e ck pk auth rate s = Ok s'"
  obtains c p p' where "configs s ck = Some c" "pools s pk = Some p" "pool_config p = ck"
    "is_signer e (fee_authority c)" "update_protocol_fee_rate rate p = Ok p'"
    "s' = s\<lparr>pools := (pools s)(pk \<mapsto> p')\<rparr>"
  using assms by (auto simp: set_protocol_fee_rate_def and_then_Inr_iff intro: that)

lemma initialize_tick_array_OkE:
  assumes "initialize_tick_array e pk funder ak start s = Ok s'"
  obtains p ta where "pools s pk = Some p" "is_signer e funder" "unused s ak"
    "tick_array_initialize pk p start default_tick_array = Ok ta"
    "s' = s\<lparr>tick_arrays := (tick_arrays s)(ak \<mapsto> ta)\<rparr>"
  using assms by (auto simp: initialize_tick_array_def and_then_Inr_iff intro: that)

lemma initialize_reward_instr_OkE:
  assumes "initialize_reward_instr e auth funder pk mk vk tp i s = Ok s'"
  obtains p info l p' where "pools s pk = Some p" "arr_get (pool_reward_infos p) (unat i) = Ok info"
    "is_signer e (reward_authority info)" "is_signer e funder"
    "op_init_account (ops e) (tokens s) vk mk pk = Ok l"
    "initialize_reward (unat i) mk vk p = Ok p'"
    "s' = s\<lparr>pools := (pools s)(pk \<mapsto> p'), tokens := l\<rparr>"
  using assms by (auto simp: initialize_reward_instr_def and_then_Inr_iff simp del: arr_get_Ok_iff intro: that)

lemma set_reward_authority_OkE:
  assumes "set_reward_authority e pk auth new_auth i s = Ok s'"
  obtains p info p' where "pools s pk = Some p" "arr_get (pool_reward_infos p) (unat i) = Ok info"
    "is_signer e (reward_authority info)" "update_reward_authority (unat i) new_auth p = Ok p'"
    "s' = s\<lparr>pools := (pools s)(pk \<mapsto> p')\<rparr>"
  using assms by (auto simp: set_reward_authority_def and_then_Inr_iff simp del: arr_get_Ok_iff intro: that)

lemma set_reward_authority_by_super_authority_OkE:
  assumes "set_reward_authority_by_super_authority e ck pk auth new_auth i s = Ok s'"
  obtains c p p' where "configs s ck = Some c" "pools s pk = Some p" "pool_config p = ck"
    "is_signer e (reward_emissions_super_authority c)"
    "update_reward_authority (unat i) new_auth p = Ok p'"
    "s' = s\<lparr>pools := (pools s)(pk \<mapsto> p')\<rparr>"
  using assms by (auto simp: set_reward_authority_by_super_authority_def and_then_Inr_iff intro: that)

lemma set_reward_emissions_OkE:
  assumes "set_reward_emissions e pk auth vk i emissions s = Ok s'"
  obtains p info vault per_day timestamp infos p' where "pools s pk = Some p"
    "arr_get (pool_reward_infos p) (unat i) = Ok info" "is_signer e (reward_authority info)"
    "token_accounts (tokens s) vk = Some vault" "vk = Pool_State.reward_vault info"
    "checked_mul_shift_right DAY_IN_SECONDS emissions = Ok per_day" "per_day \<le> ta_amount vault"
    "to_timestamp_u64 (unix_timestamp e) = Ok timestamp"
    "next_pool_reward_infos p timestamp = Ok infos"
    "update_emissions (unat i) infos timestamp emissions p = Ok p'"
    "s' = s\<lparr>pools := (pools s)(pk \<mapsto> p')\<rparr>"
  using assms
  by (auto simp: set_reward_emissions_def and_then_Inr_iff not_less simp del: arr_get_Ok_iff
      split: if_splits intro: that)

end
