(* ===== verification/Instructions_Position.thy ===== *)
theory Instructions_Position
  imports Instructions_Config
begin

text \<open>
  The instructions on positions and bundles: opening and closing, changing the liquidity,
  and collecting fees and rewards (\<^verbatim>\<open>instructions/*.rs\<close>).
\<close>

section \<open>Opening and closing a position\<close>

record open_position_accounts =
  op_funder :: pubkey
  op_owner :: pubkey
  op_position :: pubkey
  op_position_mint :: pubkey
  op_position_token_account :: pubkey
  op_pool :: pubkey
  op_token_program :: pubkey

text \<open>The accounts that both variants create, with the initial position record.\<close>

definition open_position_init ::
  "env \<Rightarrow> open_position_accounts \<Rightarrow> chain_state \<Rightarrow> (pool \<times> ledger) result" where
  "open_position_init e a s =
     and_then (signer e (op_funder a)) (\<lambda>_.
     and_then (init_account s (op_position a)) (\<lambda>_.
     and_then (seeds_account e [Seed_Text ''position'', Seed_Key (op_position_mint a)] (op_position a)) (\<lambda>_.
     and_then (require (unused s (op_position_mint a) \<and> op_position_mint a \<noteq> op_position a)) (\<lambda>_.
     and_then (op_init_mint (ops e) (tokens s) (op_position_mint a) (op_pool a) 0) (\<lambda>l.
     and_then (require (unused s (op_position_token_account a) \<and>
       op_position_token_account a \<noteq> op_position a \<and>
       op_position_token_account a \<noteq> op_position_mint a)) (\<lambda>_.
     and_then (op_init_account (ops e) l (op_position_token_account a) (op_position_mint a) (op_owner a)) (\<lambda>l.
     and_then (account (pools s) (op_pool a)) (\<lambda>p.
     and_then (require (op_token_program a = token_ID e)) (\<lambda>_.
     Ok (p, l))))))))))"

definition open_position_instr ::
  "env \<Rightarrow> open_position_accounts \<Rightarrow> i32 \<Rightarrow> i32 \<Rightarrow> chain_state \<Rightarrow> chain_state result" where
  "open_position_instr e a lower upper s =
     and_then (open_position_init e a s) (\<lambda>(p, l).
     and_then (open_position (op_pool a) p (op_position_mint a) lower upper default_position) (\<lambda>pos.
     and_then (mint_position_token_and_remove_authority e (op_pool a) p (op_position_mint a)
       (op_position_token_account a) l) (\<lambda>l.
     Ok (s\<lparr>positions := (positions s)(op_position a \<mapsto> pos), tokens := l\<rparr>))))"

text \<open>The address \<^verbatim>\<open>3axbTs2z5GBy6usVbNVoqEgZMng3vZvMnAoX29BFfwhr\<close> of \<^verbatim>\<open>constants/nft.rs\<close>.\<close>

definition WP_NFT_UPDATE_AUTH :: pubkey where
  "WP_NFT_UPDATE_AUTH = 0x266a66aedd97e5f04471d608e4c69939d77a9d99b3cdd0931189fe6b910ad269"

definition open_position_with_metadata ::
  "env \<Rightarrow> open_position_accounts \<Rightarrow> pubkey \<Rightarrow> pubkey \<Rightarrow> pubkey \<Rightarrow> i32 \<Rightarrow> i32 \<Rightarrow> chain_state \<Rightarrow>
   chain_state result" where
  "open_position_with_metadata e a metadata_key metadata_program update_auth lower upper s =
     and_then (open_position_init e a s) (\<lambda>(p, l).
     and_then (require (metadata_program = metadata_ID e)) (\<lambda>_.
     and_then (require (update_auth = WP_NFT_UPDATE_AUTH)) (\<lambda>_.
     and_then (open_position (op_pool a) p (op_position_mint a) lower upper default_position) (\<lambda>pos.
     and_then (mint_position_token_with_metadata_and_remove_authority e (op_pool a) p
       (op_position_mint a) (op_position_token_account a) metadata_key update_auth (op_funder a) l) (\<lambda>l.
     Ok (s\<lparr>positions := (positions s)(op_position a \<mapsto> pos), tokens := l\<rparr>))))))"

definition close_position ::
  "env \<Rightarrow> pubkey \<Rightarrow> pubkey \<Rightarrow> pubkey \<Rightarrow> pubkey \<Rightarrow> pubkey \<Rightarrow> pubkey \<Rightarrow> chain_state \<Rightarrow> chain_state result" where
  "close_position e authority receiver position_key mint_key token_key token_program s =
     and_then (signer e authority) (\<lambda>_.
     and_then (account (positions s) position_key) (\<lambda>pos.
     and_then (seeds_account e [Seed_Text ''position'', Seed_Key mint_key] position_key) (\<lambda>_.
     and_then (account (mints (tokens s)) mint_key) (\<lambda>mint.
     and_then (require (mint_key = position_mint pos)) (\<lambda>_.
     and_then (account (token_accounts (tokens s)) token_key) (\<lambda>token.
     and_then (require (ta_amount token = 1 \<and> ta_mint token = position_mint pos)) (\<lambda>_.
     and_then (require (token_program = token_ID e)) (\<lambda>_.
     and_then (verify_position_authority e token authority) (\<lambda>_.
     if \<not> is_position_empty pos then Fail ClosePositionNotEmpty
     else
       and_then (burn_and_close_user_position_token e authority receiver mint_key mint token_key (tokens s)) (\<lambda>l.
       Ok (s\<lparr>positions := (positions s)(position_key := None), tokens := l\<rparr>)))))))))))"

section \<open>Position bundles\<close>

record bundle_init_accounts =
  ib_position_bundle :: pubkey
  ib_position_bundle_mint :: pubkey
  ib_position_bundle_token_account :: pubkey
  ib_position_bundle_owner :: pubkey
  ib_funder :: pubkey
  ib_token_program :: pubkey

definition bundle_seeds :: "env \<Rightarrow> pubkey \<Rightarrow> seed list" where
  "bundle_seeds e mint_key =
     [Seed_Text ''position_bundle'', Seed_Key mint_key,
      Seed_Bytes [snd (find_program_address e [Seed_Text ''position_bundle'', Seed_Key mint_key])]]"

definition bundle_init ::
  "env \<Rightarrow> bundle_init_accounts \<Rightarrow> chain_state \<Rightarrow> ledger result" where
  "bundle_init e a s =
     and_then (init_account s (ib_position_bundle a)) (\<lambda>_.
     and_then (seeds_account e [Seed_Text ''position_bundle'', Seed_Key (ib_position_bundle_mint a)]
       (ib_position_bundle a)) (\<lambda>_.
     and_then (require (unused s (ib_position_bundle_mint a) \<and>
       ib_position_bundle_mint a \<noteq> ib_position_bundle a)) (\<lambda>_.
     and_then (op_init_mint (ops e) (tokens s) (ib_position_bundle_mint a) (ib_position_bundle a) 0) (\<lambda>l.
     and_then (require (unused s (ib_position_bundle_token_account a) \<and>
       ib_position_bundle_token_account a \<noteq> ib_position_bundle a \<and>
       ib_position_bundle_token_account a \<noteq> ib_position_bundle_mint a)) (\<lambda>_.
     and_then (op_init_account (ops e) l (ib_position_bundle_token_account a)
       (ib_position_bundle_mint a) (ib_position_bundle_owner a)) (\<lambda>l.
     and_then (signer e (ib_funder a)) (\<lambda>_.
     and_then (require (ib_token_program a = token_ID e)) (\<lambda>_.
     Ok l))))))))"

definition initialize_position_bundle ::
  "env \<Rightarrow> bundle_init_accounts \<Rightarrow> chain_state \<Rightarrow> chain_state result" where
  "initialize_position_bundle e a s =
     and_then (bundle_init e a s) (\<lambda>l.
     let bundle = bundle_initialize (ib_position_bundle_mint a) default_bundle in
     and_then (mint_position_bundle_token_and_remove_authority e (ib_position_bundle a)
       (ib_position_bundle_mint a) (ib_position_bundle_token_account a)
       (bundle_seeds e (ib_position_bundle_mint a)) l) (\<lambda>l.
     Ok (s\<lparr>bundles := (bundles s)(ib_position_bundle a \<mapsto> bundle), tokens := l\<rparr>)))"

definition initialize_position_bundle_with_metadata ::
  "env \<Rightarrow> bundle_init_accounts \<Rightarrow> pubkey \<Rightarrow> pubkey \<Rightarrow> pubkey \<Rightarrow> chain_state \<Rightarrow> chain_state result" where
  "initialize_position_bundle_with_metadata e a metadata_key metadata_program update_auth s =
     and_then (bundle_init e a s) (\<lambda>l.
     and_then (require (update_auth = WP_NFT_UPDATE_AUTH)) (\<lambda>_.
     and_then (require (metadata_program = metadata_ID e)) (\<lambda>_.
     let bundle = bundle_initialize (ib_position_bundle_mint a) default_bundle in
     and_then (mint_position_bundle_token_with_metadata_and_remove_authority e (ib_funder a)
       (ib_position_bundle a) (ib_position_bundle_mint a) (ib_position_bundle_token_account a)
       metadata_key update_auth (bundle_seeds e (ib_position_bundle_mint a)) l) (\<lambda>l.
     Ok (s\<lparr>bundles := (bundles s)(ib_position_bundle a \<mapsto> bundle), tokens := l\<rparr>)))))"

definition delete_position_bundle ::
  "env \<Rightarrow> pubkey \<Rightarrow> pubkey \<Rightarrow> pubkey \<Rightarrow> pubkey \<Rightarrow> pubkey \<Rightarrow> pubkey \<Rightarrow> chain_state \<Rightarrow> chain_state result" where
  "delete_position_bundle e bundle_key mint_key token_key owner receiver token_program s =
     and_then (account (bundles s) bundle_key) (\<lambda>bundle.
     and_then (account (mints (tokens s)) mint_key) (\<lambda>mint.
     and_then (require (mint_key = position_bundle_mint bundle)) (\<lambda>_.
     and_then (account (token_accounts (tokens s)) token_key) (\<lambda>token.
     and_then (require (ta_mint token = position_bundle_mint bundle \<and> ta_owner token = owner \<and>
       ta_amount token = 1)) (\<lambda>_.
     and_then (signer e owner) (\<lambda>_.
     and_then (require (token_program = token_ID e)) (\<lambda>_.
     if \<not> is_deletable bundle then Fail PositionBundleNotDeletable
     else
       and_then (burn_and_close_position_bundle_token e owner receiver mint_key mint token_key (tokens s)) (\<lambda>l.
       Ok (s\<lparr>bundles := (bundles s)(bundle_key := None), tokens := l\<rparr>)))))))))"

definition bundled_position_seeds :: "env \<Rightarrow> pubkey \<Rightarrow> u16 \<Rightarrow> seed list" where
  "bundled_position_seeds e mint bundle_index =
     [Seed_Text ''bundled_position'', Seed_Key mint, Seed_Text (int_to_string e (uint bundle_index))]"

record bundled_position_accounts =
  bp_bundled_position :: pubkey
  bp_position_bundle :: pubkey
  bp_position_bundle_token_account :: pubkey
  bp_position_bundle_authority :: pubkey

definition open_bundled_position_instr ::
  "env \<Rightarrow> bundled_position_accounts \<Rightarrow> pubkey \<Rightarrow> pubkey \<Rightarrow> u16 \<Rightarrow> i32 \<Rightarrow> i32 \<Rightarrow> chain_state \<Rightarrow>
   chain_state result" where
  "open_bundled_position_instr e a pool_key funder bundle_index lower upper s =
     and_then (init_account s (bp_bundled_position a)) (\<lambda>_.
     and_then (account (bundles s) (bp_position_bundle a)) (\<lambda>bundle.
     and_then (seeds_account e (bundled_position_seeds e (position_bundle_mint bundle) bundle_index)
       (bp_bundled_position a)) (\<lambda>_.
     and_then (account (token_accounts (tokens s)) (bp_position_bundle_token_account a)) (\<lambda>token.
     and_then (require (ta_mint token = position_bundle_mint bundle \<and> ta_amount token = 1)) (\<lambda>_.
     and_then (signer e (bp_position_bundle_authority a)) (\<lambda>_.
     and_then (account (pools s) pool_key) (\<lambda>p.
     and_then (signer e funder) (\<lambda>_.
     and_then (verify_position_bundle_authority e token (bp_position_bundle_authority a)) (\<lambda>_.
     and_then (open_bundled_position bundle_index bundle) (\<lambda>bundle.
     and_then (open_position pool_key p (position_bundle_mint bundle) lower upper default_position) (\<lambda>pos.
     Ok (s\<lparr>positions := (positions s)(bp_bundled_position a \<mapsto> pos),
           bundles := (bundles s)(bp_position_bundle a \<mapsto> bundle)\<rparr>))))))))))))"

definition close_bundled_position_instr ::
  "env \<Rightarrow> bundled_position_accounts \<Rightarrow> pubkey \<Rightarrow> u16 \<Rightarrow> chain_state \<Rightarrow> chain_state result" where
  "close_bundled_position_instr e a receiver bundle_index s =
     and_then (account (positions s) (bp_bundled_position a)) (\<lambda>pos.
     and_then (account (bundles s) (bp_position_bundle a)) (\<lambda>bundle.
     and_then (seeds_account e (bundled_position_seeds e (position_bundle_mint bundle) bundle_index)
       (bp_bundled_position a)) (\<lambda>_.
     and_then (account (token_accounts (tokens s)) (bp_position_bundle_token_account a)) (\<lambda>token.
     and_then (require (ta_mint token = position_mint pos \<and>
       ta_mint token = position_bundle_mint bundle \<and> ta_amount token = 1)) (\<lambda>_.
     and_then (signer e (bp_position_bundle_authority a)) (\<lambda>_.
     and_then (verify_position_bundle_authority e token (bp_position_bundle_authority a)) (\<lambda>_.
     if \<not> is_position_empty pos then Fail ClosePositionNotEmpty
     else
       and_then (close_bundled_position bundle_index bundle) (\<lambda>bundle.
       Ok (s\<lparr>positions := (positions s)(bp_bundled_position a := None),
             bundles := (bundles s)(bp_position_bundle a \<mapsto> bundle)\<rparr>)))))))))"

section \<open>What a successful instruction has checked and written\<close>

text \<open>The holder of a position token, or its delegate for exactly one token, has signed.\<close>

definition holds_token :: "env \<Rightarrow> ledger \<Rightarrow> pubkey \<Rightarrow> bool" where
  "holds_token e l mint_key \<longleftrightarrow> (\<exists>key token. token_accounts l key = Some token \<and>
     ta_mint token = mint_key \<and> ta_amount token = 1 \<and>
     (is_signer e (ta_owner token) \<or>
      (\<exists>delegate. ta_delegate token = Some delegate \<and> is_signer e delegate \<and>
         ta_delegated_amount token = 1)))"

lemma validate_owner_Ok_iff [simp]:
  "validate_owner e expected key = Ok u \<longleftrightarrow> expected = key \<and> is_signer e key"
  by (auto simp: validate_owner_def)

lemma verify_position_authority_OkD:
  assumes "verify_position_authority e token authority = Ok u"
  shows "is_signer e authority"
    and "authority = ta_owner token \<or>
      ta_delegate token = Some authority \<and> ta_delegated_amount token = 1"
  using assms
  by (auto simp: verify_position_authority_def and_then_Inr_iff split: option.splits if_splits)

lemma holds_tokenI:
  assumes "token_accounts l key = Some token" "ta_mint token = mint_key" "ta_amount token = 1"
    and "verify_position_authority e token authority = Ok u"
  shows "holds_token e l mint_key"
  using assms(1-3) verify_position_authority_OkD [OF assms(4)] unfolding holds_token_def by blast

lemma open_position_instr_OkE:
  assumes "open_position_instr e a lower upper s = Ok s'"
  obtains p pos l where "pools s (op_pool a) = Some p" "unused s (op_position a)"
    "open_position (op_pool a) p (op_position_mint a) lower upper default_position = Ok pos"
    "s' = s\<lparr>positions := (positions s)(op_position a \<mapsto> pos), tokens := l\<rparr>"
  using assms by (auto simp: open_position_instr_def open_position_init_def and_then_Inr_iff intro: that)

lemma open_position_with_metadata_OkE:
  assumes "open_position_with_metadata e a mk mp ua lower upper s = Ok s'"
  obtains p pos l where "pools s (op_pool a) = Some p" "unused s (op_position a)"
    "open_position (op_pool a) p (op_position_mint a) lower upper default_position = Ok pos"
    "s' = s\<lparr>positions := (positions s)(op_position a \<mapsto> pos), tokens := l\<rparr>"
  using assms
  by (auto simp: open_position_with_metadata_def open_position_init_def and_then_Inr_iff intro: that)

lemma close_position_OkE:
  assumes "close_position e auth receiver pk mk tk program s = Ok s'"
  obtains pos l where "positions s pk = Some pos" "is_position_empty pos"
    "holds_token e (tokens s) (position_mint pos)"
    "s' = s\<lparr>positions := (positions s)(pk := None), tokens := l\<rparr>"
  using assms
  by (auto simp: close_position_def and_then_Inr_iff split: if_splits intro: that holds_tokenI)

lemma initialize_position_bundle_OkE:
  assumes "initialize_position_bundle e a s = Ok s'"
  obtains l where "unused s (ib_position_bundle a)"
    "s' = s\<lparr>bundles := (bundles s)(ib_position_bundle a \<mapsto>
        bundle_initialize (ib_position_bundle_mint a) default_bundle), tokens := l\<rparr>"
  using assms
  by (auto simp: initialize_position_bundle_def bundle_init_def and_then_Inr_iff Let_def intro: that)

lemma initialize_position_bundle_with_metadata_OkE:
  assumes "initialize_position_bundle_with_metadata e a mk mp ua s = Ok s'"
  obtains l where "unused s (ib_position_bundle a)"
    "s' = s\<lparr>bundles := (bundles s)(ib_position_bundle a \<mapsto>
        bundle_initialize (ib_position_bundle_mint a) default_bundle), tokens := l\<rparr>"
  using assms
  by (auto simp: initialize_position_bundle_with_metadata_def bundle_init_def and_then_Inr_iff
      Let_def intro: that)

lemma delete_position_bundle_OkE:
  assumes "delete_position_bundle e bk mk tk owner receiver program s = Ok s'"
  obtains b token l where "bundles s bk = Some b" "is_deletable b" "is_signer e owner"
    "token_accounts (tokens s) tk = Some token" "ta_mint token = position_bundle_mint b"
    "ta_owner token = owner" "ta_amount token = 1"
    "s' = s\<lparr>bundles := (bundles s)(bk := None), tokens := l\<rparr>"
  using assms by (auto simp: delete_position_bundle_def and_then_Inr_iff split: if_splits intro: that)

lemma open_bundled_position_instr_OkE:
  assumes "open_bundled_position_instr e a pk funder i lower upper s = Ok s'"
  obtains p b b' pos where "pools s pk = Some p" "unused s (bp_bundled_position a)"
    "bundles s (bp_position_bundle a) = Some b"
    "holds_token e (tokens s) (position_bundle_mint b)" "open_bundled_position i b = Ok b'"
    "open_position pk p (position_bundle_mint b') lower upper default_position = Ok pos"
    "s' = s\<lparr>positions := (positions s)(bp_bundled_position a \<mapsto> pos),
            bundles := (bundles s)(bp_position_bundle a \<mapsto> b')\<rparr>"
  using assms
  by (auto simp: open_bundled_position_instr_def verify_position_bundle_authority_def
      and_then_Inr_iff intro: that holds_tokenI)

lemma close_bundled_position_instr_OkE:
  assumes "close_bundled_position_instr e a receiver i s = Ok s'"
  obtains pos b b' where "positions s (bp_bundled_position a) = Some pos"
    "bundles s (bp_position_bundle a) = Some b" "position_bundle_mint b = position_mint pos"
    "holds_token e (tokens s) (position_mint pos)" "is_position_empty pos"
    "close_bundled_position i b = Ok b'"
    "s' = s\<lparr>positions := (positions s)(bp_bundled_position a := None),
            bundles := (bundles s)(bp_position_bundle a \<mapsto> b')\<rparr>"
proof -
  obtain pos b b' token where r: "positions s (bp_bundled_position a) = Some pos"
    "bundles s (bp_position_bundle a) = Some b" "position_bundle_mint b = position_mint pos"
    "is_position_empty pos" "close_bundled_position i b = Ok b'"
    "s' = s\<lparr>positions := (positions s)(bp_bundled_position a := None),
            bundles := (bundles s)(bp_position_bundle a \<mapsto> b')\<rparr>"
    and t: "token_accounts (tokens s) (bp_position_bundle_token_account a) = Some token"
    "ta_mint token = position_mint pos" "ta_amount token = 1"
    "verify_position_authority e token (bp_position_bundle_authority a) = Ok ()"
    using assms
    by (auto simp: close_bundled_position_instr_def verify_position_bundle_authority_def
        and_then_Inr_iff split: if_splits)
  show ?thesis by (rule that [OF r(1-3) holds_tokenI [OF t] r(4-6)])
qed

end
