(* ===== verification/Instructions_Liquidity.thy ===== *)
theory Instructions_Liquidity
  imports Instructions_Position
begin

text \<open>
  The instructions that move tokens between a position or the protocol and the vaults:
  increasing and decreasing the liquidity, updating and collecting fees and rewards, and
  collecting the protocol fees (\<^verbatim>\<open>instructions/*.rs\<close>).
\<close>

section \<open>Changing the liquidity\<close>

record modify_liquidity_accounts =
  ml_pool :: pubkey
  ml_token_program :: pubkey
  ml_position_authority :: pubkey
  ml_position :: pubkey
  ml_position_token_account :: pubkey
  ml_token_owner_account_a :: pubkey
  ml_token_owner_account_b :: pubkey
  ml_token_vault_a :: pubkey
  ml_token_vault_b :: pubkey
  ml_tick_array_lower :: pubkey
  ml_tick_array_upper :: pubkey

definition modify_liquidity_accounts_ok ::
  "env \<Rightarrow> modify_liquidity_accounts \<Rightarrow> chain_state \<Rightarrow> (pool \<times> position \<times> token_account) result" where
  "modify_liquidity_accounts_ok e a s =
     and_then (account (pools s) (ml_pool a)) (\<lambda>p.
     and_then (require (ml_token_program a = token_ID e)) (\<lambda>_.
     and_then (signer e (ml_position_authority a)) (\<lambda>_.
     and_then (account (positions s) (ml_position a)) (\<lambda>pos.
     and_then (require (position_pool pos = ml_pool a)) (\<lambda>_.
     and_then (account (token_accounts (tokens s)) (ml_position_token_account a)) (\<lambda>token.
     and_then (require (ta_mint token = position_mint pos \<and> ta_amount token = 1)) (\<lambda>_.
     and_then (account (token_accounts (tokens s)) (ml_token_owner_account_a a)) (\<lambda>owner_a.
     and_then (require (ta_mint owner_a = token_mint_a p)) (\<lambda>_.
     and_then (account (token_accounts (tokens s)) (ml_token_owner_account_b a)) (\<lambda>owner_b.
     and_then (require (ta_mint owner_b = token_mint_b p)) (\<lambda>_.
     and_then (account (token_accounts (tokens s)) (ml_token_vault_a a)) (\<lambda>_.
     and_then (require (ml_token_vault_a a = token_vault_a p)) (\<lambda>_.
     and_then (account (token_accounts (tokens s)) (ml_token_vault_b a)) (\<lambda>_.
     and_then (require (ml_token_vault_b a = token_vault_b p)) (\<lambda>_.
     and_then (account (tick_arrays s) (ml_tick_array_lower a)) (\<lambda>lower.
     and_then (require (tick_array_pool lower = ml_pool a)) (\<lambda>_.
     and_then (account (tick_arrays s) (ml_tick_array_upper a)) (\<lambda>upper.
     and_then (require (tick_array_pool upper = ml_pool a)) (\<lambda>_.
     Ok (p, pos, token))))))))))))))))))))"

definition increase_liquidity ::
  "env \<Rightarrow> modify_liquidity_accounts \<Rightarrow> u128 \<Rightarrow> u64 \<Rightarrow> u64 \<Rightarrow> chain_state \<Rightarrow> chain_state result" where
  "increase_liquidity e a liquidity_amount token_max_a token_max_b s =
     and_then (modify_liquidity_accounts_ok e a s) (\<lambda>(p, pos, token).
     and_then (verify_position_authority e token (ml_position_authority a)) (\<lambda>_.
     if liquidity_amount = 0 then Fail LiquidityZero
     else
       and_then (convert_to_liquidity_delta liquidity_amount True) (\<lambda>liquidity_delta.
       and_then (to_timestamp_u64 (unix_timestamp e)) (\<lambda>timestamp.
       and_then (calculate_modify_liquidity p pos (tick_arrays s) (ml_tick_array_lower a)
         (ml_tick_array_upper a) liquidity_delta timestamp) (\<lambda>upd.
       and_then (sync_modify_liquidity_values p pos (tick_arrays s) (ml_tick_array_lower a)
         (ml_tick_array_upper a) upd timestamp) (\<lambda>(p, pos, arrays).
       and_then (calculate_liquidity_token_deltas (tick_current_index p) (sqrt_price p) pos
         liquidity_delta) (\<lambda>(delta_a, delta_b).
       if delta_a > token_max_a then Fail TokenMaxExceeded
       else if delta_b > token_max_b then Fail TokenMaxExceeded
       else
         and_then (transfer_from_owner_to_vault e (ml_position_authority a)
           (ml_token_owner_account_a a) (ml_token_vault_a a) delta_a (tokens s)) (\<lambda>l.
         and_then (transfer_from_owner_to_vault e (ml_position_authority a)
           (ml_token_owner_account_b a) (ml_token_vault_b a) delta_b l) (\<lambda>l.
         Ok (s\<lparr>pools := (pools s)(ml_pool a \<mapsto> p),
               positions := (positions s)(ml_position a \<mapsto> pos),
               tick_arrays := arrays, tokens := l\<rparr>))))))))))"

definition decrease_liquidity ::
  "env \<Rightarrow> modify_liquidity_accounts \<Rightarrow> u128 \<Rightarrow> u64 \<Rightarrow> u64 \<Rightarrow> chain_state \<Rightarrow> chain_state result" where
  "decrease_liquidity e a liquidity_amount token_min_a token_min_b s =
     and_then (modify_liquidity_accounts_ok e a s) (\<lambda>(p, pos, token).
     and_then (verify_position_authority e token (ml_position_authority a)) (\<lambda>_.
     if liquidity_amount = 0 then Fail LiquidityZero
     else
       and_then (convert_to_liquidity_delta liquidity_amount False) (\<lambda>liquidity_delta.
       and_then (to_timestamp_u64 (unix_timestamp e)) (\<lambda>timestamp.
       and_then (calculate_modify_liquidity p pos (tick_arrays s) (ml_tick_array_lower a)
         (ml_tick_array_upper a) liquidity_delta timestamp) (\<lambda>upd.
       and_then (sync_modify_liquidity_values p pos (tick_arrays s) (ml_tick_array_lower a)
         (ml_tick_array_upper a) upd timestamp) (\<lambda>(p, pos, arrays).
       and_then (calculate_liquidity_token_deltas (tick_current_index p) (sqrt_price p) pos
         liquidity_delta) (\<lambda>(delta_a, delta_b).
       if delta_a < token_min_a then Fail TokenMinSubceeded
       else if delta_b < token_min_b then Fail TokenMinSubceeded
       else
         and_then (transfer_from_vault_to_owner e (ml_pool a) p (ml_token_vault_a a)
           (ml_token_owner_account_a a) delta_a (tokens s)) (\<lambda>l.
         and_then (transfer_from_vault_to_owner e (ml_pool a) p (ml_token_vault_b a)
           (ml_token_owner_account_b a) delta_b l) (\<lambda>l.
         Ok (s\<lparr>pools := (pools s)(ml_pool a \<mapsto> p),
               positions := (positions s)(ml_position a \<mapsto> pos),
               tick_arrays := arrays, tokens := l\<rparr>))))))))))"

section \<open>Fees and rewards\<close>

definition update_fees_and_rewards ::
  "env \<Rightarrow> pubkey \<Rightarrow> pubkey \<Rightarrow> pubkey \<Rightarrow> pubkey \<Rightarrow> chain_state \<Rightarrow> chain_state result" where
  "update_fees_and_rewards e pool_key position_key lower_key upper_key s =
     and_then (account (pools s) pool_key) (\<lambda>p.
     and_then (account (positions s) position_key) (\<lambda>pos.
     and_then (require (position_pool pos = pool_key)) (\<lambda>_.
     and_then (account (tick_arrays s) lower_key) (\<lambda>lower.
     and_then (require (tick_array_pool lower = pool_key)) (\<lambda>_.
     and_then (account (tick_arrays s) upper_key) (\<lambda>upper.
     and_then (require (tick_array_pool upper = pool_key)) (\<lambda>_.
     and_then (to_timestamp_u64 (unix_timestamp e)) (\<lambda>timestamp.
     and_then (calculate_fee_and_reward_growths p pos (tick_arrays s) lower_key upper_key timestamp)
       (\<lambda>(pos_update, infos).
     Ok (s\<lparr>pools := (pools s)(pool_key \<mapsto> update_rewards infos timestamp p),
           positions := (positions s)(position_key \<mapsto> position_apply_update pos_update pos)\<rparr>))))))))))"

record collect_fees_accounts =
  cf_pool :: pubkey
  cf_position_authority :: pubkey
  cf_position :: pubkey
  cf_position_token_account :: pubkey
  cf_token_owner_account_a :: pubkey
  cf_token_vault_a :: pubkey
  cf_token_owner_account_b :: pubkey
  cf_token_vault_b :: pubkey
  cf_token_program :: pubkey

definition collect_fees :: "env \<Rightarrow> collect_fees_accounts \<Rightarrow> chain_state \<Rightarrow> chain_state result" where
  "collect_fees e a s =
     and_then (account (pools s) (cf_pool a)) (\<lambda>p.
     and_then (signer e (cf_position_authority a)) (\<lambda>_.
     and_then (account (positions s) (cf_position a)) (\<lambda>pos.
     and_then (require (position_pool pos = cf_pool a)) (\<lambda>_.
     and_then (account (token_accounts (tokens s)) (cf_position_token_account a)) (\<lambda>token.
     and_then (require (ta_mint token = position_mint pos \<and> ta_amount token = 1)) (\<lambda>_.
     and_then (account (token_accounts (tokens s)) (cf_token_owner_account_a a)) (\<lambda>owner_a.
     and_then (require (ta_mint owner_a = token_mint_a p)) (\<lambda>_.
     and_then (account (token_accounts (tokens s)) (cf_token_vault_a a)) (\<lambda>_.
     and_then (require (cf_token_vault_a a = token_vault_a p)) (\<lambda>_.
     and_then (account (token_accounts (tokens s)) (cf_token_owner_account_b a)) (\<lambda>owner_b.
     and_then (require (ta_mint owner_b = token_mint_b p)) (\<lambda>_.
     and_then (account (token_accounts (tokens s)) (cf_token_vault_b a)) (\<lambda>_.
     and_then (require (cf_token_vault_b a = token_vault_b p)) (\<lambda>_.
     and_then (require (cf_token_program a = token_ID e)) (\<lambda>_.
     and_then (verify_position_authority e token (cf_position_authority a)) (\<lambda>_.
     let owed_a = fee_owed_a pos; owed_b = fee_owed_b pos; pos = reset_fees_owed pos in
     and_then (transfer_from_vault_to_owner e (cf_pool a) p (cf_token_vault_a a)
       (cf_token_owner_account_a a) owed_a (tokens s)) (\<lambda>l.
     and_then (transfer_from_vault_to_owner e (cf_pool a) p (cf_token_vault_b a)
       (cf_token_owner_account_b a) owed_b l) (\<lambda>l.
     Ok (s\<lparr>positions := (positions s)(cf_position a \<mapsto> pos), tokens := l\<rparr>)))))))))))))))))))"

definition calculate_collect_reward :: "position_reward_info \<Rightarrow> u64 \<Rightarrow> u64 \<times> u64" where
  "calculate_collect_reward position_reward vault_amount =
     (let owed = amount_owed position_reward in
      if owed > vault_amount then (vault_amount, owed - vault_amount) else (owed, 0))"

record collect_reward_accounts =
  cr_pool :: pubkey
  cr_position_authority :: pubkey
  cr_position :: pubkey
  cr_position_token_account :: pubkey
  cr_reward_owner_account :: pubkey
  cr_reward_vault :: pubkey
  cr_token_program :: pubkey

definition collect_reward ::
  "env \<Rightarrow> collect_reward_accounts \<Rightarrow> u8 \<Rightarrow> chain_state \<Rightarrow> chain_state result" where
  "collect_reward e a reward_index s =
     and_then (account (pools s) (cr_pool a)) (\<lambda>p.
     and_then (signer e (cr_position_authority a)) (\<lambda>_.
     and_then (account (positions s) (cr_position a)) (\<lambda>pos.
     and_then (require (position_pool pos = cr_pool a)) (\<lambda>_.
     and_then (account (token_accounts (tokens s)) (cr_position_token_account a)) (\<lambda>token.
     and_then (require (ta_mint token = position_mint pos \<and> ta_amount token = 1)) (\<lambda>_.
     and_then (account (token_accounts (tokens s)) (cr_reward_owner_account a)) (\<lambda>owner.
     and_then (arr_get (pool_reward_infos p) (unat reward_index)) (\<lambda>info.
     and_then (require (ta_mint owner = reward_mint info)) (\<lambda>_.
     and_then (account (token_accounts (tokens s)) (cr_reward_vault a)) (\<lambda>vault.
     and_then (require (cr_reward_vault a = reward_vault info)) (\<lambda>_.
     and_then (require (cr_token_program a = token_ID e)) (\<lambda>_.
     and_then (verify_position_authority e token (cr_position_authority a)) (\<lambda>_.
     let index = unat reward_index in
     and_then (arr_get (position_reward_infos pos) index) (\<lambda>reward.
     let (transfer_amount, updated_amount_owed) = calculate_collect_reward reward (ta_amount vault) in
     and_then (update_reward_owed index updated_amount_owed pos) (\<lambda>pos.
     and_then (transfer_from_vault_to_owner e (cr_pool a) p (cr_reward_vault a)
       (cr_reward_owner_account a) transfer_amount (tokens s)) (\<lambda>l.
     Ok (s\<lparr>positions := (positions s)(cr_position a \<mapsto> pos), tokens := l\<rparr>)))))))))))))))))"

record collect_protocol_fees_accounts =
  cp_pools_config :: pubkey
  cp_pool :: pubkey
  cp_collect_protocol_fees_authority :: pubkey
  cp_token_vault_a :: pubkey
  cp_token_vault_b :: pubkey
  cp_token_destination_a :: pubkey
  cp_token_destination_b :: pubkey
  cp_token_program :: pubkey

definition collect_protocol_fees ::
  "env \<Rightarrow> collect_protocol_fees_accounts \<Rightarrow> chain_state \<Rightarrow> chain_state result" where
  "collect_protocol_fees e a s =
     and_then (account (configs s) (cp_pools_config a)) (\<lambda>config.
     and_then (account (pools s) (cp_pool a)) (\<lambda>p.
     and_then (require (pool_config p = cp_pools_config a)) (\<lambda>_.
     and_then (require (cp_collect_protocol_fees_authority a = collect_protocol_fees_authority config)) (\<lambda>_.
     and_then (signer e (cp_collect_protocol_fees_authority a)) (\<lambda>_.
     and_then (account (token_accounts (tokens s)) (cp_token_vault_a a)) (\<lambda>_.
     and_then (require (cp_token_vault_a a = token_vault_a p)) (\<lambda>_.
     and_then (account (token_accounts (tokens s)) (cp_token_vault_b a)) (\<lambda>_.
     and_then (require (cp_token_vault_b a = token_vault_b p)) (\<lambda>_.
     and_then (account (token_accounts (tokens s)) (cp_token_destination_a a)) (\<lambda>dest_a.
     and_then (require (ta_mint dest_a = token_mint_a p)) (\<lambda>_.
     and_then (account (token_accounts (tokens s)) (cp_token_destination_b a)) (\<lambda>dest_b.
     and_then (require (ta_mint dest_b = token_mint_b p)) (\<lambda>_.
     and_then (require (cp_token_program a = token_ID e)) (\<lambda>_.
     and_then (transfer_from_vault_to_owner e (cp_pool a) p (cp_token_vault_a a)
       (cp_token_destination_a a) (protocol_fee_owed_a p) (tokens s)) (\<lambda>l.
     and_then (transfer_from_vault_to_owner e (cp_pool a) p (cp_token_vault_b a)
       (cp_token_destination_b a) (protocol_fee_owed_b p) l) (\<lambda>l.
     Ok (s\<lparr>pools := (pools s)(cp_pool a \<mapsto> reset_protocol_fees_owed p), tokens := l\<rparr>)))))))))))))))))"

section \<open>What a successful instruction has checked and written\<close>

lemma modify_liquidity_accounts_OkD:
  assumes "modify_liquidity_accounts_ok e a s = Ok (p, pos, token)"
  shows "pools s (ml_pool a) = Some p \<and> positions s (ml_position a) = Some pos \<and>
    position_pool pos = ml_pool a \<and>
    token_accounts (tokens s) (ml_position_token_account a) = Some token \<and>
    ta_mint token = position_mint pos \<and> ta_amount token = 1 \<and>
    ml_token_vault_a a = token_vault_a p \<and> ml_token_vault_b a = token_vault_b p \<and>
    (\<exists>lower upper. tick_arrays s (ml_tick_array_lower a) = Some lower \<and> tick_array_pool lower = ml_pool a \<and>
       tick_arrays s (ml_tick_array_upper a) = Some upper \<and> tick_array_pool upper = ml_pool a)"
  using assms by (auto simp: modify_liquidity_accounts_ok_def and_then_Inr_iff)

lemma increase_liquidity_OkE:
  assumes "increase_liquidity e a amount max_a max_b s = Ok s'"
  obtains p pos token delta timestamp upd p' pos' arrays delta_a delta_b l l' where
    "modify_liquidity_accounts_ok e a s = Ok (p, pos, token)"
    "holds_token e (tokens s) (position_mint pos)"
    "amount \<noteq> 0" "convert_to_liquidity_delta amount True = Ok delta"
    "to_timestamp_u64 (unix_timestamp e) = Ok timestamp"
    "calculate_modify_liquidity p pos (tick_arrays s) (ml_tick_array_lower a) (ml_tick_array_upper a)
       delta timestamp = Ok upd"
    "sync_modify_liquidity_values p pos (tick_arrays s) (ml_tick_array_lower a) (ml_tick_array_upper a)
       upd timestamp = Ok (p', pos', arrays)"
    "calculate_liquidity_token_deltas (tick_current_index p') (sqrt_price p') pos' delta = Ok (delta_a, delta_b)"
    "delta_a \<le> max_a" "delta_b \<le> max_b"
    "op_transfer (ops e) (tokens s) (ml_token_owner_account_a a) (ml_token_vault_a a)
       (ml_position_authority a) delta_a = Ok l"
    "op_transfer (ops e) l (ml_token_owner_account_b a) (ml_token_vault_b a)
       (ml_position_authority a) delta_b = Ok l'"
    "s' = s\<lparr>pools := (pools s)(ml_pool a \<mapsto> p'), positions := (positions s)(ml_position a \<mapsto> pos'),
           tick_arrays := arrays, tokens := l'\<rparr>"
proof -
  obtain p pos token where m: "modify_liquidity_accounts_ok e a s = Ok (p, pos, token)"
    and v: "verify_position_authority e token (ml_position_authority a) = Ok ()"
    using assms by (auto simp: increase_liquidity_def and_then_Inr_iff)
  have h: "holds_token e (tokens s) (position_mint pos)"
    using modify_liquidity_accounts_OkD [OF m] v holds_tokenI by blast
  show ?thesis
    using assms m v h
    by (auto simp: increase_liquidity_def transfer_from_owner_to_vault_def and_then_Inr_iff not_less
        split: if_splits intro: that)
qed

lemma decrease_liquidity_OkE:
  assumes "decrease_liquidity e a amount min_a min_b s = Ok s'"
  obtains p pos token delta timestamp upd p' pos' arrays delta_a delta_b l l' where
    "modify_liquidity_accounts_ok e a s = Ok (p, pos, token)"
    "holds_token e (tokens s) (position_mint pos)"
    "amount \<noteq> 0" "convert_to_liquidity_delta amount False = Ok delta"
    "to_timestamp_u64 (unix_timestamp e) = Ok timestamp"
    "calculate_modify_liquidity p pos (tick_arrays s) (ml_tick_array_lower a) (ml_tick_array_upper a)
       delta timestamp = Ok upd"
    "sync_modify_liquidity_values p pos (tick_arrays s) (ml_tick_array_lower a) (ml_tick_array_upper a)
       upd timestamp = Ok (p', pos', arrays)"
    "calculate_liquidity_token_deltas (tick_current_index p') (sqrt_price p') pos' delta = Ok (delta_a, delta_b)"
    "min_a \<le> delta_a" "min_b \<le> delta_b"
    "op_transfer (ops e) (tokens s) (ml_token_vault_a a) (ml_token_owner_account_a a) (ml_pool a)
       delta_a = Ok l"
    "op_transfer (ops e) l (ml_token_vault_b a) (ml_token_owner_account_b a) (ml_pool a) delta_b = Ok l'"
    "s' = s\<lparr>pools := (pools s)(ml_pool a \<mapsto> p'), positions := (positions s)(ml_position a \<mapsto> pos'),
           tick_arrays := arrays, tokens := l'\<rparr>"
proof -
  obtain p pos token where m: "modify_liquidity_accounts_ok e a s = Ok (p, pos, token)"
    and v: "verify_position_authority e token (ml_position_authority a) = Ok ()"
    using assms by (auto simp: decrease_liquidity_def and_then_Inr_iff)
  have h: "holds_token e (tokens s) (position_mint pos)"
    using modify_liquidity_accounts_OkD [OF m] v holds_tokenI by blast
  show ?thesis
    using assms m v h
    by (auto simp: decrease_liquidity_def transfer_from_vault_to_owner_def and_then_Inr_iff not_less
        split: if_splits intro: that)
qed

lemma update_fees_and_rewards_OkE:
  assumes "update_fees_and_rewards e pk qk lk uk s = Ok s'"
  obtains p pos timestamp pu infos where "pools s pk = Some p" "positions s qk = Some pos"
    "position_pool pos = pk" "to_timestamp_u64 (unix_timestamp e) = Ok timestamp"
    "calculate_fee_and_reward_growths p pos (tick_arrays s) lk uk timestamp = Ok (pu, infos)"
    "s' = s\<lparr>pools := (pools s)(pk \<mapsto> update_rewards infos timestamp p),
           positions := (positions s)(qk \<mapsto> position_apply_update pu pos)\<rparr>"
  using assms by (auto simp: update_fees_and_rewards_def and_then_Inr_iff intro: that)

lemma collect_fees_OkE:
  assumes "collect_fees e a s = Ok s'"
  obtains p pos l l' where "pools s (cf_pool a) = Some p" "positions s (cf_position a) = Some pos"
    "position_pool pos = cf_pool a" "holds_token e (tokens s) (position_mint pos)"
    "cf_token_vault_a a = token_vault_a p" "cf_token_vault_b a = token_vault_b p"
    "op_transfer (ops e) (tokens s) (cf_token_vault_a a) (cf_token_owner_account_a a) (cf_pool a)
       (fee_owed_a pos) = Ok l"
    "op_transfer (ops e) l (cf_token_vault_b a) (cf_token_owner_account_b a) (cf_pool a)
       (fee_owed_b pos) = Ok l'"
    "s' = s\<lparr>positions := (positions s)(cf_position a \<mapsto> reset_fees_owed pos), tokens := l'\<rparr>"
  using assms
  by (auto simp: collect_fees_def transfer_from_vault_to_owner_def and_then_Inr_iff Let_def
      intro: that holds_tokenI)

lemma collect_reward_OkE:
  assumes "collect_reward e a i s = Ok s'"
  obtains p pos info reward vault pos' l where "pools s (cr_pool a) = Some p"
    "positions s (cr_position a) = Some pos" "position_pool pos = cr_pool a"
    "holds_token e (tokens s) (position_mint pos)"
    "arr_get (pool_reward_infos p) (unat i) = Ok info" "cr_reward_vault a = reward_vault info"
    "token_accounts (tokens s) (cr_reward_vault a) = Some vault"
    "arr_get (position_reward_infos pos) (unat i) = Ok reward"
    "update_reward_owed (unat i) (snd (calculate_collect_reward reward (ta_amount vault))) pos = Ok pos'"
    "op_transfer (ops e) (tokens s) (cr_reward_vault a) (cr_reward_owner_account a) (cr_pool a)
       (fst (calculate_collect_reward reward (ta_amount vault))) = Ok l"
    "s' = s\<lparr>positions := (positions s)(cr_position a \<mapsto> pos'), tokens := l\<rparr>"
proof -
  obtain p pos token info reward vault pos' l where
    p: "pools s (cr_pool a) = Some p" "positions s (cr_position a) = Some pos"
    "position_pool pos = cr_pool a"
    and t: "token_accounts (tokens s) (cr_position_token_account a) = Some token"
    "ta_mint token = position_mint pos" "ta_amount token = 1"
    "verify_position_authority e token (cr_position_authority a) = Ok ()"
    and r: "arr_get (pool_reward_infos p) (unat i) = Ok info" "cr_reward_vault a = reward_vault info"
    "token_accounts (tokens s) (cr_reward_vault a) = Some vault"
    "arr_get (position_reward_infos pos) (unat i) = Ok reward"
    "update_reward_owed (unat i) (snd (calculate_collect_reward reward (ta_amount vault))) pos = Ok pos'"
    "op_transfer (ops e) (tokens s) (cr_reward_vault a) (cr_reward_owner_account a) (cr_pool a)
       (fst (calculate_collect_reward reward (ta_amount vault))) = Ok l"
    "s' = s\<lparr>positions := (positions s)(cr_position a \<mapsto> pos'), tokens := l\<rparr>"
    using assms
    by (auto simp: collect_reward_def transfer_from_vault_to_owner_def and_then_Inr_iff Let_def
        case_prod_beta simp del: arr_get_Ok_iff)
  show ?thesis by (rule that [OF p holds_tokenI [OF t] r])
qed

lemma collect_protocol_fees_OkE:
  assumes "collect_protocol_fees e a s = Ok s'"
  obtains c p l l' where "configs s (cp_pools_config a) = Some c" "pools s (cp_pool a) = Some p"
    "pool_config p = cp_pools_config a" "is_signer e (collect_protocol_fees_authority c)"
    "cp_token_vault_a a = token_vault_a p" "cp_token_vault_b a = token_vault_b p"
    "op_transfer (ops e) (tokens s) (cp_token_vault_a a) (cp_token_destination_a a) (cp_pool a)
       (protocol_fee_owed_a p) = Ok l"
    "op_transfer (ops e) l (cp_token_vault_b a) (cp_token_destination_b a) (cp_pool a)
       (protocol_fee_owed_b p) = Ok l'"
    "s' = s\<lparr>pools := (pools s)(cp_pool a \<mapsto> reset_protocol_fees_owed p), tokens := l'\<rparr>"
  using assms
  by (auto simp: collect_protocol_fees_def transfer_from_vault_to_owner_def and_then_Inr_iff intro: that)

end
