(* ===== verification/Instructions_Swap.thy ===== *)
theory Instructions_Swap
  imports Instructions_Liquidity
begin

text \<open>
  The swap instructions (\<^verbatim>\<open>instructions/swap.rs\<close>, \<^verbatim>\<open>instructions/two_hop_swap.rs\<close>).
  \<open>load_mut\<close> of a tick array that is already borrowed fails: the first array is unwrapped, the
  others are dropped from the sequence (\<open>.ok()\<close>).
\<close>

section \<open>Borrowing tick arrays\<close>

definition try_load_mut :: "tick_array_store \<Rightarrow> pubkey list \<Rightarrow> pubkey \<Rightarrow> tick_array option" where
  "try_load_mut arrays borrowed key = (if key \<in> set borrowed then None else arrays key)"

text \<open>
  The keys that are borrowed, in order, and the sequence. A borrowed key stays borrowed until
  the instruction ends.
\<close>

definition load_sequence ::
  "tick_array_store \<Rightarrow> pubkey list \<Rightarrow> pubkey \<Rightarrow> pubkey \<Rightarrow> pubkey \<Rightarrow>
   (pubkey list \<times> swap_tick_sequence) result" where
  "load_sequence arrays borrowed k0 k1 k2 =
     (case try_load_mut arrays borrowed k0 of
        None \<Rightarrow> Inl Panic
      | Some ta0 \<Rightarrow>
          let ta1 = try_load_mut arrays (k0 # borrowed) k1;
              ta2 = try_load_mut arrays (k1 # k0 # borrowed) k2;
              keys = [k0] @ (if ta1 = None then [] else [k1]) @ (if ta2 = None then [] else [k2])
          in Ok (keys, swap_tick_sequence_new ta0 ta1 ta2))"

text \<open>The arrays are written back under the keys they were loaded from.\<close>

definition store_sequence ::
  "pubkey list \<Rightarrow> swap_tick_sequence \<Rightarrow> tick_array_store \<Rightarrow> tick_array_store" where
  "store_sequence keys arrays store = store ++ map_of (zip keys arrays)"

section \<open>Swap\<close>

record swap_accounts =
  sw_token_program :: pubkey
  sw_token_authority :: pubkey
  sw_pool :: pubkey
  sw_token_owner_account_a :: pubkey
  sw_token_vault_a :: pubkey
  sw_token_owner_account_b :: pubkey
  sw_token_vault_b :: pubkey
  sw_tick_array_0 :: pubkey
  sw_tick_array_1 :: pubkey
  sw_tick_array_2 :: pubkey
  sw_oracle :: pubkey

text \<open>\<open>has_one = pool\<close> of a tick array.\<close>

definition tick_array_of_pool :: "chain_state \<Rightarrow> pubkey \<Rightarrow> pubkey \<Rightarrow> unit result" where
  "tick_array_of_pool s pool_key key =
     and_then (account (tick_arrays s) key) (\<lambda>ta. require (tick_array_pool ta = pool_key))"

text \<open>The constraints on the token accounts of a swap.\<close>

definition swap_token_accounts_ok ::
  "chain_state \<Rightarrow> pool \<Rightarrow> pubkey \<Rightarrow> pubkey \<Rightarrow> pubkey \<Rightarrow> pubkey \<Rightarrow> unit result" where
  "swap_token_accounts_ok s p owner_a vault_a owner_b vault_b =
     and_then (account (token_accounts (tokens s)) owner_a) (\<lambda>account_a.
     and_then (require (ta_mint account_a = token_mint_a p)) (\<lambda>_.
     and_then (account (token_accounts (tokens s)) vault_a) (\<lambda>_.
     and_then (require (vault_a = token_vault_a p)) (\<lambda>_.
     and_then (account (token_accounts (tokens s)) owner_b) (\<lambda>account_b.
     and_then (require (ta_mint account_b = token_mint_b p)) (\<lambda>_.
     and_then (account (token_accounts (tokens s)) vault_b) (\<lambda>_.
     require (vault_b = token_vault_b p))))))))"

definition swap_accounts_ok :: "env \<Rightarrow> swap_accounts \<Rightarrow> chain_state \<Rightarrow> pool result" where
  "swap_accounts_ok e a s =
     and_then (require (sw_token_program a = token_ID e)) (\<lambda>_.
     and_then (signer e (sw_token_authority a)) (\<lambda>_.
     and_then (account (pools s) (sw_pool a)) (\<lambda>p.
     and_then (swap_token_accounts_ok s p (sw_token_owner_account_a a) (sw_token_vault_a a)
       (sw_token_owner_account_b a) (sw_token_vault_b a)) (\<lambda>_.
     and_then (tick_array_of_pool s (sw_pool a) (sw_tick_array_0 a)) (\<lambda>_.
     and_then (tick_array_of_pool s (sw_pool a) (sw_tick_array_1 a)) (\<lambda>_.
     and_then (tick_array_of_pool s (sw_pool a) (sw_tick_array_2 a)) (\<lambda>_.
     and_then (seeds_account e [Seed_Text ''oracle'', Seed_Key (sw_pool a)] (sw_oracle a)) (\<lambda>_.
     Ok p))))))))"

definition swap_instr ::
  "env \<Rightarrow> swap_accounts \<Rightarrow> u64 \<Rightarrow> u64 \<Rightarrow> u128 \<Rightarrow> bool \<Rightarrow> bool \<Rightarrow> chain_state \<Rightarrow> chain_state result" where
  "swap_instr e a amount other_amount_threshold sqrt_price_limit is_input a_to_b s =
     and_then (swap_accounts_ok e a s) (\<lambda>p.
     and_then (to_timestamp_u64 (unix_timestamp e)) (\<lambda>timestamp.
     and_then (load_sequence (tick_arrays s) [] (sw_tick_array_0 a) (sw_tick_array_1 a)
       (sw_tick_array_2 a)) (\<lambda>(keys, arrays).
     and_then (swap p arrays amount sqrt_price_limit is_input a_to_b timestamp) (\<lambda>(upd, arrays).
     and_then (if is_input then
         if a_to_b \<and> other_amount_threshold > amount_b upd \<or>
            \<not> a_to_b \<and> other_amount_threshold > amount_a upd then Fail AmountOutBelowMinimum
         else Ok ()
       else
         if a_to_b \<and> other_amount_threshold < amount_a upd \<or>
            \<not> a_to_b \<and> other_amount_threshold < amount_b upd then Fail AmountInAboveMaximum
         else Ok ()) (\<lambda>_.
     and_then (update_and_swap_pool e (sw_pool a) p (sw_token_authority a)
       (sw_token_owner_account_a a) (sw_token_owner_account_b a) (sw_token_vault_a a)
       (sw_token_vault_b a) upd a_to_b timestamp (tokens s)) (\<lambda>(p, l).
     Ok (s\<lparr>pools := (pools s)(sw_pool a \<mapsto> p),
           tick_arrays := store_sequence keys arrays (tick_arrays s), tokens := l\<rparr>)))))))"

section \<open>Two-hop swap\<close>

record two_hop_accounts =
  th_token_program :: pubkey
  th_token_authority :: pubkey
  th_pool_one :: pubkey
  th_pool_two :: pubkey
  th_token_owner_account_one_a :: pubkey
  th_token_vault_one_a :: pubkey
  th_token_owner_account_one_b :: pubkey
  th_token_vault_one_b :: pubkey
  th_token_owner_account_two_a :: pubkey
  th_token_vault_two_a :: pubkey
  th_token_owner_account_two_b :: pubkey
  th_token_vault_two_b :: pubkey
  th_tick_array_one_0 :: pubkey
  th_tick_array_one_1 :: pubkey
  th_tick_array_one_2 :: pubkey
  th_tick_array_two_0 :: pubkey
  th_tick_array_two_1 :: pubkey
  th_tick_array_two_2 :: pubkey
  th_oracle_one :: pubkey
  th_oracle_two :: pubkey

definition two_hop_accounts_ok :: "env \<Rightarrow> two_hop_accounts \<Rightarrow> chain_state \<Rightarrow> (pool \<times> pool) result" where
  "two_hop_accounts_ok e a s =
     and_then (require (th_token_program a = token_ID e)) (\<lambda>_.
     and_then (signer e (th_token_authority a)) (\<lambda>_.
     and_then (account (pools s) (th_pool_one a)) (\<lambda>p1.
     and_then (account (pools s) (th_pool_two a)) (\<lambda>p2.
     and_then (swap_token_accounts_ok s p1 (th_token_owner_account_one_a a) (th_token_vault_one_a a)
       (th_token_owner_account_one_b a) (th_token_vault_one_b a)) (\<lambda>_.
     and_then (swap_token_accounts_ok s p2 (th_token_owner_account_two_a a) (th_token_vault_two_a a)
       (th_token_owner_account_two_b a) (th_token_vault_two_b a)) (\<lambda>_.
     and_then (tick_array_of_pool s (th_pool_one a) (th_tick_array_one_0 a)) (\<lambda>_.
     and_then (tick_array_of_pool s (th_pool_one a) (th_tick_array_one_1 a)) (\<lambda>_.
     and_then (tick_array_of_pool s (th_pool_one a) (th_tick_array_one_2 a)) (\<lambda>_.
     and_then (tick_array_of_pool s (th_pool_two a) (th_tick_array_two_0 a)) (\<lambda>_.
     and_then (tick_array_of_pool s (th_pool_two a) (th_tick_array_two_1 a)) (\<lambda>_.
     and_then (tick_array_of_pool s (th_pool_two a) (th_tick_array_two_2 a)) (\<lambda>_.
     and_then (seeds_account e [Seed_Text ''oracle'', Seed_Key (th_pool_one a)] (th_oracle_one a)) (\<lambda>_.
     and_then (seeds_account e [Seed_Text ''oracle'', Seed_Key (th_pool_two a)] (th_oracle_two a)) (\<lambda>_.
     Ok (p1, p2)))))))))))))))"

text \<open>
  The two calculations: from the first pool to the second when the input is given, from the
  second to the first when the output is. The amount of the intermediate token links them.
\<close>

definition two_hop_calculation ::
  "pool \<Rightarrow> pool \<Rightarrow> swap_tick_sequence \<Rightarrow> swap_tick_sequence \<Rightarrow> u64 \<Rightarrow> u128 \<Rightarrow> u128 \<Rightarrow> bool \<Rightarrow> bool \<Rightarrow> bool \<Rightarrow> u64 \<Rightarrow>
   ((post_swap_update \<times> swap_tick_sequence) \<times> (post_swap_update \<times> swap_tick_sequence)) result" where
  "two_hop_calculation p1 p2 arrays1 arrays2 amount limit1 limit2 is_input a_to_b_one a_to_b_two timestamp =
     (if is_input then
        and_then (swap p1 arrays1 amount limit1 is_input a_to_b_one timestamp) (\<lambda>(upd1, arrays1).
        let swap_two_input_amount = (if a_to_b_one then amount_b upd1 else amount_a upd1) in
        and_then (swap p2 arrays2 swap_two_input_amount limit2 is_input a_to_b_two timestamp)
          (\<lambda>(upd2, arrays2).
        Ok ((upd1, arrays1), (upd2, arrays2))))
      else
        and_then (swap p2 arrays2 amount limit2 is_input a_to_b_two timestamp) (\<lambda>(upd2, arrays2).
        let swap_one_output_amount = (if a_to_b_two then amount_a upd2 else amount_b upd2) in
        and_then (swap p1 arrays1 swap_one_output_amount limit1 is_input a_to_b_one timestamp)
          (\<lambda>(upd1, arrays1).
        Ok ((upd1, arrays1), (upd2, arrays2)))))"

definition two_hop_swap ::
  "env \<Rightarrow> two_hop_accounts \<Rightarrow> u64 \<Rightarrow> u64 \<Rightarrow> bool \<Rightarrow> bool \<Rightarrow> bool \<Rightarrow> u128 \<Rightarrow> u128 \<Rightarrow> chain_state \<Rightarrow>
   chain_state result" where
  "two_hop_swap e a amount other_amount_threshold is_input a_to_b_one a_to_b_two limit1 limit2 s =
     and_then (two_hop_accounts_ok e a s) (\<lambda>(p1, p2).
     and_then (to_timestamp_u64 (unix_timestamp e)) (\<lambda>timestamp.
     if th_pool_one a = th_pool_two a then Fail DuplicateTwoHopPool
     else if (if a_to_b_one then token_mint_b p1 else token_mint_a p1) \<noteq>
             (if a_to_b_two then token_mint_a p2 else token_mint_b p2) then Fail InvalidIntermediaryMint
     else
       and_then (load_sequence (tick_arrays s) [] (th_tick_array_one_0 a) (th_tick_array_one_1 a)
         (th_tick_array_one_2 a)) (\<lambda>(keys1, arrays1).
       and_then (load_sequence (tick_arrays s) keys1 (th_tick_array_two_0 a) (th_tick_array_two_1 a)
         (th_tick_array_two_2 a)) (\<lambda>(keys2, arrays2).
       and_then (two_hop_calculation p1 p2 arrays1 arrays2 amount limit1 limit2 is_input
         a_to_b_one a_to_b_two timestamp) (\<lambda>((upd1, arrays1), (upd2, arrays2)).
       and_then (if is_input then
           if other_amount_threshold > (if a_to_b_two then amount_b upd2 else amount_a upd2)
           then Fail AmountOutBelowMinimum else Ok ()
         else
           if other_amount_threshold < (if a_to_b_one then amount_a upd1 else amount_b upd1)
           then Fail AmountInAboveMaximum else Ok ()) (\<lambda>_.
       and_then (update_and_swap_pool e (th_pool_one a) p1 (th_token_authority a)
         (th_token_owner_account_one_a a) (th_token_owner_account_one_b a)
         (th_token_vault_one_a a) (th_token_vault_one_b a) upd1 a_to_b_one timestamp (tokens s))
         (\<lambda>(p1, l).
       and_then (update_and_swap_pool e (th_pool_two a) p2 (th_token_authority a)
         (th_token_owner_account_two_a a) (th_token_owner_account_two_b a)
         (th_token_vault_two_a a) (th_token_vault_two_b a) upd2 a_to_b_two timestamp l)
         (\<lambda>(p2, l).
       Ok (s\<lparr>pools := (pools s)(th_pool_one a \<mapsto> p1, th_pool_two a \<mapsto> p2),
             tick_arrays := store_sequence keys2 arrays2 (store_sequence keys1 arrays1 (tick_arrays s)),
             tokens := l\<rparr>)))))))))"

section \<open>What a successful swap has checked and written\<close>

lemma update_and_swap_pool_OkE:
  assumes "update_and_swap_pool e pk p authority owner_a owner_b vault_a vault_b upd a_to_b ts l0 = Ok (p', l')"
  obtains l where
    "op_transfer (ops e) l0 (if a_to_b then owner_a else owner_b) (if a_to_b then vault_a else vault_b)
       authority (if a_to_b then amount_a upd else amount_b upd) = Ok l"
    "op_transfer (ops e) l (if a_to_b then vault_b else vault_a) (if a_to_b then owner_b else owner_a)
       pk (if a_to_b then amount_b upd else amount_a upd) = Ok l'"
    "p' = update_after_swap (next_liquidity upd) (next_tick_index upd) (next_sqrt_price upd)
            (next_fee_growth_global upd) (next_reward_infos upd) (next_protocol_fee upd) a_to_b ts p"
  using assms
  by (auto simp: update_and_swap_pool_def perform_swap_def transfer_from_owner_to_vault_def
      transfer_from_vault_to_owner_def and_then_Inr_iff Let_def split: if_splits intro: that)

text \<open>The arrays of a sequence are the stored ones, under keys that were not borrowed before.\<close>

lemma load_sequence_OkD:
  assumes "load_sequence store borrowed k0 k1 k2 = Ok (keys, arrays)"
  shows "length keys = length arrays" and "distinct keys" and "set keys \<inter> set borrowed = {}"
    and "set keys \<subseteq> {k0, k1, k2}" and "map store keys = map Some arrays"
  using assms
  by (auto simp: load_sequence_def try_load_mut_def swap_tick_sequence_new_def Let_def
      split: option.splits if_splits)

lemma swap_instr_OkE:
  assumes "swap_instr e a amount threshold lmt is_input a_to_b s = Ok s'"
  obtains p timestamp keys arrays upd arrays' l l' where "pools s (sw_pool a) = Some p"
    "sw_token_vault_a a = token_vault_a p" "sw_token_vault_b a = token_vault_b p"
    "is_signer e (sw_token_authority a)"
    "to_timestamp_u64 (unix_timestamp e) = Ok timestamp"
    "\<forall>k \<in> {sw_tick_array_0 a, sw_tick_array_1 a, sw_tick_array_2 a}.
       \<exists>ta. tick_arrays s k = Some ta \<and> tick_array_pool ta = sw_pool a"
    "load_sequence (tick_arrays s) [] (sw_tick_array_0 a) (sw_tick_array_1 a) (sw_tick_array_2 a)
       = Ok (keys, arrays)"
    "swap p arrays amount lmt is_input a_to_b timestamp = Ok (upd, arrays')"
    "is_input \<Longrightarrow> threshold \<le> (if a_to_b then amount_b upd else amount_a upd)"
    "\<not> is_input \<Longrightarrow> (if a_to_b then amount_a upd else amount_b upd) \<le> threshold"
    "op_transfer (ops e) (tokens s)
       (if a_to_b then sw_token_owner_account_a a else sw_token_owner_account_b a)
       (if a_to_b then sw_token_vault_a a else sw_token_vault_b a) (sw_token_authority a)
       (if a_to_b then amount_a upd else amount_b upd) = Ok l"
    "op_transfer (ops e) l (if a_to_b then sw_token_vault_b a else sw_token_vault_a a)
       (if a_to_b then sw_token_owner_account_b a else sw_token_owner_account_a a) (sw_pool a)
       (if a_to_b then amount_b upd else amount_a upd) = Ok l'"
    "s' = s\<lparr>pools := (pools s)(sw_pool a \<mapsto>
            update_after_swap (next_liquidity upd) (next_tick_index upd) (next_sqrt_price upd)
              (next_fee_growth_global upd) (next_reward_infos upd) (next_protocol_fee upd)
              a_to_b timestamp p),
           tick_arrays := store_sequence keys arrays' (tick_arrays s), tokens := l'\<rparr>"
proof -
  obtain p timestamp keys arrays upd arrays' p' l' where
    ok: "swap_accounts_ok e a s = Ok p" and r: "to_timestamp_u64 (unix_timestamp e) = Ok timestamp"
    "load_sequence (tick_arrays s) [] (sw_tick_array_0 a) (sw_tick_array_1 a) (sw_tick_array_2 a)
       = Ok (keys, arrays)"
    "swap p arrays amount lmt is_input a_to_b timestamp = Ok (upd, arrays')"
    and t: "is_input \<Longrightarrow> threshold \<le> (if a_to_b then amount_b upd else amount_a upd)"
    "\<not> is_input \<Longrightarrow> (if a_to_b then amount_a upd else amount_b upd) \<le> threshold"
    and u: "update_and_swap_pool e (sw_pool a) p (sw_token_authority a)
       (sw_token_owner_account_a a) (sw_token_owner_account_b a) (sw_token_vault_a a)
       (sw_token_vault_b a) upd a_to_b timestamp (tokens s) = Ok (p', l')"
    and s': "s' = s\<lparr>pools := (pools s)(sw_pool a \<mapsto> p'),
           tick_arrays := store_sequence keys arrays' (tick_arrays s), tokens := l'\<rparr>"
    using assms
    by (auto simp: swap_instr_def and_then_Inr_iff not_less split: if_splits prod.splits)
  have p: "pools s (sw_pool a) = Some p" "sw_token_vault_a a = token_vault_a p"
    "sw_token_vault_b a = token_vault_b p" "is_signer e (sw_token_authority a)"
    "\<forall>k \<in> {sw_tick_array_0 a, sw_tick_array_1 a, sw_tick_array_2 a}.
       \<exists>ta. tick_arrays s k = Some ta \<and> tick_array_pool ta = sw_pool a"
    using ok by (auto simp: swap_accounts_ok_def swap_token_accounts_ok_def tick_array_of_pool_def
        and_then_Inr_iff)
  show ?thesis
    by (rule update_and_swap_pool_OkE [OF u]) (rule that [OF p(1-4) r(1) p(5) r(2,3) t], simp_all add: s')
qed

text \<open>The two pools of a two-hop swap.\<close>

lemma two_hop_accounts_OkD:
  assumes "two_hop_accounts_ok e a s = Ok (p1, p2)"
  shows "pools s (th_pool_one a) = Some p1 \<and> pools s (th_pool_two a) = Some p2 \<and>
    is_signer e (th_token_authority a) \<and>
    th_token_vault_one_a a = token_vault_a p1 \<and> th_token_vault_one_b a = token_vault_b p1 \<and>
    th_token_vault_two_a a = token_vault_a p2 \<and> th_token_vault_two_b a = token_vault_b p2"
    and "\<forall>k \<in> {th_tick_array_one_0 a, th_tick_array_one_1 a, th_tick_array_one_2 a}.
       \<exists>ta. tick_arrays s k = Some ta \<and> tick_array_pool ta = th_pool_one a"
    and "\<forall>k \<in> {th_tick_array_two_0 a, th_tick_array_two_1 a, th_tick_array_two_2 a}.
       \<exists>ta. tick_arrays s k = Some ta \<and> tick_array_pool ta = th_pool_two a"
  using assms
  by (auto simp: two_hop_accounts_ok_def swap_token_accounts_ok_def tick_array_of_pool_def and_then_Inr_iff)

lemma two_hop_swap_OkE:
  assumes "two_hop_swap e a amount threshold is_input one two limit1 limit2 s = Ok s'"
  obtains p1 p2 timestamp keys1 keys2 arrays1 arrays2 upd1 upd2 arrays1' arrays2' p1' p2' l l' where
    "two_hop_accounts_ok e a s = Ok (p1, p2)" "th_pool_one a \<noteq> th_pool_two a"
    "(if one then token_mint_b p1 else token_mint_a p1) = (if two then token_mint_a p2 else token_mint_b p2)"
    "to_timestamp_u64 (unix_timestamp e) = Ok timestamp"
    "load_sequence (tick_arrays s) [] (th_tick_array_one_0 a) (th_tick_array_one_1 a)
       (th_tick_array_one_2 a) = Ok (keys1, arrays1)"
    "load_sequence (tick_arrays s) keys1 (th_tick_array_two_0 a) (th_tick_array_two_1 a)
       (th_tick_array_two_2 a) = Ok (keys2, arrays2)"
    "two_hop_calculation p1 p2 arrays1 arrays2 amount limit1 limit2 is_input one two timestamp =
       Ok ((upd1, arrays1'), (upd2, arrays2'))"
    "is_input \<Longrightarrow> threshold \<le> (if two then amount_b upd2 else amount_a upd2)"
    "\<not> is_input \<Longrightarrow> (if one then amount_a upd1 else amount_b upd1) \<le> threshold"
    "update_and_swap_pool e (th_pool_one a) p1 (th_token_authority a)
       (th_token_owner_account_one_a a) (th_token_owner_account_one_b a)
       (th_token_vault_one_a a) (th_token_vault_one_b a) upd1 one timestamp (tokens s) = Ok (p1', l)"
    "update_and_swap_pool e (th_pool_two a) p2 (th_token_authority a)
       (th_token_owner_account_two_a a) (th_token_owner_account_two_b a)
       (th_token_vault_two_a a) (th_token_vault_two_b a) upd2 two timestamp l = Ok (p2', l')"
    "s' = s\<lparr>pools := (pools s)(th_pool_one a \<mapsto> p1', th_pool_two a \<mapsto> p2'),
           tick_arrays := store_sequence keys2 arrays2' (store_sequence keys1 arrays1' (tick_arrays s)),
           tokens := l'\<rparr>"
proof -
  obtain p1 p2 timestamp where r: "two_hop_accounts_ok e a s = Ok (p1, p2)"
    "to_timestamp_u64 (unix_timestamp e) = Ok timestamp"
    using assms by (auto simp: two_hop_swap_def and_then_Inr_iff)
  show ?thesis
    using assms
    by (cases is_input; cases one; cases two)
      (auto simp: two_hop_swap_def r and_then_Inr_iff not_less split: if_split_asm
        intro!: that [OF r(1) _ _ r(2)])
qed

end
