(* ===== verification/Program.thy ===== *)
theory Program
  imports Instructions_Swap
begin

text \<open>
  The entry points of \<^verbatim>\<open>lib.rs\<close>: one constructor per public function of the \<open>elysium\<close> module
  with its accounts and arguments, and \<open>process\<close>, which dispatches to the handlers. A failed
  instruction leaves the state unchanged (the runtime rolls the transaction back), so the
  step relation has the successful instructions only.
\<close>

datatype (plugins only: code) instruction =
    InitializeConfig pubkey pubkey pubkey pubkey pubkey u16
  | InitializePool initialize_pool_accounts u16 u128
  | InitializeTickArray pubkey pubkey pubkey i32
  | InitializeFeeTier pubkey pubkey pubkey pubkey u16 u16
  | InitializeReward pubkey pubkey pubkey pubkey pubkey pubkey u8
  | SetRewardEmissions pubkey pubkey pubkey u8 u128
  | OpenPosition open_position_accounts i32 i32
  | OpenPositionWithMetadata open_position_accounts pubkey pubkey pubkey i32 i32
  | IncreaseLiquidity modify_liquidity_accounts u128 u64 u64
  | DecreaseLiquidity modify_liquidity_accounts u128 u64 u64
  | UpdateFeesAndRewards pubkey pubkey pubkey pubkey
  | CollectFees collect_fees_accounts
  | CollectReward collect_reward_accounts u8
  | CollectProtocolFees collect_protocol_fees_accounts
  | Swap swap_accounts u64 u64 u128 bool bool
  | ClosePosition pubkey pubkey pubkey pubkey pubkey pubkey
  | SetDefaultFeeRate pubkey pubkey pubkey u16
  | SetDefaultProtocolFeeRate pubkey pubkey u16
  | SetFeeRate pubkey pubkey pubkey u16
  | SetProtocolFeeRate pubkey pubkey pubkey u16
  | SetFeeAuthority pubkey pubkey pubkey
  | SetCollectProtocolFeesAuthority pubkey pubkey pubkey
  | SetRewardAuthority pubkey pubkey pubkey u8
  | SetRewardAuthorityBySuperAuthority pubkey pubkey pubkey pubkey u8
  | SetRewardEmissionsSuperAuthority pubkey pubkey pubkey
  | TwoHopSwap two_hop_accounts u64 u64 bool bool bool u128 u128
  | InitializePositionBundle bundle_init_accounts
  | InitializePositionBundleWithMetadata bundle_init_accounts pubkey pubkey pubkey
  | DeletePositionBundle pubkey pubkey pubkey pubkey pubkey pubkey
  | OpenBundledPosition bundled_position_accounts pubkey pubkey u16 i32 i32
  | CloseBundledPosition bundled_position_accounts pubkey u16

primrec process :: "env \<Rightarrow> instruction \<Rightarrow> chain_state \<Rightarrow> chain_state result" where
  "process e (InitializeConfig config funder fee_auth collect_auth reward_auth rate) s =
     initialize_config e config funder fee_auth collect_auth reward_auth rate s"
| "process e (InitializePool a spacing price) s = initialize_pool e a spacing price s"
| "process e (InitializeTickArray p funder array start) s = initialize_tick_array e p funder array start s"
| "process e (InitializeFeeTier config tier funder auth spacing rate) s =
     initialize_fee_tier e config tier funder auth spacing rate s"
| "process e (InitializeReward auth funder p mint vault program index) s =
     initialize_reward_instr e auth funder p mint vault program index s"
| "process e (SetRewardEmissions p auth vault index emissions) s =
     set_reward_emissions e p auth vault index emissions s"
| "process e (OpenPosition a lower upper) s = open_position_instr e a lower upper s"
| "process e (OpenPositionWithMetadata a metadata program update_auth lower upper) s =
     open_position_with_metadata e a metadata program update_auth lower upper s"
| "process e (IncreaseLiquidity a amount max_a max_b) s = increase_liquidity e a amount max_a max_b s"
| "process e (DecreaseLiquidity a amount min_a min_b) s = decrease_liquidity e a amount min_a min_b s"
| "process e (UpdateFeesAndRewards p pos lower upper) s = update_fees_and_rewards e p pos lower upper s"
| "process e (CollectFees a) s = collect_fees e a s"
| "process e (CollectReward a index) s = collect_reward e a index s"
| "process e (CollectProtocolFees a) s = collect_protocol_fees e a s"
| "process e (Swap a amount threshold limit is_input a_to_b) s =
     swap_instr e a amount threshold limit is_input a_to_b s"
| "process e (ClosePosition auth receiver pos mint token program) s =
     close_position e auth receiver pos mint token program s"
| "process e (SetDefaultFeeRate config tier auth rate) s = set_default_fee_rate e config tier auth rate s"
| "process e (SetDefaultProtocolFeeRate config auth rate) s =
     set_default_protocol_fee_rate e config auth rate s"
| "process e (SetFeeRate config p auth rate) s = set_fee_rate e config p auth rate s"
| "process e (SetProtocolFeeRate config p auth rate) s = set_protocol_fee_rate e config p auth rate s"
| "process e (SetFeeAuthority config auth new_auth) s = set_fee_authority e config auth new_auth s"
| "process e (SetCollectProtocolFeesAuthority config auth new_auth) s =
     set_collect_protocol_fees_authority e config auth new_auth s"
| "process e (SetRewardAuthority p auth new_auth index) s = set_reward_authority e p auth new_auth index s"
| "process e (SetRewardAuthorityBySuperAuthority config p auth new_auth index) s =
     set_reward_authority_by_super_authority e config p auth new_auth index s"
| "process e (SetRewardEmissionsSuperAuthority config auth new_auth) s =
     set_reward_emissions_super_authority e config auth new_auth s"
| "process e (TwoHopSwap a amount threshold is_input one two limit1 limit2) s =
     two_hop_swap e a amount threshold is_input one two limit1 limit2 s"
| "process e (InitializePositionBundle a) s = initialize_position_bundle e a s"
| "process e (InitializePositionBundleWithMetadata a metadata program update_auth) s =
     initialize_position_bundle_with_metadata e a metadata program update_auth s"
| "process e (DeletePositionBundle bundle mint token owner receiver program) s =
     delete_position_bundle e bundle mint token owner receiver program s"
| "process e (OpenBundledPosition a p funder index lower upper) s =
     open_bundled_position_instr e a p funder index lower upper s"
| "process e (CloseBundledPosition a receiver index) s = close_bundled_position_instr e a receiver index s"

text \<open>A chain of successful instructions, each under the clock and signatures of its own.\<close>

inductive chain_step :: "chain_state \<Rightarrow> chain_state \<Rightarrow> bool" where
  instr: "process e i s = Ok s' \<Longrightarrow> chain_step s s'"

definition empty_chain :: "ledger \<Rightarrow> chain_state" where
  "empty_chain l = \<lparr>configs = Map.empty, fee_tiers = Map.empty, pools = Map.empty,
     positions = Map.empty, bundles = Map.empty, tick_arrays = Map.empty, tokens = l\<rparr>"

inductive reachable :: "chain_state \<Rightarrow> bool" where
  start: "reachable (empty_chain l)"
| step: "reachable s \<Longrightarrow> chain_step s s' \<Longrightarrow> reachable s'"

end
