(* ===== verification/Sample_Chain.thy ===== *)
theory Sample_Chain
  imports Program
begin

text \<open>
  A concrete environment: a token program on the ledger, addresses derived by adding up the
  seeds, and a script that sets up a market, opens a position, deposits liquidity
  and swaps. The witnesses of the theorems about whole instructions use it.
\<close>

section \<open>A token program\<close>

definition sample_transfer :: "ledger \<Rightarrow> pubkey \<Rightarrow> pubkey \<Rightarrow> pubkey \<Rightarrow> u64 \<Rightarrow> ledger result" where
  "sample_transfer l from_key to_key authority amount =
     (case (token_accounts l from_key, token_accounts l to_key) of
        (Some a, Some b) \<Rightarrow>
          if ta_amount a < amount \<or> ta_mint a \<noteq> ta_mint b \<or> ta_owner a \<noteq> authority \<or> from_key = to_key \<or>
             ta_amount b + amount < ta_amount b
          then Inl Constraint
          else Ok (l\<lparr>token_accounts := (token_accounts l)
                 (from_key \<mapsto> a\<lparr>ta_amount := ta_amount a - amount\<rparr>,
                  to_key \<mapsto> b\<lparr>ta_amount := ta_amount b + amount\<rparr>)\<rparr>)
      | _ \<Rightarrow> Inl Constraint)"

definition sample_init_account :: "ledger \<Rightarrow> pubkey \<Rightarrow> pubkey \<Rightarrow> pubkey \<Rightarrow> ledger result" where
  "sample_init_account l key mint owner =
     Ok (l\<lparr>token_accounts := (token_accounts l)(key \<mapsto>
            \<lparr>ta_mint = mint, ta_owner = owner, ta_amount = 0, ta_delegate = None, ta_delegated_amount = 0\<rparr>)\<rparr>)"

definition sample_mint_to :: "ledger \<Rightarrow> pubkey \<Rightarrow> pubkey \<Rightarrow> pubkey \<Rightarrow> u64 \<Rightarrow> ledger result" where
  "sample_mint_to l mint key authority amount =
     (case token_accounts l key of
        None \<Rightarrow> Inl Constraint
      | Some a \<Rightarrow> Ok (l\<lparr>token_accounts := (token_accounts l)(key \<mapsto> a\<lparr>ta_amount := ta_amount a + amount\<rparr>)\<rparr>))"

definition sample_ops :: token_ops where
  "sample_ops =
     \<lparr>op_transfer = sample_transfer,
      op_burn_checked = (\<lambda>l key mint authority amount decimals. Ok l),
      op_close_account = (\<lambda>l key receiver authority. Ok (l\<lparr>token_accounts := (token_accounts l)(key := None)\<rparr>)),
      op_mint_to = sample_mint_to,
      op_set_mint_authority = (\<lambda>l mint new_authority authority. Ok l),
      op_create_metadata = (\<lambda>l metadata mint authority payer update_authority name symbol uri. Ok l),
      op_init_account = sample_init_account,
      op_init_mint = (\<lambda>l key authority decimals.
        Ok (l\<lparr>mints := (mints l)(key \<mapsto> \<lparr>mint_decimals = decimals\<rparr>)\<rparr>))\<rparr>"

text \<open>An address that adds up the keys and the lengths of the texts.\<close>

fun seed_code :: "seed \<Rightarrow> nat" where
  "seed_code (Seed_Text t) = length t"
| "seed_code (Seed_Key k) = unat k"
| "seed_code (Seed_Bytes bs) = 0"

definition sample_address :: "seed list \<Rightarrow> pubkey" where
  "sample_address seeds = 1000 + of_nat (sum_list (map seed_code seeds))"

definition sample_env :: env where
  "sample_env =
     \<lparr>ops = sample_ops, create_program_address = sample_address,
      find_program_address = (\<lambda>seeds. (sample_address seeds, 255)), unix_timestamp = 1000,
      is_signer = (\<lambda>_. True), key_to_string = (\<lambda>_. ''key''),
      int_to_string = (\<lambda>i. replicate (nat \<bar>i\<bar>) CHR ''1''), token_ID = 7, metadata_ID = 8\<rparr>"

section \<open>A script\<close>

fun run :: "env \<Rightarrow> instruction list \<Rightarrow> chain_state \<Rightarrow> chain_state result" where
  "run e [] s = Ok s"
| "run e (i # is) s = and_then (process e i s) (run e is)"

lemma reachable_run: "reachable s \<Longrightarrow> run e is s = Ok s' \<Longrightarrow> reachable s'"
  by (induction "is" arbitrary: s)
    (auto simp: and_then_Inr_iff dest: reachable.step [OF _ chain_step.instr])

text \<open>The mints 20 and 21, the owner 5 with the accounts 30 and 31.\<close>

definition sample_ledger :: ledger where
  "sample_ledger =
     \<lparr>token_accounts = [
        30 \<mapsto> \<lparr>ta_mint = 20, ta_owner = 5, ta_amount = 1000000, ta_delegate = None, ta_delegated_amount = 0\<rparr>,
        31 \<mapsto> \<lparr>ta_mint = 21, ta_owner = 5, ta_amount = 1000000, ta_delegate = None, ta_delegated_amount = 0\<rparr>],
      mints = [20 \<mapsto> \<lparr>mint_decimals = 6\<rparr>, 21 \<mapsto> \<lparr>mint_decimals = 6\<rparr>]\<rparr>"

definition sample_market :: "instruction list" where
  "sample_market = [
     InitializeConfig 1 5 5 5 5 300,
     InitializeFeeTier 1 1009 5 5 64 3000,
     InitializePool \<lparr>ip_pools_config = 1, ip_token_mint_a = 20, ip_token_mint_b = 21, ip_funder = 5,
       ip_pool = 1046, ip_token_vault_a = 40, ip_token_vault_b = 41, ip_fee_tier = 1009,
       ip_token_program = 7\<rparr> 64 18446744073709551616,
     InitializeTickArray 1046 5 2056 0]"

definition sample_open :: instruction where
  "sample_open = OpenPosition \<lparr>op_funder = 5, op_owner = 5, op_position = 1058, op_position_mint = 50,
     op_position_token_account = 51, op_pool = 1046, op_token_program = 7\<rparr> 0 128"

definition sample_liquidity_accounts :: modify_liquidity_accounts where
  "sample_liquidity_accounts = \<lparr>ml_pool = 1046, ml_token_program = 7, ml_position_authority = 5,
     ml_position = 1058, ml_position_token_account = 51, ml_token_owner_account_a = 30,
     ml_token_owner_account_b = 31, ml_token_vault_a = 40, ml_token_vault_b = 41,
     ml_tick_array_lower = 2056, ml_tick_array_upper = 2056\<rparr>"

definition sample_swap_accounts :: swap_accounts where
  "sample_swap_accounts = \<lparr>sw_token_program = 7, sw_token_authority = 5, sw_pool = 1046,
     sw_token_owner_account_a = 30, sw_token_vault_a = 40, sw_token_owner_account_b = 31,
     sw_token_vault_b = 41, sw_tick_array_0 = 2056, sw_tick_array_1 = 2056, sw_tick_array_2 = 2056,
     sw_oracle = 2052\<rparr>"

definition sample_fees_accounts :: collect_fees_accounts where
  "sample_fees_accounts = \<lparr>cf_pool = 1046, cf_position_authority = 5, cf_position = 1058,
     cf_position_token_account = 51, cf_token_owner_account_a = 30, cf_token_vault_a = 40,
     cf_token_owner_account_b = 31, cf_token_vault_b = 41, cf_token_program = 7\<rparr>"

definition sample_script :: "instruction list" where
  "sample_script = sample_market @
     [sample_open, IncreaseLiquidity sample_liquidity_accounts 1000000 10000 10000,
      Swap sample_swap_accounts 1000 0 19599665578316398592 True False,
      DecreaseLiquidity sample_liquidity_accounts 1000000 1 1,
      CollectFees sample_fees_accounts,
      ClosePosition 5 5 1058 50 51 7]"

text \<open>Every instruction of the script succeeds.\<close>

lemma sample_script_runs: "is_ok (run sample_env sample_script (empty_chain sample_ledger))"
  by code_simp

lemma run_append: "run e (is @ js) s = and_then (run e is s) (run e js)"
  by (induction "is" arbitrary: s) (auto simp: and_then_def split: sum.splits)

text \<open>The states after the market, the opening, the deposit, the swap, the withdrawal, the
  collection of the fees and the closing.\<close>

lemma sample_states:
  obtains s1 s2 s3 s4 s5 s6 s7 :: chain_state where
    "run sample_env sample_market (empty_chain sample_ledger) = Ok s1"
    "process sample_env sample_open s1 = Ok s2"
    "process sample_env (IncreaseLiquidity sample_liquidity_accounts 1000000 10000 10000) s2 = Ok s3"
    "process sample_env (Swap sample_swap_accounts 1000 0 19599665578316398592 True False) s3 = Ok s4"
    "process sample_env (DecreaseLiquidity sample_liquidity_accounts 1000000 1 1) s4 = Ok s5"
    "process sample_env (CollectFees sample_fees_accounts) s5 = Ok s6"
    "process sample_env (ClosePosition 5 5 1058 50 51 7) s6 = Ok s7"
    "reachable s3"
proof -
  obtain s1 s2 s3 s4 s5 s6 s7 where r: "run sample_env sample_market (empty_chain sample_ledger) = Ok s1"
    "process sample_env sample_open s1 = Ok s2"
    "process sample_env (IncreaseLiquidity sample_liquidity_accounts 1000000 10000 10000) s2 = Ok s3"
    "process sample_env (Swap sample_swap_accounts 1000 0 19599665578316398592 True False) s3 = Ok s4"
    "process sample_env (DecreaseLiquidity sample_liquidity_accounts 1000000 1 1) s4 = Ok s5"
    "process sample_env (CollectFees sample_fees_accounts) s5 = Ok s6"
    "process sample_env (ClosePosition 5 5 1058 50 51 7) s6 = Ok s7"
    using sample_script_runs
    by (auto simp: run_append is_ok_iff and_then_Inr_iff sample_script_def simp del: process.simps)
  note s1 = reachable_run [OF reachable.start r(1)]
  note s2 = reachable.step [OF s1 chain_step.instr [OF r(2)]]
  show ?thesis by (rule that [OF r reachable.step [OF s2 chain_step.instr [OF r(3)]]])
qed

text \<open>The accounts of the script exist before the swap.\<close>

lemma sample_accounts:
  assumes "process sample_env (IncreaseLiquidity sample_liquidity_accounts 1000000 10000 10000) s2 = Ok s3"
  obtains p pos where "pools s3 1046 = Some p" "positions s3 1058 = Some pos"
proof -
  from assms have "increase_liquidity sample_env sample_liquidity_accounts 1000000 10000 10000 s2 = Ok s3"
    by simp
  then show ?thesis
    by (rule increase_liquidity_OkE) (rule that, simp_all add: sample_liquidity_accounts_def)
qed

end
