(* ===== verification/Safety.thy ===== *)
theory Safety
  imports Sample_Chain
begin

text \<open>
  What every instruction keeps, over all entry points: the identity of a pool, who may change
  what, the caps of the rates. The lemmas about the handlers are the \<open>_OkE\<close> rules of the
  \<open>Instructions\<close> theories; the theorems are about \<open>process\<close> and the reachable states.
\<close>

section \<open>Pools\<close>

definition pool_identity :: "pool \<Rightarrow> (pubkey \<times> u8 \<times> u16 \<times> u8 list) \<times> pubkey \<times> pubkey \<times> pubkey \<times> pubkey" where
  "pool_identity p = ((pool_config p, pool_bump p, tick_spacing p, tick_spacing_seed p),
     token_mint_a p, token_mint_b p, token_vault_a p, token_vault_b p)"

definition reward_terms :: "pool_reward_info \<Rightarrow> pubkey \<times> pubkey \<times> pubkey \<times> u128" where
  "reward_terms r = (reward_mint r, reward_vault r, reward_authority r, emissions_per_second_x64 r)"

text \<open>Everything that only an authority may change.\<close>

definition pool_terms_kept :: "pool \<Rightarrow> pool \<Rightarrow> bool" where
  "pool_terms_kept p p' \<longleftrightarrow> pool_identity p' = pool_identity p \<and> fee_rate p' = fee_rate p \<and>
     protocol_fee_rate p' = protocol_fee_rate p \<and>
     map reward_terms (arr_list (pool_reward_infos p')) = map reward_terms (arr_list (pool_reward_infos p))"

definition fee_authority_signed :: "env \<Rightarrow> chain_state \<Rightarrow> pool \<Rightarrow> bool" where
  "fee_authority_signed e s p \<longleftrightarrow> (\<exists>c. configs s (pool_config p) = Some c \<and> is_signer e (fee_authority c))"

definition super_authority_signed :: "env \<Rightarrow> chain_state \<Rightarrow> pool \<Rightarrow> bool" where
  "super_authority_signed e s p \<longleftrightarrow>
     (\<exists>c. configs s (pool_config p) = Some c \<and> is_signer e (reward_emissions_super_authority c))"

definition pool_guarded :: "env \<Rightarrow> chain_state \<Rightarrow> pool \<Rightarrow> pool \<Rightarrow> bool" where
  "pool_guarded e s p p' \<longleftrightarrow> pool_identity p' = pool_identity p \<and>
     (fee_rate p' = fee_rate p \<or> fee_authority_signed e s p \<and> fee_rate p' \<le> MAX_FEE_RATE) \<and>
     (protocol_fee_rate p' = protocol_fee_rate p \<or>
        fee_authority_signed e s p \<and> protocol_fee_rate p' \<le> MAX_PROTOCOL_FEE_RATE) \<and>
     (\<forall>i<3. let r = arr_list (pool_reward_infos p) ! i; r' = arr_list (pool_reward_infos p') ! i in
        reward_terms r' = reward_terms r \<or> is_signer e (reward_authority r) \<or>
        super_authority_signed e s p \<and>
          (\<exists>auth. reward_terms r' = (reward_mint r, reward_vault r, auth, emissions_per_second_x64 r)))"

lemma pool_terms_kept_refl: "pool_terms_kept p p"
  by (simp add: pool_terms_kept_def)

lemma pool_terms_kept_guarded: "pool_terms_kept p p' \<Longrightarrow> pool_guarded e s p p'"
proof -
  assume k: "pool_terms_kept p p'"
  have "reward_terms (arr_list (pool_reward_infos p') ! i) = reward_terms (arr_list (pool_reward_infos p) ! i)"
    if "i < 3" for i
    using k that nth_map [of i "arr_list (pool_reward_infos p')" reward_terms]
      nth_map [of i "arr_list (pool_reward_infos p)" reward_terms]
    by (simp add: pool_terms_kept_def)
  then show ?thesis using k by (simp add: pool_guarded_def pool_terms_kept_def)
qed

lemma next_pool_reward_infos_terms:
  "next_pool_reward_infos p t = Ok infos \<Longrightarrow>
     map reward_terms (arr_list infos) = map reward_terms (arr_list (pool_reward_infos p))"
  by (auto simp: next_pool_reward_infos_def Let_def arr_list_map_arr3 next_reward_info_def reward_terms_def
      split: if_splits)

lemma update_rewards_terms:
  "next_pool_reward_infos p t = Ok infos \<Longrightarrow> pool_terms_kept p (update_rewards infos ts p)"
  by (simp add: pool_terms_kept_def pool_identity_def update_rewards_def next_pool_reward_infos_terms)

lemma sync_OkD:
  assumes "sync_modify_liquidity_values p pos arrays lk uk upd ts = Ok (p', pos', arrays')"
  shows "p' = update_rewards_and_liquidity (mod_reward_infos upd) (mod_pool_liquidity upd) ts p"
    and "pos' = position_apply_update (mod_position_update upd) pos"
  using assms by (auto simp: sync_modify_liquidity_values_def and_then_Inr_iff Let_def)

lemma calculate_modify_liquidity_OkE:
  assumes "calculate_modify_liquidity p pos arrays lk uk d ts = Ok upd"
  obtains tl lower tu upper where "arrays lk = Some tl" "arrays uk = Some tu"
    "get_tick tl (tick_lower_index pos) (tick_spacing p) = Ok lower"
    "get_tick tu (tick_upper_index pos) (tick_spacing p) = Ok upper"
    "inner_calculate_modify_liquidity p pos lower upper (tick_lower_index pos) (tick_upper_index pos) d ts = Ok upd"
  using assms
  by (auto simp: calculate_modify_liquidity_def and_then_Inr_iff load_tick_array_def
      split: option.splits intro: that)

lemma calculate_growths_OkE:
  assumes "calculate_fee_and_reward_growths p pos arrays lk uk ts = Ok (pu, infos)"
  obtains lower upper upd where
    "inner_calculate_modify_liquidity p pos lower upper (tick_lower_index pos) (tick_upper_index pos) 0 ts = Ok upd"
    "pu = mod_position_update upd" "infos = mod_reward_infos upd"
  using assms
  by (auto simp: calculate_fee_and_reward_growths_def and_then_Inr_iff intro: that)

lemma modify_liquidity_terms:
  assumes "calculate_modify_liquidity p pos arrays lk uk d ts = Ok upd"
    and "sync_modify_liquidity_values p pos arrays lk uk upd ts' = Ok (p', pos', arrays')"
  shows "pool_terms_kept p p'"
proof -
  have "next_pool_reward_infos p ts = Ok (mod_reward_infos upd)"
    by (rule calculate_modify_liquidity_OkE [OF assms(1)]) (rule inner_calculate_OkD)
  from next_pool_reward_infos_terms [OF this] show ?thesis
    by (simp add: sync_OkD [OF assms(2)] pool_terms_kept_def pool_identity_def
        update_rewards_and_liquidity_def update_rewards_def)
qed

lemma swap_terms:
  assumes "swap p arrays amount lmt inp atb ts = Ok (upd, arrays')"
  shows "pool_terms_kept p (update_after_swap (next_liquidity upd) (next_tick_index upd)
     (next_sqrt_price upd) (next_fee_growth_global upd) (next_reward_infos upd) (next_protocol_fee upd) b ts' p)"
proof -
  have "next_pool_reward_infos p ts = Ok (next_reward_infos upd)" by (rule swap_OkE [OF assms]) simp
  from next_pool_reward_infos_terms [OF this] show ?thesis
    by (simp add: pool_terms_kept_def pool_identity_def update_after_swap_def Let_def)
qed

lemma reset_protocol_fees_terms: "pool_terms_kept p (reset_protocol_fees_owed p)"
  by (simp add: pool_terms_kept_def pool_identity_def reset_protocol_fees_owed_def)

lemma update_fee_rate_guarded:
  "update_fee_rate rate p = Ok p' \<Longrightarrow> fee_authority_signed e s p \<Longrightarrow> pool_guarded e s p p'"
  by (auto simp: update_fee_rate_Ok_iff pool_guarded_def pool_identity_def)

lemma update_protocol_fee_rate_guarded:
  "update_protocol_fee_rate rate p = Ok p' \<Longrightarrow> fee_authority_signed e s p \<Longrightarrow> pool_guarded e s p p'"
  by (auto simp: update_protocol_fee_rate_Ok_iff pool_guarded_def pool_identity_def)

text \<open>A change of one reward.\<close>

lemma reward_put_guarded:
  assumes "i < 3" "p' = p\<lparr>pool_reward_infos := arr_put (pool_reward_infos p) i r'\<rparr>"
    and "let r = arr_list (pool_reward_infos p) ! i in is_signer e (reward_authority r) \<or>
      super_authority_signed e s p \<and>
        (\<exists>auth. reward_terms r' = (reward_mint r, reward_vault r, auth, emissions_per_second_x64 r))"
  shows "pool_guarded e s p p'"
  using assms
  by (auto simp: pool_guarded_def pool_identity_def arr_list_put nth_list_update Let_def)

lemma initialize_reward_guarded:
  assumes "initialize_reward i mint vault p = Ok p'" "arr_get (pool_reward_infos p) i = Ok r"
    and "is_signer e (reward_authority r)"
  shows "pool_guarded e s p p'"
  using assms by (auto simp: initialize_reward_eq Let_def split: if_splits intro!: reward_put_guarded)

lemma update_reward_authority_Ok_iff:
  "update_reward_authority i auth p = Ok p' \<longleftrightarrow> i < 3 \<and>
     p' = p\<lparr>pool_reward_infos := arr_put (pool_reward_infos p) i
              ((arr_list (pool_reward_infos p) ! i)\<lparr>reward_authority := auth\<rparr>)\<rparr>"
  by (auto simp: update_reward_authority_def and_then_Inr_iff NUM_REWARDS_def)

lemma update_reward_authority_guarded:
  assumes "update_reward_authority i auth p = Ok p'"
    and "super_authority_signed e s p \<or>
      (\<exists>r. arr_get (pool_reward_infos p) i = Ok r \<and> is_signer e (reward_authority r))"
  shows "pool_guarded e s p p'"
  using assms
  by (auto simp: update_reward_authority_Ok_iff reward_terms_def intro!: reward_put_guarded)

lemma update_emissions_guarded:
  assumes "update_emissions i infos ts emissions p = Ok p'" "next_pool_reward_infos p t = Ok infos"
    and "arr_get (pool_reward_infos p) i = Ok r" "is_signer e (reward_authority r)"
  shows "pool_guarded e s p p'"
proof -
  have k: "map reward_terms (arr_list infos) = map reward_terms (arr_list (pool_reward_infos p))"
    by (rule next_pool_reward_infos_terms [OF assms(2)])
  have "reward_terms (arr_list infos ! j) = reward_terms (arr_list (pool_reward_infos p) ! j)" if "j < 3" for j
    using that k nth_map [of j "arr_list infos" reward_terms]
      nth_map [of j "arr_list (pool_reward_infos p)" reward_terms] by simp
  then show ?thesis
    using assms(1,3,4)
    by (auto simp: update_emissions_def update_rewards_def and_then_Inr_iff pool_guarded_def Let_def
        pool_identity_def arr_list_put nth_list_update split: if_splits)
qed

lemmas handler_OkE =
  initialize_config_OkE initialize_fee_tier_OkE set_default_fee_rate_OkE set_fee_authority_OkE
  set_collect_protocol_fees_authority_OkE set_reward_emissions_super_authority_OkE
  set_default_protocol_fee_rate_OkE initialize_pool_OkE set_fee_rate_OkE set_protocol_fee_rate_OkE
  initialize_tick_array_OkE initialize_reward_instr_OkE set_reward_authority_OkE
  set_reward_authority_by_super_authority_OkE set_reward_emissions_OkE open_position_instr_OkE
  open_position_with_metadata_OkE close_position_OkE initialize_position_bundle_OkE
  initialize_position_bundle_with_metadata_OkE delete_position_bundle_OkE
  open_bundled_position_instr_OkE close_bundled_position_instr_OkE increase_liquidity_OkE
  decrease_liquidity_OkE update_fees_and_rewards_OkE collect_fees_OkE collect_reward_OkE
  collect_protocol_fees_OkE swap_instr_OkE two_hop_swap_OkE

lemma two_hop_calculation_OkE:
  assumes "two_hop_calculation p1 p2 arrays1 arrays2 amount limit1 limit2 is_input one two ts =
    Ok ((upd1, arrays1'), (upd2, arrays2'))"
  obtains amount1 amount2 where
    "swap p1 arrays1 amount1 limit1 is_input one ts = Ok (upd1, arrays1')"
    "swap p2 arrays2 amount2 limit2 is_input two ts = Ok (upd2, arrays2')"
    "if is_input then amount1 = amount \<and> amount2 = (if one then amount_b upd1 else amount_a upd1)
     else amount2 = amount \<and> amount1 = (if two then amount_a upd2 else amount_b upd2)"
  using assms
  by (auto simp: two_hop_calculation_def and_then_Inr_iff Let_def split: if_split_asm intro: that)

lemma swap_guarded:
  assumes "update_and_swap_pool e pk p authority owner_a owner_b vault_a vault_b upd a_to_b ts l0 = Ok (p', l')"
    and "swap p arrays amount lmt inp atb ts' = Ok (upd, arrays')"
  shows "pool_guarded e' s p p'"
  by (rule update_and_swap_pool_OkE [OF assms(1)])
    (use swap_terms [OF assms(2)] pool_terms_kept_guarded in blast)

lemma guarded_refl: "pool_guarded e s p p"
  by (rule pool_terms_kept_guarded) (rule pool_terms_kept_refl)

definition pools_guarded :: "env \<Rightarrow> chain_state \<Rightarrow> chain_state \<Rightarrow> bool" where
  "pools_guarded e s s' \<longleftrightarrow>
     (\<forall>k p. pools s k = Some p \<longrightarrow> (\<exists>p'. pools s' k = Some p' \<and> pool_guarded e s p p'))"

lemma pools_guarded_frame: "pools s' = pools s \<Longrightarrow> pools_guarded e s s'"
  by (auto simp: pools_guarded_def guarded_refl)

lemma pools_guarded_new: "unused s k \<Longrightarrow> pools s' = (pools s)(k \<mapsto> q) \<Longrightarrow> pools_guarded e s s'"
  by (auto simp: pools_guarded_def guarded_refl unused_def)

lemma pools_guarded_upd:
  "pools s k = Some q \<Longrightarrow> pool_guarded e s q q' \<Longrightarrow> pools s' = (pools s)(k \<mapsto> q') \<Longrightarrow> pools_guarded e s s'"
  by (auto simp: pools_guarded_def guarded_refl)

lemma two_hop_swap_guarded:
  assumes "two_hop_swap e a amount threshold is_input one two limit1 limit2 s = Ok s'"
  shows "pools_guarded e s s'"
  using assms
proof (rule two_hop_swap_OkE)
  fix p1 p2 timestamp keys1 keys2 arrays1 arrays2 upd1 upd2 arrays1' arrays2' p1' p2' l l'
  assume ok: "two_hop_accounts_ok e a s = Ok (p1, p2)"
    and ne: "th_pool_one a \<noteq> th_pool_two a"
    and c: "two_hop_calculation p1 p2 arrays1 arrays2 amount limit1 limit2 is_input one two timestamp =
       Ok ((upd1, arrays1'), (upd2, arrays2'))"
    and u1: "update_and_swap_pool e (th_pool_one a) p1 (th_token_authority a)
       (th_token_owner_account_one_a a) (th_token_owner_account_one_b a)
       (th_token_vault_one_a a) (th_token_vault_one_b a) upd1 one timestamp (tokens s) = Ok (p1', l)"
    and u2: "update_and_swap_pool e (th_pool_two a) p2 (th_token_authority a)
       (th_token_owner_account_two_a a) (th_token_owner_account_two_b a)
       (th_token_vault_two_a a) (th_token_vault_two_b a) upd2 two timestamp l = Ok (p2', l')"
    and s': "s' = s\<lparr>pools := (pools s)(th_pool_one a \<mapsto> p1', th_pool_two a \<mapsto> p2'),
           tick_arrays := store_sequence keys2 arrays2' (store_sequence keys1 arrays1' (tick_arrays s)),
           tokens := l'\<rparr>"
  have "pool_guarded e s p1 p1'" "pool_guarded e s p2 p2'"
    by (rule two_hop_calculation_OkE [OF c]; rule swap_guarded [OF u1] swap_guarded [OF u2]; assumption)+
  then show ?thesis
    using two_hop_accounts_OkD [OF ok] ne guarded_refl by (auto simp: s' pools_guarded_def)
qed

lemma increase_liquidity_guarded:
  "increase_liquidity e a amount max_a max_b s = Ok s' \<Longrightarrow> pools_guarded e s s'"
  by (erule increase_liquidity_OkE, drule modify_liquidity_accounts_OkD, elim conjE)
    (auto intro!: pools_guarded_upd pool_terms_kept_guarded elim!: modify_liquidity_terms)

lemma decrease_liquidity_guarded:
  "decrease_liquidity e a amount min_a min_b s = Ok s' \<Longrightarrow> pools_guarded e s s'"
  by (erule decrease_liquidity_OkE, drule modify_liquidity_accounts_OkD, elim conjE)
    (auto intro!: pools_guarded_upd pool_terms_kept_guarded elim!: modify_liquidity_terms)

lemma update_fees_and_rewards_guarded:
  "update_fees_and_rewards e pk qk lk uk s = Ok s' \<Longrightarrow> pools_guarded e s s'"
  by (erule update_fees_and_rewards_OkE, erule calculate_growths_OkE)
    (auto intro!: pools_guarded_upd pool_terms_kept_guarded update_rewards_terms dest: inner_calculate_OkD(1))

lemma reward_handlers_guarded:
  "initialize_reward_instr e auth funder pk mk vk tp i s = Ok s' \<Longrightarrow> pools_guarded e s s'"
  "set_reward_authority e pk auth new_auth i s = Ok s' \<Longrightarrow> pools_guarded e s s'"
  "set_reward_authority_by_super_authority e ck pk auth new_auth i s = Ok s' \<Longrightarrow> pools_guarded e s s'"
  "set_reward_emissions e pk auth vk i emissions s = Ok s' \<Longrightarrow> pools_guarded e s s'"
proof -
  show "initialize_reward_instr e auth funder pk mk vk tp i s = Ok s' \<Longrightarrow> pools_guarded e s s'"
    by (erule initialize_reward_instr_OkE, rule pools_guarded_upd, assumption,
      rule initialize_reward_guarded, assumption+) simp
  show "set_reward_authority e pk auth new_auth i s = Ok s' \<Longrightarrow> pools_guarded e s s'"
    by (erule set_reward_authority_OkE, rule pools_guarded_upd, assumption,
      rule update_reward_authority_guarded, assumption, blast) simp
  show "set_reward_authority_by_super_authority e ck pk auth new_auth i s = Ok s' \<Longrightarrow> pools_guarded e s s'"
    by (erule set_reward_authority_by_super_authority_OkE, rule pools_guarded_upd, assumption,
      rule update_reward_authority_guarded, assumption) (auto simp: super_authority_signed_def)
  show "set_reward_emissions e pk auth vk i emissions s = Ok s' \<Longrightarrow> pools_guarded e s s'"
    by (erule set_reward_emissions_OkE, rule pools_guarded_upd, assumption,
      rule update_emissions_guarded, assumption+) simp
qed

lemma fee_handlers_guarded:
  "set_fee_rate e ck pk auth rate s = Ok s' \<Longrightarrow> pools_guarded e s s'"
  "set_protocol_fee_rate e ck pk auth rate s = Ok s' \<Longrightarrow> pools_guarded e s s'"
  "collect_protocol_fees e a s = Ok s' \<Longrightarrow> pools_guarded e s s'"
proof -
  show "set_fee_rate e ck pk auth rate s = Ok s' \<Longrightarrow> pools_guarded e s s'"
    by (erule set_fee_rate_OkE, rule pools_guarded_upd, assumption,
      rule update_fee_rate_guarded, assumption) (auto simp: fee_authority_signed_def)
  show "set_protocol_fee_rate e ck pk auth rate s = Ok s' \<Longrightarrow> pools_guarded e s s'"
    by (erule set_protocol_fee_rate_OkE, rule pools_guarded_upd, assumption,
      rule update_protocol_fee_rate_guarded, assumption) (auto simp: fee_authority_signed_def)
  show "collect_protocol_fees e a s = Ok s' \<Longrightarrow> pools_guarded e s s'"
    by (erule collect_protocol_fees_OkE, rule pools_guarded_upd, assumption,
      rule pool_terms_kept_guarded, rule reset_protocol_fees_terms) simp
qed

lemma swap_instr_guarded:
  "swap_instr e a amount threshold lmt is_input a_to_b s = Ok s' \<Longrightarrow> pools_guarded e s s'"
  by (erule swap_instr_OkE, rule pools_guarded_upd, assumption,
    rule pool_terms_kept_guarded, erule swap_terms) simp

lemmas pool_frame_OkE =
  initialize_config_OkE initialize_fee_tier_OkE set_default_fee_rate_OkE set_fee_authority_OkE
  set_collect_protocol_fees_authority_OkE set_reward_emissions_super_authority_OkE
  set_default_protocol_fee_rate_OkE initialize_tick_array_OkE open_position_instr_OkE
  open_position_with_metadata_OkE close_position_OkE initialize_position_bundle_OkE
  initialize_position_bundle_with_metadata_OkE delete_position_bundle_OkE
  open_bundled_position_instr_OkE close_bundled_position_instr_OkE collect_fees_OkE collect_reward_OkE

lemmas handlers_guarded = two_hop_swap_guarded increase_liquidity_guarded decrease_liquidity_guarded
    update_fees_and_rewards_guarded reward_handlers_guarded fee_handlers_guarded swap_instr_guarded

lemma initialize_pool_guarded: "initialize_pool e a spacing price s = Ok s' \<Longrightarrow> pools_guarded e s s'"
  by (erule initialize_pool_OkE, erule pools_guarded_new) simp

lemma pool_step: "process e i s = Ok s' \<Longrightarrow> pools_guarded e s s'"
  by (cases i; simp; (erule initialize_pool_guarded handlers_guarded |
      (erule pool_frame_OkE, rule pools_guarded_frame, simp)))

section \<open>Configs\<close>

text \<open>Each part of a config changes only under the signature of the authority that the config
  names for it.\<close>

definition config_guarded :: "env \<Rightarrow> pools_config \<Rightarrow> pools_config \<Rightarrow> bool" where
  "config_guarded e c c' \<longleftrightarrow>
     (fee_authority c' = fee_authority c \<or> is_signer e (fee_authority c)) \<and>
     (collect_protocol_fees_authority c' = collect_protocol_fees_authority c \<or>
        is_signer e (collect_protocol_fees_authority c)) \<and>
     (reward_emissions_super_authority c' = reward_emissions_super_authority c \<or>
        is_signer e (reward_emissions_super_authority c)) \<and>
     (default_protocol_fee_rate c' = default_protocol_fee_rate c \<or>
        is_signer e (fee_authority c) \<and> default_protocol_fee_rate c' \<le> MAX_PROTOCOL_FEE_RATE)"

definition configs_guarded :: "env \<Rightarrow> chain_state \<Rightarrow> chain_state \<Rightarrow> bool" where
  "configs_guarded e s s' \<longleftrightarrow>
     (\<forall>k c. configs s k = Some c \<longrightarrow> (\<exists>c'. configs s' k = Some c' \<and> config_guarded e c c'))"

lemma configs_guarded_frame: "configs s' = configs s \<Longrightarrow> configs_guarded e s s'"
  by (auto simp: configs_guarded_def config_guarded_def)

lemma configs_guarded_new: "unused s k \<Longrightarrow> configs s' = (configs s)(k \<mapsto> c) \<Longrightarrow> configs_guarded e s s'"
  by (auto simp: configs_guarded_def config_guarded_def unused_def)

lemma configs_guarded_upd:
  "configs s k = Some c \<Longrightarrow> config_guarded e c c' \<Longrightarrow> configs s' = (configs s)(k \<mapsto> c') \<Longrightarrow>
   configs_guarded e s s'"
  by (auto simp: configs_guarded_def config_guarded_def)

lemma config_handlers_guarded:
  "initialize_config e ck funder fee_auth collect_auth reward_auth rate s = Ok s' \<Longrightarrow> configs_guarded e s s'"
  "set_fee_authority e ck auth new_auth s = Ok s' \<Longrightarrow> configs_guarded e s s'"
  "set_collect_protocol_fees_authority e ck auth new_auth s = Ok s' \<Longrightarrow> configs_guarded e s s'"
  "set_reward_emissions_super_authority e ck auth new_auth s = Ok s' \<Longrightarrow> configs_guarded e s s'"
  "set_default_protocol_fee_rate e ck auth rate s = Ok s' \<Longrightarrow> configs_guarded e s s'"
proof -
  show "initialize_config e ck funder fee_auth collect_auth reward_auth rate s = Ok s' \<Longrightarrow> configs_guarded e s s'"
    by (erule initialize_config_OkE, erule configs_guarded_new) simp
  show "set_fee_authority e ck auth new_auth s = Ok s' \<Longrightarrow> configs_guarded e s s'"
    by (erule set_fee_authority_OkE, erule configs_guarded_upd)
      (auto simp: config_guarded_def update_fee_authority_def)
  show "set_collect_protocol_fees_authority e ck auth new_auth s = Ok s' \<Longrightarrow> configs_guarded e s s'"
    by (erule set_collect_protocol_fees_authority_OkE, erule configs_guarded_upd)
      (auto simp: config_guarded_def update_collect_protocol_fees_authority_def)
  show "set_reward_emissions_super_authority e ck auth new_auth s = Ok s' \<Longrightarrow> configs_guarded e s s'"
    by (erule set_reward_emissions_super_authority_OkE, erule configs_guarded_upd)
      (auto simp: config_guarded_def update_reward_emissions_super_authority_def)
  show "set_default_protocol_fee_rate e ck auth rate s = Ok s' \<Longrightarrow> configs_guarded e s s'"
    by (erule set_default_protocol_fee_rate_OkE, erule configs_guarded_upd)
      (auto simp: config_guarded_def update_default_protocol_fee_rate_def split: if_splits)
qed

lemma config_step: "process e i s = Ok s' \<Longrightarrow> configs_guarded e s s'"
  by (cases i; simp; (erule config_handlers_guarded |
      (erule handler_OkE, rule configs_guarded_frame, simp)))

section \<open>Positions\<close>

definition position_identity :: "position \<Rightarrow> pubkey \<times> pubkey \<times> i32 \<times> i32" where
  "position_identity pos =
     (position_pool pos, position_mint pos, tick_lower_index pos, tick_upper_index pos)"

text \<open>
  A position keeps its pool, mint and range. Without the signature of the holder of its token it
  is not closed, its liquidity stays, and only an update of fees and rewards touches it.
\<close>

definition positions_guarded :: "env \<Rightarrow> instruction \<Rightarrow> chain_state \<Rightarrow> chain_state \<Rightarrow> bool" where
  "positions_guarded e i s s' \<longleftrightarrow>
     (\<forall>k pos. positions s k = Some pos \<longrightarrow>
        (case positions s' k of
           None \<Rightarrow> is_position_empty pos \<and> holds_token e (tokens s) (position_mint pos)
         | Some pos' \<Rightarrow> position_identity pos' = position_identity pos \<and>
             (pos' = pos \<or> holds_token e (tokens s) (position_mint pos) \<or>
              position_liquidity pos' = position_liquidity pos \<and>
                (\<exists>pk lk uk. i = UpdateFeesAndRewards pk k lk uk))))"

lemma positions_guarded_frame: "positions s' = positions s \<Longrightarrow> positions_guarded e i s s'"
  by (auto simp: positions_guarded_def split: option.splits)

lemma positions_guarded_new:
  "unused s k \<Longrightarrow> positions s' = (positions s)(k \<mapsto> pos) \<Longrightarrow> positions_guarded e i s s'"
  by (auto simp: positions_guarded_def unused_def split: option.splits)

lemma positions_guarded_close:
  "positions s k = Some pos \<Longrightarrow> is_position_empty pos \<Longrightarrow> holds_token e (tokens s) (position_mint pos) \<Longrightarrow>
   positions s' = (positions s)(k := None) \<Longrightarrow> positions_guarded e i s s'"
  by (auto simp: positions_guarded_def split: option.splits)

lemma positions_guarded_upd:
  "positions s k = Some pos \<Longrightarrow> holds_token e (tokens s) (position_mint pos) \<Longrightarrow>
   position_identity pos' = position_identity pos \<Longrightarrow> positions s' = (positions s)(k \<mapsto> pos') \<Longrightarrow>
   positions_guarded e i s s'"
  by (auto simp: positions_guarded_def split: option.splits)

lemma position_ops_identity:
  "position_identity (position_apply_update u pos) = position_identity pos"
  "position_identity (reset_fees_owed pos) = position_identity pos"
  "update_reward_owed n owed pos = Ok pos' \<Longrightarrow> position_identity pos' = position_identity pos"
  by (auto simp: position_identity_def position_apply_update_def reset_fees_owed_def
      update_reward_owed_def and_then_Inr_iff)

lemma position_handlers_guarded:
  "open_position_instr e a lower upper s = Ok s' \<Longrightarrow> positions_guarded e i s s'"
  "open_position_with_metadata e a mk mp ua lower upper s = Ok s' \<Longrightarrow> positions_guarded e i s s'"
  "open_bundled_position_instr e b pk funder n lower upper s = Ok s' \<Longrightarrow> positions_guarded e i s s'"
  "close_position e auth receiver qk m tk program s = Ok s' \<Longrightarrow> positions_guarded e i s s'"
  "close_bundled_position_instr e b receiver n s = Ok s' \<Longrightarrow> positions_guarded e i s s'"
proof -
  show "open_position_instr e a lower upper s = Ok s' \<Longrightarrow> positions_guarded e i s s'"
    by (erule open_position_instr_OkE, erule positions_guarded_new) simp
  show "open_position_with_metadata e a mk mp ua lower upper s = Ok s' \<Longrightarrow> positions_guarded e i s s'"
    by (erule open_position_with_metadata_OkE, erule positions_guarded_new) simp
  show "open_bundled_position_instr e b pk funder n lower upper s = Ok s' \<Longrightarrow> positions_guarded e i s s'"
    by (erule open_bundled_position_instr_OkE, erule positions_guarded_new) simp
  show "close_position e auth receiver qk m tk program s = Ok s' \<Longrightarrow> positions_guarded e i s s'"
    by (erule close_position_OkE, erule positions_guarded_close, assumption+) simp
  show "close_bundled_position_instr e b receiver n s = Ok s' \<Longrightarrow> positions_guarded e i s s'"
    by (erule close_bundled_position_instr_OkE, erule positions_guarded_close, assumption+) simp
qed

lemma liquidity_handlers_positions:
  "increase_liquidity e a amount x y s = Ok s' \<Longrightarrow> positions_guarded e i s s'"
  "decrease_liquidity e a amount x y s = Ok s' \<Longrightarrow> positions_guarded e i s s'"
  "collect_fees e b s = Ok s' \<Longrightarrow> positions_guarded e i s s'"
  "collect_reward e c n s = Ok s' \<Longrightarrow> positions_guarded e i s s'"
proof -
  show "increase_liquidity e a amount x y s = Ok s' \<Longrightarrow> positions_guarded e i s s'"
    by (erule increase_liquidity_OkE, drule modify_liquidity_accounts_OkD, elim conjE,
      rule positions_guarded_upd, assumption+) (auto dest: sync_OkD simp: position_ops_identity)
  show "decrease_liquidity e a amount x y s = Ok s' \<Longrightarrow> positions_guarded e i s s'"
    by (erule decrease_liquidity_OkE, drule modify_liquidity_accounts_OkD, elim conjE,
      rule positions_guarded_upd, assumption+) (auto dest: sync_OkD simp: position_ops_identity)
  show "collect_fees e b s = Ok s' \<Longrightarrow> positions_guarded e i s s'"
    by (erule collect_fees_OkE, rule positions_guarded_upd, assumption+)
      (auto simp: position_ops_identity)
  show "collect_reward e c n s = Ok s' \<Longrightarrow> positions_guarded e i s s'"
    by (erule collect_reward_OkE, rule positions_guarded_upd, assumption+, erule position_ops_identity) simp
qed

lemma update_fees_and_rewards_positions:
  "update_fees_and_rewards e pk qk lk uk s = Ok s' \<Longrightarrow>
     positions_guarded e (UpdateFeesAndRewards pk qk lk uk) s s'"
  by (erule update_fees_and_rewards_OkE, erule calculate_growths_OkE, drule inner_calculate_OkD(5))
    (auto simp: positions_guarded_def position_identity_def position_apply_update_def
      add_liquidity_delta_def split: option.splits)

lemma position_step: "process e i s = Ok s' \<Longrightarrow> positions_guarded e i s s'"
  by (cases i; simp; (erule position_handlers_guarded liquidity_handlers_positions
        update_fees_and_rewards_positions |
      (erule handler_OkE, rule positions_guarded_frame, simp)))

section \<open>Properties\<close>

text \<open>C8: Whatever instruction succeeds, an existing pool stays: its config, bump, tick spacing,
  mints and vaults never change; its fee rate and protocol fee rate change only when the fee
  authority of its config has signed, and stay within their caps; and the mint, vault, authority
  and emissions of a reward change only when the authority of the reward has signed, or, the
  authority alone, when the config's reward super authority has.\<close>

theorem pool_changes_authorised:
  assumes "process e i s = Ok s'" "pools s k = Some p"
  shows "\<exists>p'. pools s' k = Some p' \<and> pool_identity p' = pool_identity p \<and>
     (fee_rate p' = fee_rate p \<or> fee_authority_signed e s p \<and> fee_rate p' \<le> MAX_FEE_RATE) \<and>
     (protocol_fee_rate p' = protocol_fee_rate p \<or>
        fee_authority_signed e s p \<and> protocol_fee_rate p' \<le> MAX_PROTOCOL_FEE_RATE) \<and>
     (\<forall>n<3. let r = arr_list (pool_reward_infos p) ! n; r' = arr_list (pool_reward_infos p') ! n in
        reward_terms r' = reward_terms r \<or> is_signer e (reward_authority r) \<or>
        super_authority_signed e s p \<and>
          (\<exists>auth. reward_terms r' = (reward_mint r, reward_vault r, auth, emissions_per_second_x64 r)))"
  using pool_step [OF assms(1)] assms(2) unfolding pools_guarded_def pool_guarded_def by blast

lemma pool_changes_authorised_witness:
  "\<exists>s s' p p'. process sample_env (Swap sample_swap_accounts 1000 0 19599665578316398592 True False) s = Ok s' \<and>
     pools s 1046 = Some p \<and> pools s' 1046 = Some p' \<and> pool_identity p' = pool_identity p"
proof -
  obtain s2 s3 s4 :: chain_state where
    i: "process sample_env (IncreaseLiquidity sample_liquidity_accounts 1000000 10000 10000) s2 = Ok s3"
    and s: "process sample_env (Swap sample_swap_accounts 1000 0 19599665578316398592 True False) s3 = Ok s4"
    by (rule sample_states)
  obtain p and pos :: position where p: "pools s3 1046 = Some p" by (rule sample_accounts [OF i])
  from pool_changes_authorised [OF s p] s p show ?thesis by blast
qed

text \<open>C10: No instruction removes a config, and each of its fields changes only under the signature
  of the authority that the config names for it: the fee authority for itself and the default
  protocol fee rate (which stays within its cap), the two other authorities for themselves.\<close>

theorem config_changes_authorised:
  assumes "process e i s = Ok s'" "configs s k = Some c"
  shows "\<exists>c'. configs s' k = Some c' \<and>
     (fee_authority c' = fee_authority c \<or> is_signer e (fee_authority c)) \<and>
     (collect_protocol_fees_authority c' = collect_protocol_fees_authority c \<or>
        is_signer e (collect_protocol_fees_authority c)) \<and>
     (reward_emissions_super_authority c' = reward_emissions_super_authority c \<or>
        is_signer e (reward_emissions_super_authority c)) \<and>
     (default_protocol_fee_rate c' = default_protocol_fee_rate c \<or>
        is_signer e (fee_authority c) \<and> default_protocol_fee_rate c' \<le> MAX_PROTOCOL_FEE_RATE)"
  using config_step [OF assms(1)] assms(2) unfolding configs_guarded_def config_guarded_def by blast

definition sample_config :: pools_config where
  "sample_config = \<lparr>fee_authority = 5, collect_protocol_fees_authority = 6,
     reward_emissions_super_authority = 9, default_protocol_fee_rate = 300\<rparr>"

lemma config_changes_authorised_witness:
  "\<exists>s' c'. process sample_env (SetFeeAuthority 1 5 10) ((empty_chain sample_ledger)\<lparr>configs := [1 \<mapsto> sample_config]\<rparr>) = Ok s' \<and>
     configs s' 1 = Some c' \<and> fee_authority c' = 10 \<and>
     (collect_protocol_fees_authority c' = 6 \<or> is_signer sample_env 6)"
proof -
  let ?s = "(empty_chain sample_ledger)\<lparr>configs := [1 \<mapsto> sample_config]\<rparr>"
  have c: "configs ?s 1 = Some sample_config" by simp
  obtain s' where s': "process sample_env (SetFeeAuthority 1 5 10) ?s = Ok s'"
    and new: "configs s' 1 = Some (sample_config\<lparr>fee_authority := 10\<rparr>)"
    by (simp add: set_fee_authority_def account_def signer_def require_def sample_config_def sample_env_def
        update_fee_authority_def)
  from config_changes_authorised [OF s' c] new show ?thesis
    using s' by (auto simp: sample_config_def)
qed

text \<open>C9: A position keeps its pool, mint and range; it is closed only when it is empty and the holder
  of its token (or the delegate for exactly one token) has signed; and without that signature
  nothing in it changes except the fees and rewards that \<open>UpdateFeesAndRewards\<close> books, its
  liquidity not included.\<close>

theorem position_changes_authorised:
  assumes "process e i s = Ok s'" "positions s k = Some pos"
  shows "case positions s' k of
      None \<Rightarrow> is_position_empty pos \<and> holds_token e (tokens s) (position_mint pos)
    | Some pos' \<Rightarrow> position_identity pos' = position_identity pos \<and>
        (pos' = pos \<or> holds_token e (tokens s) (position_mint pos) \<or>
         position_liquidity pos' = position_liquidity pos \<and>
           (\<exists>pk lk uk. i = UpdateFeesAndRewards pk k lk uk))"
  using position_step [OF assms(1)] assms(2) unfolding positions_guarded_def by blast

lemma position_changes_authorised_witness:
  "\<exists>s s' pos. process sample_env (Swap sample_swap_accounts 1000 0 19599665578316398592 True False) s = Ok s' \<and>
     positions s 1058 = Some pos \<and>
     (\<forall>pos'. positions s' 1058 = Some pos' \<longrightarrow> position_identity pos' = position_identity pos)"
proof -
  obtain s2 s3 s4 :: chain_state where
    i: "process sample_env (IncreaseLiquidity sample_liquidity_accounts 1000000 10000 10000) s2 = Ok s3"
    and s: "process sample_env (Swap sample_swap_accounts 1000 0 19599665578316398592 True False) s3 = Ok s4"
    by (rule sample_states)
  obtain p :: pool and pos where p: "positions s3 1058 = Some pos" by (rule sample_accounts [OF i])
  have "\<forall>pos'. positions s4 1058 = Some pos' \<longrightarrow> position_identity pos' = position_identity pos"
    using position_changes_authorised [OF s p] by (auto split: option.splits)
  with s p show ?thesis by blast
qed

end
