(* ===== verification/Invariants.thy ===== *)
theory Invariants
  imports Safety
begin

text \<open>
  The invariant of the reachable states: what holds of the stored accounts after any sequence of
  instructions, from an empty chain and whatever the token programs do.
\<close>

lemma pools_guardedD: "pools_guarded e s s' \<Longrightarrow> pools s k = Some p \<Longrightarrow> \<exists>p'. pools s' k = Some p' \<and> pool_guarded e s p p'"
  unfolding pools_guarded_def by blast

lemma pool_guarded_identity: "pool_guarded e s p p' \<Longrightarrow> pool_identity p' = pool_identity p"
  unfolding pool_guarded_def by blast

section \<open>Tick arrays\<close>

definition arrays_ok :: "(pubkey \<rightharpoonup> pool) \<Rightarrow> tick_array_store \<Rightarrow> bool" where
  "arrays_ok ps arrays \<longleftrightarrow> (\<forall>k ta. arrays k = Some ta \<longrightarrow>
     (\<exists>p. ps (tick_array_pool ta) = Some p \<and> tick_array_valid ta (tick_spacing p)))"

lemma arrays_ok_validD:
  "arrays_ok ps arrays \<Longrightarrow> arrays k = Some ta \<Longrightarrow> tick_array_pool ta = pk \<Longrightarrow> ps pk = Some p \<Longrightarrow>
   tick_array_valid ta (tick_spacing p)"
  unfolding arrays_ok_def by fastforce

lemma arrays_ok_upd:
  "arrays_ok ps arrays \<Longrightarrow> ps (tick_array_pool ta) = Some p \<Longrightarrow> tick_array_valid ta (tick_spacing p) \<Longrightarrow>
   arrays_ok ps (arrays(k \<mapsto> ta))"
  by (auto simp: arrays_ok_def)

lemma arrays_ok_guarded:
  assumes "pools_guarded e s s'" "arrays_ok (pools s) arrays"
  shows "arrays_ok (pools s') arrays"
  unfolding arrays_ok_def
proof (intro allI impI)
  fix k ta assume "arrays k = Some ta"
  then obtain p where p: "pools s (tick_array_pool ta) = Some p" "tick_array_valid ta (tick_spacing p)"
    using assms(2) by (auto simp: arrays_ok_def)
  then obtain p' where "pools s' (tick_array_pool ta) = Some p'" "pool_identity p' = pool_identity p"
    using pools_guardedD [OF assms(1)] by (blast dest: pool_guarded_identity)
  with p(2) show "\<exists>p. pools s' (tick_array_pool ta) = Some p \<and> tick_array_valid ta (tick_spacing p)"
    by (auto simp: pool_identity_def)
qed

lemma update_tick_ok:
  assumes "arrays_ok ps arrays" "arrays k = Some ta" "tick_array_pool ta = pk" "ps pk = Some p"
    and "update_tick ta i (tick_spacing p) u = Ok ta'"
  shows "arrays_ok ps (arrays(k \<mapsto> ta'))" "tick_array_pool ta' = pk"
proof -
  show pool: "tick_array_pool ta' = pk" using assms(3,5) by (auto simp: update_tick_Ok_iff)
  show "arrays_ok ps (arrays(k \<mapsto> ta'))"
    by (rule arrays_ok_upd [OF assms(1)])
      (use pool assms array_store.upd_valid [OF arrays_ok_validD [OF assms(1-4)] assms(5)] in simp_all)
qed

lemma sync_arrays_ok:
  assumes "sync_modify_liquidity_values p pos arrays lk uk upd ts = Ok (p', pos', arrays')"
    and ok: "arrays_ok ps arrays" and p: "ps pk = Some p"
    and l: "arrays lk = Some lower" "tick_array_pool lower = pk"
    and u: "arrays uk = Some upper" "tick_array_pool upper = pk"
  shows "arrays_ok ps arrays'"
proof -
  obtain tl tu tu' where t: "update_tick lower (tick_lower_index pos) (tick_spacing p) (mod_tick_lower_update upd) = Ok tl"
    "(arrays(lk \<mapsto> tl)) uk = Some tu"
    "update_tick tu (tick_upper_index pos) (tick_spacing p) (mod_tick_upper_update upd) = Ok tu'"
    "arrays' = arrays(lk \<mapsto> tl, uk \<mapsto> tu')"
    using assms(1) l(1) by (auto simp: sync_modify_liquidity_values_def and_then_Inr_iff Let_def
        load_tick_array_def position_apply_update_def split: option.splits)
  note 1 = update_tick_ok [OF ok l p t(1)]
  have "tick_array_pool tu = pk" using t(2) u 1(2) by (auto split: if_splits)
  from update_tick_ok(1) [OF 1(1) t(2) this p t(3)] show ?thesis unfolding t(4) .
qed

lemma modify_liquidity_arrays_ok:
  assumes "modify_liquidity_accounts_ok e a s = Ok (p, pos, token)" "arrays_ok (pools s) (tick_arrays s)"
    and "sync_modify_liquidity_values p pos (tick_arrays s) (ml_tick_array_lower a) (ml_tick_array_upper a)
       upd ts = Ok (p', pos', arrays)"
  shows "arrays_ok (pools s) arrays"
  using modify_liquidity_accounts_OkD [OF assms(1)] sync_arrays_ok [OF assms(3,2)] by blast

lemma loaded_sequence_ok:
  assumes load: "load_sequence store borrowed k0 k1 k2 = Ok (keys, arrays)"
    and ok: "arrays_ok ps store"
    and pool: "\<forall>k \<in> {k0, k1, k2}. \<exists>ta. store k = Some ta \<and> tick_array_pool ta = pk" "ps pk = Some p"
  shows "n < length arrays \<Longrightarrow> tick_array_pool (arrays ! n) = pk" "seq_valid arrays (tick_spacing p)"
proof -
  note keys = load_sequence_OkD [OF load]
  have n: "tick_array_pool (arrays ! n) = pk \<and> tick_array_valid (arrays ! n) (tick_spacing p)"
    if "n < length arrays" for n
  proof -
    have "keys ! n \<in> {k0, k1, k2}" by (rule subsetD [OF keys(4)]) (simp add: keys(1) that)
    moreover have "store (keys ! n) = Some (arrays ! n)"
      using keys(1,5) that by (metis nth_map)
    ultimately show ?thesis using pool arrays_ok_validD [OF ok] by fastforce
  qed
  then show "n < length arrays \<Longrightarrow> tick_array_pool (arrays ! n) = pk" "seq_valid arrays (tick_spacing p)"
    by (auto simp: seq_valid_def list_all_length)
qed

lemma store_sequence_ok:
  assumes load: "load_sequence store borrowed k0 k1 k2 = Ok (keys, arrays)"
    and ok: "arrays_ok ps store" "arrays_ok ps store'"
    and pool: "\<forall>k \<in> {k0, k1, k2}. \<exists>ta. store k = Some ta \<and> tick_array_pool ta = pk" "ps pk = Some p"
    and same: "same_arrays arrays arrays'"
    and valid: "seq_valid arrays (tick_spacing p) \<Longrightarrow> seq_valid arrays' (tick_spacing p)"
  shows "arrays_ok ps (store_sequence keys arrays' store')"
proof -
  note n = loaded_sequence_ok [OF load ok(1) pool]
  have "seq_valid arrays' (tick_spacing p)" by (rule valid) (rule n(2))
  then have n': "tick_array_pool (arrays' ! n) = pk \<and> tick_array_valid (arrays' ! n) (tick_spacing p)"
    if "n < length arrays'" for n
    using that n same same_arrays_length [OF same] nth_map [of n arrays tick_array_pool]
      nth_map [of n arrays' tick_array_pool] by (simp add: same_arrays_def seq_validD)
  show ?thesis
    unfolding arrays_ok_def store_sequence_def
  proof (intro allI impI)
    fix k ta assume "(store' ++ map_of (zip keys arrays')) k = Some ta"
    then consider "store' k = Some ta" | "ta \<in> set arrays'"
      by (auto simp: map_add_Some_iff dest!: map_of_SomeD set_zip_rightD)
    then show "\<exists>p. ps (tick_array_pool ta) = Some p \<and> tick_array_valid ta (tick_spacing p)"
      using ok(2) n' pool(2) by cases (auto simp: arrays_ok_def in_set_conv_nth)
  qed
qed

lemma swap_instr_arrays_ok:
  assumes "swap_instr e a amount threshold lmt is_input a_to_b s = Ok s'" "arrays_ok (pools s) (tick_arrays s)"
  shows "arrays_ok (pools s) (tick_arrays s')"
  by (rule swap_instr_OkE [OF assms(1)])
    (simp, rule store_sequence_ok [OF _ assms(2,2)], assumption+, auto dest: swap_arrays_preserved)

lemma two_hop_swap_arrays_ok:
  assumes "two_hop_swap e a amount threshold is_input one two limit1 limit2 s = Ok s'"
    and "arrays_ok (pools s) (tick_arrays s)"
  shows "arrays_ok (pools s) (tick_arrays s')"
  using assms(1)
proof (rule two_hop_swap_OkE)
  fix p1 p2 timestamp keys1 keys2 arrays1 arrays2 upd1 upd2 arrays1' arrays2' p1' p2' l l'
  assume ok: "two_hop_accounts_ok e a s = Ok (p1, p2)"
    and k1: "load_sequence (tick_arrays s) [] (th_tick_array_one_0 a) (th_tick_array_one_1 a)
       (th_tick_array_one_2 a) = Ok (keys1, arrays1)"
    and k2: "load_sequence (tick_arrays s) keys1 (th_tick_array_two_0 a) (th_tick_array_two_1 a)
       (th_tick_array_two_2 a) = Ok (keys2, arrays2)"
    and c: "two_hop_calculation p1 p2 arrays1 arrays2 amount limit1 limit2 is_input one two timestamp =
       Ok ((upd1, arrays1'), (upd2, arrays2'))"
    and s': "s' = s\<lparr>pools := (pools s)(th_pool_one a \<mapsto> p1', th_pool_two a \<mapsto> p2'),
           tick_arrays := store_sequence keys2 arrays2' (store_sequence keys1 arrays1' (tick_arrays s)),
           tokens := l'\<rparr>"
  note p = two_hop_accounts_OkD [OF ok]
  have "same_arrays arrays1 arrays1'" "same_arrays arrays2 arrays2'"
    "seq_valid arrays1 (tick_spacing p1) \<Longrightarrow> seq_valid arrays1' (tick_spacing p1)"
    "seq_valid arrays2 (tick_spacing p2) \<Longrightarrow> seq_valid arrays2' (tick_spacing p2)"
    by (rule two_hop_calculation_OkE [OF c], blast dest: swap_arrays_preserved)+
  then show ?thesis
    using store_sequence_ok [OF k1 assms(2,2) p(2)]
      store_sequence_ok [OF k2 assms(2) _ p(3)] p(1)
    by (simp add: s')
qed

lemma initialize_tick_array_ok:
  assumes "initialize_tick_array e pk funder ak start s = Ok s'" "arrays_ok (pools s) (tick_arrays s)"
  shows "arrays_ok (pools s) (tick_arrays s')"
  by (rule initialize_tick_array_OkE [OF assms(1)])
    (auto dest: tick_array_initialize_valid intro!: arrays_ok_upd [OF assms(2)])

lemma liquidity_arrays_ok:
  "increase_liquidity e a amount x y s = Ok s' \<Longrightarrow> arrays_ok (pools s) (tick_arrays s) \<Longrightarrow>
   arrays_ok (pools s) (tick_arrays s')"
  "decrease_liquidity e a amount x y s = Ok s' \<Longrightarrow> arrays_ok (pools s) (tick_arrays s) \<Longrightarrow>
   arrays_ok (pools s) (tick_arrays s')"
  by (erule increase_liquidity_OkE decrease_liquidity_OkE, drule modify_liquidity_arrays_ok, assumption+, simp)+

lemma arrays_step:
  assumes "process e i s = Ok s'" "arrays_ok (pools s) (tick_arrays s)"
  shows "arrays_ok (pools s') (tick_arrays s')"
proof (rule arrays_ok_guarded [OF pool_step [OF assms(1)]])
  show "arrays_ok (pools s) (tick_arrays s')"
    by (insert assms, cases i; simp; (erule (1) swap_instr_arrays_ok two_hop_swap_arrays_ok initialize_tick_array_ok
          liquidity_arrays_ok | (erule handler_OkE, simp)))
qed

section \<open>Rates\<close>

definition rates_ok :: "chain_state \<Rightarrow> bool" where
  "rates_ok s \<longleftrightarrow>
     (\<forall>k c. configs s k = Some c \<longrightarrow> default_protocol_fee_rate c \<le> MAX_PROTOCOL_FEE_RATE) \<and>
     (\<forall>k t. fee_tiers s k = Some t \<longrightarrow> default_fee_rate t \<le> MAX_FEE_RATE)"

lemma rates_frame: "configs s' = configs s \<Longrightarrow> fee_tiers s' = fee_tiers s \<Longrightarrow> rates_ok s \<Longrightarrow> rates_ok s'"
  by (simp add: rates_ok_def)

lemma fee_handlers_rates:
  "initialize_config e ck funder x y z rate s = Ok s' \<Longrightarrow> rates_ok s \<Longrightarrow> rates_ok s'"
  "initialize_fee_tier e ck tk funder auth spacing rate s = Ok s' \<Longrightarrow> rates_ok s \<Longrightarrow> rates_ok s'"
  "set_default_fee_rate e ck tk auth rate s = Ok s' \<Longrightarrow> rates_ok s \<Longrightarrow> rates_ok s'"
  by (erule initialize_config_OkE initialize_fee_tier_OkE set_default_fee_rate_OkE,
    force simp: rates_ok_def config_initialize_def fee_tier_initialize_def and_then_Inr_iff
      dest: tier_fee.set_rate_OkD config_protocol_fee.set_rate_OkD)+

lemma config_rates:
  assumes "configs_guarded e s s'" "rates_ok s" "fee_tiers s' = fee_tiers s" "dom (configs s') = dom (configs s)"
  shows "rates_ok s'"
  unfolding rates_ok_def
proof (intro conjI allI impI)
  fix k c' assume c': "configs s' k = Some c'"
  then obtain c where c: "configs s k = Some c" using assms(4) by (metis domD domI)
  then have "config_guarded e c c'" using assms(1) c' by (fastforce simp: configs_guarded_def)
  then show "default_protocol_fee_rate c' \<le> MAX_PROTOCOL_FEE_RATE"
    using assms(2) c by (auto simp: config_guarded_def rates_ok_def)
next
  fix k t assume "fee_tiers s' k = Some t"
  then show "default_fee_rate t \<le> MAX_FEE_RATE" using assms(2,3) by (simp add: rates_ok_def)
qed

lemma config_handlers_rates:
  "set_fee_authority e ck auth new_auth s = Ok s' \<Longrightarrow> rates_ok s \<Longrightarrow> rates_ok s'"
  "set_collect_protocol_fees_authority e ck auth new_auth s = Ok s' \<Longrightarrow> rates_ok s \<Longrightarrow> rates_ok s'"
  "set_reward_emissions_super_authority e ck auth new_auth s = Ok s' \<Longrightarrow> rates_ok s \<Longrightarrow> rates_ok s'"
  "set_default_protocol_fee_rate e ck auth rate s = Ok s' \<Longrightarrow> rates_ok s \<Longrightarrow> rates_ok s'"
  by (rule config_rates [where e = e and s = s], erule config_handlers_guarded, assumption,
    (erule set_fee_authority_OkE set_collect_protocol_fees_authority_OkE
       set_reward_emissions_super_authority_OkE set_default_protocol_fee_rate_OkE, force)+)+

lemma rates_step:
  assumes "process e i s = Ok s'" "rates_ok s"
  shows "rates_ok s'"
  by (insert assms, cases i; simp; (erule (1) fee_handlers_rates config_handlers_rates |
      (erule handler_OkE, rule rates_frame [OF _ _ assms(2)], simp, simp)))

section \<open>Pools\<close>

definition pool_ok :: "pool \<Rightarrow> bool" where
  "pool_ok p \<longleftrightarrow> token_mint_a p < token_mint_b p \<and> fee_rate p \<le> MAX_FEE_RATE \<and>
     protocol_fee_rate p \<le> MAX_PROTOCOL_FEE_RATE \<and> tick_spacing_seed p = u16_to_le_bytes (tick_spacing p)"

definition pools_ok :: "chain_state \<Rightarrow> bool" where
  "pools_ok s \<longleftrightarrow> (\<forall>k p. pools s k = Some p \<longrightarrow> pool_ok p)"

lemma pool_guarded_ok: "pool_guarded e s p p' \<Longrightarrow> pool_ok p \<Longrightarrow> pool_ok p'"
  unfolding pool_guarded_def pool_ok_def pool_identity_def by auto

lemma pool_initialize_ok: "pool_initialize ck c bump sp price rate ma va mb vb q = Ok p \<Longrightarrow> pool_ok p"
  by (auto simp: pool_initialize_def and_then_Inr_iff pool_ok_def update_fee_rate_Ok_iff
      update_protocol_fee_rate_Ok_iff split: if_splits)

text \<open>Only \<open>InitializePool\<close> creates a pool, only \<open>OpenPosition\<close> and its variants a position.\<close>

lemma pools_origin:
  assumes "process e i s = Ok s'" "pools s' k = Some p'"
  shows "(\<exists>p. pools s k = Some p) \<or>
    (\<exists>ck c bump sp price rate ma va mb vb. pool_initialize ck c bump sp price rate ma va mb vb default_pool = Ok p')"
proof (cases i)
  case (InitializePool a spacing price)
  with assms show ?thesis by (auto elim!: initialize_pool_OkE split: if_splits)
qed (insert assms, simp, erule handler_OkE,
    force dest: modify_liquidity_accounts_OkD two_hop_accounts_OkD(1) split: if_splits)+

lemma pools_ok_step:
  assumes "process e i s = Ok s'" "pools_ok s"
  shows "pools_ok s'"
  unfolding pools_ok_def
proof (intro allI impI)
  fix k p' assume p': "pools s' k = Some p'"
  from pools_origin [OF assms(1) this] consider p where "pools s k = Some p" | "pool_ok p'"
    using pool_initialize_ok by blast
  then show "pool_ok p'"
  proof cases
    case 1
    from pools_guardedD [OF pool_step [OF assms(1)] this] p' have "pool_guarded e s p p'" by simp
    with 1 assms(2) show ?thesis by (auto simp: pools_ok_def intro: pool_guarded_ok)
  qed
qed

section \<open>Positions and bundles\<close>

definition positions_ok :: "chain_state \<Rightarrow> bool" where
  "positions_ok s \<longleftrightarrow> (\<forall>k pos. positions s k = Some pos \<longrightarrow>
     (\<exists>p. pools s (position_pool pos) = Some p \<and> position_range_ok p pos))"

lemma open_position_range:
  "open_position pk p mint lower upper pos = Ok pos' \<Longrightarrow> ps pk = Some p \<Longrightarrow>
   \<exists>p. ps (position_pool pos') = Some p \<and> position_range_ok p pos'"
  using open_position_OkD(1,2) by metis

lemma positions_origin:
  assumes "process e i s = Ok s'" "positions s' k = Some pos'"
  shows "(\<exists>pos. positions s k = Some pos) \<or>
    (\<exists>p. pools s (position_pool pos') = Some p \<and> position_range_ok p pos')"
proof (cases i)
  case (OpenPosition a lower upper)
  with assms show ?thesis
    by (auto elim!: open_position_instr_OkE split: if_splits dest: open_position_range [of _ _ _ _ _ _ _ "pools s"])
next
  case (OpenPositionWithMetadata a m mp ua lower upper)
  with assms show ?thesis
    by (auto elim!: open_position_with_metadata_OkE split: if_splits dest: open_position_range [of _ _ _ _ _ _ _ "pools s"])
next
  case (OpenBundledPosition a pk funder n lower upper)
  with assms show ?thesis
    by (auto elim!: open_bundled_position_instr_OkE split: if_splits dest: open_position_range [of _ _ _ _ _ _ _ "pools s"])
qed (insert assms, simp, erule handler_OkE, force dest: modify_liquidity_accounts_OkD split: if_splits)+

lemma position_range_identity:
  "pool_identity p' = pool_identity p \<Longrightarrow> position_identity pos' = position_identity pos \<Longrightarrow>
   position_range_ok p' pos' = position_range_ok p pos"
  by (simp add: pool_identity_def position_identity_def position_range_ok_def)

lemma positions_ok_step:
  assumes "process e i s = Ok s'" "positions_ok s"
  shows "positions_ok s'"
  unfolding positions_ok_def
proof (intro allI impI)
  fix k pos' assume pos': "positions s' k = Some pos'"
  have "\<exists>p. pools s (position_pool pos') = Some p \<and> position_range_ok p pos'"
    using positions_origin [OF assms(1) pos']
  proof
    assume "\<exists>pos. positions s k = Some pos"
    then obtain pos where pos: "positions s k = Some pos" ..
    have id: "position_identity pos' = position_identity pos"
      using position_step [OF assms(1)] pos pos' by (auto simp: positions_guarded_def split: option.splits)
    obtain p where "pools s (position_pool pos) = Some p" "position_range_ok p pos"
      using assms(2) pos unfolding positions_ok_def by blast
    moreover have "position_pool pos' = position_pool pos" using id by (simp add: position_identity_def)
    ultimately show ?thesis using position_range_identity [OF refl id, of p] by auto
  qed
  then obtain p where p: "pools s (position_pool pos') = Some p" "position_range_ok p pos'" by blast
  from pools_guardedD [OF pool_step [OF assms(1)] p(1)]
  obtain p' where "pools s' (position_pool pos') = Some p'" "pool_identity p' = pool_identity p"
    by (blast dest: pool_guarded_identity)
  with p(2) show "\<exists>p. pools s' (position_pool pos') = Some p \<and> position_range_ok p pos'"
    using position_range_identity [of p' p pos' pos'] by auto
qed

definition bundles_ok :: "chain_state \<Rightarrow> bool" where
  "bundles_ok s \<longleftrightarrow> (\<forall>k b. bundles s k = Some b \<longrightarrow> bundle_wf b)"

lemma bundles_ok_step:
  assumes "process e i s = Ok s'" "bundles_ok s"
  shows "bundles_ok s'"
  by (insert assms, cases i; simp; erule handler_OkE;
    auto simp: bundles_ok_def open_bundled_position_def close_bundled_position_def open_slots_initial
      intro: update_bitmap_slots(2) split: if_splits)

section \<open>Reachable states\<close>

definition market_ok :: "chain_state \<Rightarrow> bool" where
  "market_ok s \<longleftrightarrow> rates_ok s \<and> pools_ok s \<and> arrays_ok (pools s) (tick_arrays s) \<and>
     positions_ok s \<and> bundles_ok s"

lemma market_ok_empty: "market_ok (empty_chain l)"
  by (simp add: market_ok_def rates_ok_def pools_ok_def arrays_ok_def positions_ok_def bundles_ok_def
      empty_chain_def)

lemma market_ok_step: "process e i s = Ok s' \<Longrightarrow> market_ok s \<Longrightarrow> market_ok s'"
  unfolding market_ok_def
  by (blast intro: rates_step pools_ok_step arrays_step positions_ok_step bundles_ok_step)

lemma reachable_ok: "reachable s \<Longrightarrow> market_ok s"
  by (induction rule: reachable.induct) (auto elim!: chain_step.cases intro: market_ok_empty market_ok_step)

text \<open>C1: In every reachable state, the fee rates of configs, fee tiers and pools are within their caps,
  the mints of a pool are in order and its seeds hold its tick spacing; every tick array belongs
  to an existing pool and is well-formed for that pool's tick spacing (88 ticks, an aligned start
  in range); every position belongs to an existing pool and has a non-empty range of usable
  ticks; and every bundle has its 256 slots.\<close>

theorem reachable_market_ok:
  assumes "reachable s"
  shows "(\<forall>k c. configs s k = Some c \<longrightarrow> default_protocol_fee_rate c \<le> MAX_PROTOCOL_FEE_RATE) \<and>
    (\<forall>k t. fee_tiers s k = Some t \<longrightarrow> default_fee_rate t \<le> MAX_FEE_RATE) \<and>
    (\<forall>k p. pools s k = Some p \<longrightarrow> token_mint_a p < token_mint_b p \<and> fee_rate p \<le> MAX_FEE_RATE \<and>
       protocol_fee_rate p \<le> MAX_PROTOCOL_FEE_RATE \<and> tick_spacing_seed p = u16_to_le_bytes (tick_spacing p)) \<and>
    (\<forall>k ta. tick_arrays s k = Some ta \<longrightarrow>
       (\<exists>p. pools s (tick_array_pool ta) = Some p \<and> tick_array_valid ta (tick_spacing p))) \<and>
    (\<forall>k pos. positions s k = Some pos \<longrightarrow>
       (\<exists>p. pools s (position_pool pos) = Some p \<and> position_range_ok p pos)) \<and>
    (\<forall>k b. bundles s k = Some b \<longrightarrow> bundle_wf b)"
  using reachable_ok [OF assms]
  unfolding market_ok_def rates_ok_def pools_ok_def pool_ok_def arrays_ok_def positions_ok_def bundles_ok_def
  by blast

lemma reachable_market_ok_witness:
  "\<exists>s p. reachable s \<and> pools s 1046 = Some p \<and> token_mint_a p < token_mint_b p"
proof -
  obtain s2 s3 :: chain_state where
    i: "process sample_env (IncreaseLiquidity sample_liquidity_accounts 1000000 10000 10000) s2 = Ok s3"
    and r: "reachable s3" by (rule sample_states)
  obtain p and pos :: position where p: "pools s3 1046 = Some p" by (rule sample_accounts [OF i])
  have "token_mint_a p < token_mint_b p" using reachable_market_ok [OF r] p by blast
  with r p show ?thesis by blast
qed

end
