(* ===== verification/Liquidity_Sums.thy ===== *)
theory Liquidity_Sums
  imports Invariants
begin

text \<open>
  The liquidity of the positions of a pool, summed: the specification that the liquidity of the
  pool and the entries of its ticks implement.
\<close>

section \<open>Sums over the positions of a pool\<close>

definition sum_of :: "(pubkey \<rightharpoonup> position) \<Rightarrow> pubkey \<Rightarrow> (position \<Rightarrow> int) \<Rightarrow> int" where
  "sum_of ps pk f = (\<Sum>k\<in>dom ps. if position_pool (the (ps k)) = pk then f (the (ps k)) else 0)"

text \<open>What one position contributes to the active liquidity at a tick, and to the gross and the net
  liquidity of a tick.\<close>

definition liquidity_of :: "position \<Rightarrow> int" where
  "liquidity_of pos = int (unat (position_liquidity pos))"

definition active_part :: "i32 \<Rightarrow> position \<Rightarrow> int" where
  "active_part c pos = (if tick_lower_index pos \<le> c \<and> c < tick_upper_index pos then liquidity_of pos else 0)"

definition gross_part :: "i32 \<Rightarrow> position \<Rightarrow> int" where
  "gross_part i pos = (if tick_lower_index pos = i then liquidity_of pos else 0) +
     (if tick_upper_index pos = i then liquidity_of pos else 0)"

definition net_part :: "i32 \<Rightarrow> position \<Rightarrow> int" where
  "net_part i pos = (if tick_lower_index pos = i then liquidity_of pos else 0) -
     (if tick_upper_index pos = i then liquidity_of pos else 0)"

lemma liquidity_of_nonneg [simp]: "0 \<le> liquidity_of pos"
  by (simp add: liquidity_of_def)

lemma liquidity_of_0_iff: "liquidity_of pos = 0 \<longleftrightarrow> position_liquidity pos = 0"
  using unat_gt_0 [of "position_liquidity pos"] unfolding liquidity_of_def of_nat_eq_0_iff by auto

lemma sum_of_upd:
  assumes "finite (dom ps)"
  shows "sum_of (ps(k \<mapsto> pos')) pk f = sum_of ps pk f + (if position_pool pos' = pk then f pos' else 0) -
    (case ps k of None \<Rightarrow> 0 | Some pos \<Rightarrow> if position_pool pos = pk then f pos else 0)"
proof -
  let ?g = "\<lambda>ps k. if position_pool (the (ps k)) = pk then f (the (ps k)) else 0"
  have "sum_of (ps(k \<mapsto> pos')) pk f = (if position_pool pos' = pk then f pos' else 0) + sum (?g (ps(k \<mapsto> pos'))) (dom ps - {k})"
    unfolding sum_of_def using assms by (simp add: sum.insert_remove)
  also have "sum (?g (ps(k \<mapsto> pos'))) (dom ps - {k}) = sum (?g ps) (dom ps - {k})"
    by (rule sum.cong) auto
  also have "\<dots> = sum_of ps pk f - (case ps k of None \<Rightarrow> 0 | Some pos \<Rightarrow> if position_pool pos = pk then f pos else 0)"
    unfolding sum_of_def using assms by (cases "ps k") (simp_all add: sum_diff1 domI domIff)
  finally show ?thesis by linarith
qed

lemma sum_of_del:
  assumes "finite (dom ps)" "ps k = Some pos"
  shows "sum_of (ps(k := None)) pk f = sum_of ps pk f - (if position_pool pos = pk then f pos else 0)"
proof -
  let ?g = "\<lambda>ps k. if position_pool (the (ps k)) = pk then f (the (ps k)) else 0"
  have "sum_of (ps(k := None)) pk f = sum (?g ps) (dom ps - {k})"
    unfolding sum_of_def by (rule sum.cong) auto
  also have "\<dots> = sum_of ps pk f - (if position_pool pos = pk then f pos else 0)"
    unfolding sum_of_def using assms by (simp add: sum_diff1 domI)
  finally show ?thesis .
qed

lemma sum_of_cong:
  "(\<And>k pos. ps k = Some pos \<Longrightarrow> position_pool pos = pk \<Longrightarrow> f pos = g pos) \<Longrightarrow> sum_of ps pk f = sum_of ps pk g"
  unfolding sum_of_def by (rule sum.cong) (auto simp: dom_def)

lemma sum_of_add: "sum_of ps pk (\<lambda>pos. f pos + g pos) = sum_of ps pk f + sum_of ps pk g"
  unfolding sum_of_def by (simp add: sum.distrib [symmetric]) (rule sum.cong, auto)

lemma sum_of_diff: "sum_of ps pk (\<lambda>pos. f pos - g pos) = sum_of ps pk f - sum_of ps pk g"
  unfolding sum_of_def by (simp add: sum_subtractf [symmetric]) (rule sum.cong, auto)

lemma sum_of_mono:
  "(\<And>k pos. ps k = Some pos \<Longrightarrow> position_pool pos = pk \<Longrightarrow> f pos \<le> g pos) \<Longrightarrow> sum_of ps pk f \<le> sum_of ps pk g"
  unfolding sum_of_def by (rule sum_mono) (auto simp: dom_def)

lemma sum_of_ge_part:
  assumes "finite (dom ps)" "ps k = Some pos" "position_pool pos = pk"
    "\<And>k pos. ps k = Some pos \<Longrightarrow> position_pool pos = pk \<Longrightarrow> 0 \<le> f pos"
  shows "f pos \<le> sum_of ps pk f"
proof -
  have "(if position_pool (the (ps k)) = pk then f (the (ps k)) else 0) \<le> sum_of ps pk f"
    unfolding sum_of_def using assms by (intro member_le_sum) (auto simp: dom_def)
  then show ?thesis using assms(2,3) by simp
qed

lemma sum_of_empty [simp]: "sum_of Map.empty pk f = 0"
  by (simp add: sum_of_def)

lemma sum_of_0 [simp]: "sum_of ps pk (\<lambda>pos. 0) = 0"
  by (simp add: sum_of_def)

text \<open>The net liquidity of a tick vanishes with the gross liquidity, and both are bounded by the
  liquidity of all positions.\<close>

lemma gross_nonneg: "0 \<le> gross_part i pos"
  by (simp add: gross_part_def)

lemma net_le_gross: "\<bar>sum_of ps pk (net_part i)\<bar> \<le> sum_of ps pk (gross_part i)"
proof -
  have "sum_of ps pk (net_part i) \<le> sum_of ps pk (gross_part i)"
    by (rule sum_of_mono) (simp add: net_part_def gross_part_def)
  moreover have "sum_of ps pk (\<lambda>pos. 0 - gross_part i pos) \<le> sum_of ps pk (net_part i)"
    by (rule sum_of_mono) (simp add: net_part_def gross_part_def)
  ultimately show ?thesis unfolding sum_of_diff sum_of_0 by linarith
qed

lemma net_bound:
  assumes "\<And>k pos. ps k = Some pos \<Longrightarrow> position_pool pos = pk \<Longrightarrow> tick_lower_index pos < tick_upper_index pos"
  shows "\<bar>sum_of ps pk (net_part i)\<bar> \<le> sum_of ps pk liquidity_of"
proof -
  have "sum_of ps pk (net_part i) \<le> sum_of ps pk liquidity_of"
    by (rule sum_of_mono) (simp add: net_part_def)
  moreover have "sum_of ps pk (\<lambda>pos. 0 - liquidity_of pos) \<le> sum_of ps pk (net_part i)"
    by (rule sum_of_mono) (auto simp: net_part_def dest: assms)
  ultimately show ?thesis unfolding sum_of_diff sum_of_0 by linarith
qed

section \<open>Moving the current tick\<close>

text \<open>The ticks at which a position with liquidity begins or ends. Without one in between, the active
  liquidity is the same; at a single tick it changes by the net liquidity there.\<close>

definition live_boundary :: "(pubkey \<rightharpoonup> position) \<Rightarrow> pubkey \<Rightarrow> i32 \<Rightarrow> bool" where
  "live_boundary ps pk i \<longleftrightarrow> (\<exists>k pos. ps k = Some pos \<and> position_pool pos = pk \<and> position_liquidity pos \<noteq> 0 \<and>
     (tick_lower_index pos = i \<or> tick_upper_index pos = i))"

lemma live_boundaryI:
  "ps k = Some pos \<Longrightarrow> position_pool pos = pk \<Longrightarrow> position_liquidity pos \<noteq> 0 \<Longrightarrow>
   tick_lower_index pos = i \<or> tick_upper_index pos = i \<Longrightarrow> live_boundary ps pk i"
  unfolding live_boundary_def by blast

lemma live_gross:
  assumes "finite (dom ps)" "live_boundary ps pk i"
  shows "0 < sum_of ps pk (gross_part i)"
proof -
  obtain k pos where k: "ps k = Some pos" "position_pool pos = pk" "position_liquidity pos \<noteq> 0"
    "tick_lower_index pos = i \<or> tick_upper_index pos = i" using assms(2) unfolding live_boundary_def by blast
  have "0 < liquidity_of pos" using k(3) liquidity_of_0_iff [of pos] liquidity_of_nonneg [of pos] by linarith
  then have "0 < gross_part i pos" using k(4) by (auto simp: gross_part_def intro: add_pos_nonneg)
  also have "\<dots> \<le> sum_of ps pk (gross_part i)" by (rule sum_of_ge_part [OF assms(1) k(1,2)]) (rule gross_nonneg)
  finally show ?thesis .
qed

lemma dead_gross: "\<not> live_boundary ps pk i \<Longrightarrow> sum_of ps pk (gross_part i) = 0"
proof -
  assume "\<not> live_boundary ps pk i"
  then have "sum_of ps pk (gross_part i) = sum_of ps pk (\<lambda>pos. 0)"
    by (intro sum_of_cong) (auto simp: gross_part_def liquidity_of_0_iff live_boundary_def)
  then show ?thesis by simp
qed

lemma dead_net: "\<not> live_boundary ps pk i \<Longrightarrow> sum_of ps pk (net_part i) = 0"
proof -
  assume "\<not> live_boundary ps pk i"
  then have "sum_of ps pk (net_part i) = sum_of ps pk (\<lambda>pos. 0)"
    by (intro sum_of_cong) (auto simp: net_part_def liquidity_of_0_iff live_boundary_def)
  then show ?thesis by simp
qed

lemma active_same:
  assumes "\<And>i. a < i \<Longrightarrow> i \<le> b \<Longrightarrow> \<not> live_boundary ps pk i" "a \<le> b"
  shows "sum_of ps pk (active_part a) = sum_of ps pk (active_part b)"
proof (rule sum_of_cong)
  fix k pos assume k: "ps k = Some pos" "position_pool pos = pk"
  show "active_part a pos = active_part b pos"
  proof (cases "position_liquidity pos = 0")
    case True
    then show ?thesis by (simp add: active_part_def liquidity_of_def)
  next
    case False
    have "live_boundary ps pk (tick_lower_index pos)" "live_boundary ps pk (tick_upper_index pos)"
      by (rule live_boundaryI [of ps k pos pk]; use k False in simp)+
    then have "\<not> (a < tick_lower_index pos \<and> tick_lower_index pos \<le> b)" "\<not> (a < tick_upper_index pos \<and> tick_upper_index pos \<le> b)"
      using assms(1) by blast+
    then have "tick_lower_index pos \<le> a \<longleftrightarrow> tick_lower_index pos \<le> b" "tick_upper_index pos \<le> a \<longleftrightarrow> tick_upper_index pos \<le> b"
      using assms(2) by linarith+
    then show ?thesis by (simp add: active_part_def flip: not_le)
  qed
qed

lemma active_cross:
  assumes "\<And>k pos. ps k = Some pos \<Longrightarrow> position_pool pos = pk \<Longrightarrow> tick_lower_index pos < tick_upper_index pos"
  shows "sum_of ps pk (active_part i) = sum_of ps pk (active_part (i - 1)) + sum_of ps pk (net_part i)"
proof -
  have "sum_of ps pk (active_part i) = sum_of ps pk (\<lambda>pos. active_part (i - 1) pos + net_part i pos)"
    by (rule sum_of_cong) (auto simp: active_part_def net_part_def dest: assms)
  then show ?thesis by (simp add: sum_of_add)
qed

end
