(* ===== verification/Tick_Ledger.thy ===== *)
theory Tick_Ledger
  imports Liquidity_Sums
begin

text \<open>
  The ticks of a pool as one store over all its arrays, and what a change of liquidity does to
  them (\<^verbatim>\<open>manager/liquidity_manager.rs\<close>).
\<close>

section \<open>The ticks of a pool\<close>

definition tick_in :: "tick_array \<Rightarrow> pubkey \<Rightarrow> u16 \<Rightarrow> i32 \<Rightarrow> tick \<Rightarrow> bool" where
  "tick_in ta pk sp i t \<longleftrightarrow> tick_array_pool ta = pk \<and>
     (\<exists>n. n < length (ticks ta) \<and> i = start_tick_index ta + int n * i32_of_u16 sp \<and> t = ticks ta ! n)"

definition tick_stored :: "tick_array_store \<Rightarrow> pubkey \<Rightarrow> u16 \<Rightarrow> i32 \<Rightarrow> tick \<Rightarrow> bool" where
  "tick_stored arrays pk sp i t \<longleftrightarrow> (\<exists>ak ta. arrays ak = Some ta \<and> tick_in ta pk sp i t)"

definition has_tick :: "tick_array_store \<Rightarrow> pubkey \<Rightarrow> u16 \<Rightarrow> i32 \<Rightarrow> bool" where
  "has_tick arrays pk sp i \<longleftrightarrow> (\<exists>t. tick_stored arrays pk sp i t)"

lemma tick_stored_cases:
  assumes "tick_stored arrays pk sp i t"
  obtains ak ta n where "arrays ak = Some ta" "tick_array_pool ta = pk" "n < length (ticks ta)"
    "i = start_tick_index ta + int n * i32_of_u16 sp" "t = ticks ta ! n"
  using assms by (auto simp: tick_stored_def tick_in_def)

lemma has_tickI: "tick_stored arrays pk sp i t \<Longrightarrow> has_tick arrays pk sp i"
  by (auto simp: has_tick_def)

lemma stored_upd: "tick_stored (arrays(ak \<mapsto> ta')) pk sp i t \<longleftrightarrow>
    tick_in ta' pk sp i t \<or> (\<exists>x tx. x \<noteq> ak \<and> arrays x = Some tx \<and> tick_in tx pk sp i t)"
  unfolding tick_stored_def by (metis (full_types) fun_upd_other fun_upd_same option.sel)

lemma stored_split: "arrays ak = Some ta \<Longrightarrow> tick_stored arrays pk sp i t \<longleftrightarrow>
    tick_in ta pk sp i t \<or> (\<exists>x tx. x \<noteq> ak \<and> arrays x = Some tx \<and> tick_in tx pk sp i t)"
  unfolding tick_stored_def by (metis (full_types) option.sel)

text \<open>Every array is at the address of its pool and start, so no two arrays hold the same tick.\<close>

definition addresses_ok :: "(pubkey \<Rightarrow> i32 \<Rightarrow> pubkey) \<Rightarrow> tick_array_store \<Rightarrow> bool" where
  "addresses_ok addr arrays \<longleftrightarrow>
     (\<forall>ak ta. arrays ak = Some ta \<longrightarrow> ak = addr (tick_array_pool ta) (start_tick_index ta))"

lemma addresses_okD: "addresses_ok addr arrays \<Longrightarrow> arrays ak = Some ta \<Longrightarrow> ak = addr (tick_array_pool ta) (start_tick_index ta)"
  by (simp add: addresses_ok_def)

definition pool_arrays_valid :: "tick_array_store \<Rightarrow> pubkey \<Rightarrow> u16 \<Rightarrow> bool" where
  "pool_arrays_valid arrays pk sp \<longleftrightarrow>
     (\<forall>ak ta. arrays ak = Some ta \<and> tick_array_pool ta = pk \<longrightarrow> tick_array_valid ta sp)"

lemma pool_arrays_validD: "pool_arrays_valid arrays pk sp \<Longrightarrow> arrays ak = Some ta \<Longrightarrow> tick_array_pool ta = pk \<Longrightarrow> tick_array_valid ta sp"
  by (auto simp: pool_arrays_valid_def)

lemma slot_range:
  assumes "tick_array_valid ta sp" "n < length (ticks ta)"
  shows "start_tick_index ta \<le> start_tick_index ta + int n * i32_of_u16 sp"
    "start_tick_index ta + int n * i32_of_u16 sp < start_tick_index ta + 88 * i32_of_u16 sp"
  using tick_array_validD(1-3) [OF assms(1)] assms(2) by simp_all

lemma covered_slot:
  assumes "tick_array_valid ta sp" "i32_of_u16 sp dvd i"
    and "start_tick_index ta \<le> i" "i < start_tick_index ta + 88 * i32_of_u16 sp"
  obtains n where "n < 88" "i = start_tick_index ta + int n * i32_of_u16 sp"
proof -
  let ?r = "i32_of_u16 sp" and ?s = "start_tick_index ta"
  note va = tick_array_validD [OF assms(1)]
  have "?r dvd i - ?s" using assms(2) va(5) by (rule dvd_diff)
  then obtain m where m: "i - ?s = ?r * m" ..
  have "0 \<le> m" using m assms(3) va(2) zero_le_mult_iff [of ?r m] by linarith
  moreover have "m < 88"
  proof (rule ccontr)
    assume "\<not> m < 88"
    then have "?r * 88 \<le> ?r * m" using va(2) by (intro mult_left_mono) simp_all
    then show False using m assms(4) by linarith
  qed
  ultimately show thesis using that [of "nat m"] m by (simp add: mult.commute)
qed

lemma usable_tick_position:
  assumes "tick_array_valid ta sp" "i32_of_u16 sp dvd i" "\<bar>i\<bar> \<le> 443636"
    and "start_tick_index ta \<le> i" "i < start_tick_index ta + 88 * i32_of_u16 sp"
  obtains n where "tick_position ta i sp = Ok n"
  using covered_slot [OF assms(1,2,4,5)] assms(3) that unfolding tick_position_iff [OF assms(1)] by metis

text \<open>Two arrays of a pool that cover a common tick have the same start.\<close>

lemma same_start:
  assumes "tick_array_valid ta sp" "tick_array_valid tb sp"
    "start_tick_index ta \<le> i" "i < start_tick_index ta + 88 * i32_of_u16 sp"
    "start_tick_index tb \<le> i" "i < start_tick_index tb + 88 * i32_of_u16 sp"
  shows "start_tick_index ta = start_tick_index tb"
  using arrays_apart [OF assms(1,2)] arrays_apart [OF assms(2,1)] assms(3-6) by linarith

lemma covering_array:
  assumes a: "addresses_ok addr arrays" and v: "pool_arrays_valid arrays pk sp"
    and ta: "arrays ak = Some ta" "tick_array_pool ta = pk" and tb: "arrays bk = Some tb" "tick_array_pool tb = pk"
    and i: "start_tick_index ta \<le> i" "i < start_tick_index ta + 88 * i32_of_u16 sp"
    "start_tick_index tb \<le> i" "i < start_tick_index tb + 88 * i32_of_u16 sp"
  shows "bk = ak \<and> tb = ta"
proof -
  have "start_tick_index tb = start_tick_index ta"
    using same_start [OF pool_arrays_validD [OF v ta] pool_arrays_validD [OF v tb] i] by simp
  then have "bk = ak" using addresses_okD [OF a ta(1)] addresses_okD [OF a tb(1)] ta(2) tb(2) by simp
  then show ?thesis using ta tb by simp
qed

lemma tick_stored_in:
  assumes a: "addresses_ok addr arrays" and v: "pool_arrays_valid arrays pk sp"
    and ta: "arrays ak = Some ta" "tick_array_pool ta = pk"
    and i: "start_tick_index ta \<le> i" "i < start_tick_index ta + 88 * i32_of_u16 sp" and t: "tick_stored arrays pk sp i t"
  shows "\<exists>n < 88. i = start_tick_index ta + int n * i32_of_u16 sp \<and> t = ticks ta ! n"
proof -
  obtain bk tb n where b: "arrays bk = Some tb" "tick_array_pool tb = pk" "n < length (ticks tb)"
    "i = start_tick_index tb + int n * i32_of_u16 sp" "t = ticks tb ! n" using t by (rule tick_stored_cases)
  have vb: "tick_array_valid tb sp" by (rule pool_arrays_validD [OF v b(1,2)])
  have "bk = ak \<and> tb = ta"
    by (rule covering_array [OF a v ta b(1,2) i]) (use slot_range [OF vb b(3)] b(4) in simp_all)
  then show ?thesis using b tick_array_validD(1) [OF vb] by auto
qed

lemma get_tick_stored:
  assumes "arrays ak = Some ta" "tick_array_pool ta = pk" "tick_array_valid ta sp" "get_tick ta i sp = Ok t"
  shows "tick_stored arrays pk sp i t"
proof -
  obtain n where "n < 88" "i = start_tick_index ta + int n * i32_of_u16 sp" "t = ticks ta ! n"
    using assms(4) tick_position_iff [OF assms(3)] by (auto simp: get_tick_def and_then_Inr_iff)
  then have "tick_in ta pk sp i t" using assms(2) tick_array_validD(1) [OF assms(3)] by (auto simp: tick_in_def)
  then show ?thesis using assms(1) by (auto simp: tick_stored_def)
qed

text \<open>A write changes the tick it is for and no other.\<close>

lemma tick_stored_update:
  assumes a: "addresses_ok addr arrays" and v: "pool_arrays_valid arrays pk sp"
    and ta: "arrays ak = Some ta" "tick_array_pool ta = pk" and u: "update_tick ta i sp u = Ok ta'"
  shows "tick_stored (arrays(ak \<mapsto> ta')) pk sp j t \<longleftrightarrow> (if j = i then t = u else tick_stored arrays pk sp j t)"
    and "qk \<noteq> pk \<Longrightarrow> tick_stored (arrays(ak \<mapsto> ta')) qk sq j t \<longleftrightarrow> tick_stored arrays qk sq j t"
    and "addresses_ok addr (arrays(ak \<mapsto> ta'))" "pool_arrays_valid (arrays(ak \<mapsto> ta')) pk sp"
    "tick_array_pool ta' = pk"
proof -
  have va: "tick_array_valid ta sp" by (rule pool_arrays_validD [OF v ta])
  obtain n where n: "tick_position ta i sp = Ok n" and ta': "ta' = ta\<lparr>ticks := (ticks ta)[n := u]\<rparr>"
    using u by (auto simp: update_tick_Ok_iff)
  have i: "n < 88" "i = start_tick_index ta + int n * i32_of_u16 sp"
    using n unfolding tick_position_iff [OF va] by blast+
  have len: "length (ticks ta) = 88" and r: "0 < i32_of_u16 sp" using tick_array_validD [OF va] by simp_all
  show "tick_array_pool ta' = pk" by (simp add: ta' ta(2))
  show "addresses_ok addr (arrays(ak \<mapsto> ta'))" using a ta by (auto simp: addresses_ok_def ta')
  show v': "pool_arrays_valid (arrays(ak \<mapsto> ta')) pk sp"
    using v update_tick_valid [OF va u] by (auto simp: pool_arrays_valid_def)
  show "qk \<noteq> pk \<Longrightarrow> tick_stored (arrays(ak \<mapsto> ta')) qk sq j t \<longleftrightarrow> tick_stored arrays qk sq j t"
    using ta(2) unfolding stored_upd stored_split [of arrays, OF ta(1)] by (auto simp: ta' tick_in_def)
  have here: "tick_stored (arrays(ak \<mapsto> ta')) pk sp i t \<Longrightarrow> t = u"
  proof -
    assume st: "tick_stored (arrays(ak \<mapsto> ta')) pk sp i t"
    have "addresses_ok addr (arrays(ak \<mapsto> ta'))" by fact
    from tick_stored_in [OF this v' _ \<open>tick_array_pool ta' = pk\<close> _ _ st, of ak] slot_range [OF va, of n] i len
    obtain m where m: "m < 88" "i = start_tick_index ta' + int m * i32_of_u16 sp" "t = ticks ta' ! m" by (auto simp: ta')
    then have "m = n" using i r by (simp add: ta')
    then show "t = u" using m(3) i(1) len by (simp add: ta')
  qed
  show "tick_stored (arrays(ak \<mapsto> ta')) pk sp j t \<longleftrightarrow> (if j = i then t = u else tick_stored arrays pk sp j t)"
  proof (cases "j = i")
    case True
    have "tick_in ta' pk sp i u"
      unfolding tick_in_def using i len ta by (simp add: ta') (intro exI [of _ n], simp)
    then have "tick_stored (arrays(ak \<mapsto> ta')) pk sp i u" by (simp add: stored_upd)
    then show ?thesis using True here by auto
  next
    case False
    have "ticks ta' ! m = ticks ta ! m" if "j = start_tick_index ta + int m * i32_of_u16 sp" for m
      using that False i(2) by (cases "m = n") (auto simp: ta')
    then have "tick_in ta' pk sp j t \<longleftrightarrow> tick_in ta pk sp j t" unfolding tick_in_def by (auto simp: ta')
    then show ?thesis using False unfolding stored_upd stored_split [of arrays, OF ta(1)] by simp
  qed
qed

section \<open>Entries that account for the positions\<close>

definition tick_accounts :: "(pubkey \<rightharpoonup> position) \<Rightarrow> pubkey \<Rightarrow> i32 \<Rightarrow> tick \<Rightarrow> bool" where
  "tick_accounts ps pk i t \<longleftrightarrow> int (unat (liquidity_gross t)) = sum_of ps pk (gross_part i) \<and>
     liquidity_net t = sum_of ps pk (net_part i) \<and> (tick_initialized t \<longleftrightarrow> liquidity_gross t \<noteq> 0)"

text \<open>The invariant: active liquidity, tick entries, and a stored tick at both ends of every position
  that has liquidity.\<close>

definition boundaries_stored :: "(pubkey \<rightharpoonup> position) \<Rightarrow> tick_array_store \<Rightarrow> pubkey \<Rightarrow> u16 \<Rightarrow> bool" where
  "boundaries_stored ps arrays pk sp \<longleftrightarrow> (\<forall>k pos. ps k = Some pos \<and> position_pool pos = pk \<and> position_liquidity pos \<noteq> 0 \<longrightarrow>
     has_tick arrays pk sp (tick_lower_index pos) \<and> has_tick arrays pk sp (tick_upper_index pos))"

definition pool_accounts :: "(pubkey \<rightharpoonup> position) \<Rightarrow> tick_array_store \<Rightarrow> pubkey \<Rightarrow> pool \<Rightarrow> bool" where
  "pool_accounts ps arrays pk p \<longleftrightarrow>
     int (unat (pool_liquidity p)) = sum_of ps pk (active_part (tick_current_index p)) \<and>
     (\<forall>i t. tick_stored arrays pk (tick_spacing p) i t \<longrightarrow> tick_accounts ps pk i t) \<and>
     boundaries_stored ps arrays pk (tick_spacing p)"

text \<open>What a position's ticks become when its liquidity changes.\<close>

lemma tick_accounts_modified:
  assumes fin: "finite (dom ps)" and k: "ps k = Some pos" "position_pool pos = pk"
    and order: "tick_lower_index pos < tick_upper_index pos"
    and pos': "position_pool pos' = pk" "tick_lower_index pos' = tick_lower_index pos" "tick_upper_index pos' = tick_upper_index pos"
      "liquidity_of pos' = liquidity_of pos + d"
    and t: "tick_accounts ps pk (if upper then tick_upper_index pos else tick_lower_index pos) t"
    and upd: "next_tick_modify_liquidity_update t i c ga gb infos d upper = Ok u" "d \<noteq> 0" "in_signed 128 d"
  shows "tick_accounts (ps(k \<mapsto> pos')) pk (if upper then tick_upper_index pos else tick_lower_index pos) u"
proof -
  let ?i = "if upper then tick_upper_index pos else tick_lower_index pos"
  let ?ps = "ps(k \<mapsto> pos')"
  have gross: "sum_of ?ps pk (gross_part ?i) = sum_of ps pk (gross_part ?i) + d"
    using order pos' k(2) by (simp add: sum_of_upd [OF fin] k gross_part_def)
  have net: "sum_of ?ps pk (net_part ?i) = sum_of ps pk (net_part ?i) + (if upper then - d else d)"
    using order pos' k(2) by (simp add: sum_of_upd [OF fin] k net_part_def)
  obtain g where g: "add_liquidity_delta (liquidity_gross t) d = Ok g"
    using upd(1,2) by (auto simp: next_tick_modify_liquidity_update_def and_then_Inr_iff)
  have ug: "int (unat g) = int (unat (liquidity_gross t)) + d" by (rule add_liquidity_delta_Ok [OF g upd(3)])
  show ?thesis
  proof (cases "g = 0")
    case True
    then have u: "u = default_tick" using upd(1,2) g by (simp add: next_tick_modify_liquidity_update_def)
    have "sum_of ?ps pk (gross_part ?i) = 0" using gross ug True t by (simp add: tick_accounts_def)
    moreover from this have "sum_of ?ps pk (net_part ?i) = 0" using net_le_gross [of ?ps pk ?i] by simp
    ultimately show ?thesis unfolding tick_accounts_def u by (simp add: default_tick_def)
  next
    case False
    then have u: "liquidity_gross u = g" "tick_initialized u" "liquidity_net u = liquidity_net t + (if upper then - d else d)"
      using upd(1,2) g by (auto simp: next_tick_modify_liquidity_update_def Let_def and_then_Inr_iff checked_signed_def split: if_splits)
    show ?thesis using u False gross net ug t unfolding tick_accounts_def by simp
  qed
qed


section \<open>A change of liquidity\<close>

lemma sum_of_update:
  assumes "finite (dom ps)" "ps k = Some pos" "position_pool pos = pk" "position_pool pos' = pk"
  shows "sum_of (ps(k \<mapsto> pos')) pk f = sum_of ps pk f + (f pos' - f pos)"
    "qk \<noteq> pk \<Longrightarrow> sum_of (ps(k \<mapsto> pos')) qk f = sum_of ps qk f"
  using assms by (simp_all add: sum_of_upd)

text \<open>A position that keeps its range and its liquidity contributes the same everywhere.\<close>

definition same_share :: "position \<Rightarrow> position \<Rightarrow> bool" where
  "same_share pos pos' \<longleftrightarrow> position_pool pos' = position_pool pos \<and>
     tick_lower_index pos' = tick_lower_index pos \<and> tick_upper_index pos' = tick_upper_index pos \<and>
     position_liquidity pos' = position_liquidity pos"

lemma parts_same_share:
  assumes "same_share pos pos'"
  shows "liquidity_of pos' = liquidity_of pos" "active_part c pos' = active_part c pos"
    "gross_part i pos' = gross_part i pos" "net_part i pos' = net_part i pos"
  using assms by (simp_all add: same_share_def liquidity_of_def active_part_def gross_part_def net_part_def)

lemma pool_accounts_cong:
  assumes "\<And>c. sum_of ps' pk (active_part c) = sum_of ps pk (active_part c)"
    "\<And>i. sum_of ps' pk (gross_part i) = sum_of ps pk (gross_part i)"
    "\<And>i. sum_of ps' pk (net_part i) = sum_of ps pk (net_part i)"
    and "boundaries_stored ps arrays pk (tick_spacing p) \<Longrightarrow> boundaries_stored ps' arrays' pk (tick_spacing p)"
    and "\<And>i t. tick_stored arrays' pk (tick_spacing p) i t \<Longrightarrow> tick_stored arrays pk (tick_spacing p) i t"
    and "pool_liquidity p' = pool_liquidity p" "tick_current_index p' = tick_current_index p" "tick_spacing p' = tick_spacing p"
    and "pool_accounts ps arrays pk p"
  shows "pool_accounts ps' arrays' pk p'"
  using assms unfolding pool_accounts_def tick_accounts_def by metis

text \<open>The ticks and the pool of a position whose liquidity changes.\<close>

lemma sync_accounts:
  assumes fin: "finite (dom ps)" and k: "ps k = Some pos" "position_pool pos = pk"
    and order: "tick_lower_index pos < tick_upper_index pos"
    and a: "addresses_ok addr arrays" and v: "pool_arrays_valid arrays pk (tick_spacing p)"
    and la: "arrays lk = Some la" "tick_array_pool la = pk" and ua: "arrays uk = Some ua" "tick_array_pool ua = pk"
    and calc: "calculate_modify_liquidity p pos arrays lk uk d ts = Ok upd" "d \<noteq> 0" "in_signed 128 d"
    and sync: "sync_modify_liquidity_values p pos arrays lk uk upd ts' = Ok (p', pos', arrays')"
    and acc: "pool_accounts ps arrays pk p"
  shows "pool_accounts (ps(k \<mapsto> pos')) arrays' pk p'" "addresses_ok addr arrays'"
    "qk \<noteq> pk \<Longrightarrow> pool_accounts ps arrays qk q \<Longrightarrow> pool_accounts (ps(k \<mapsto> pos')) arrays' qk q"
    "liquidity_of pos' = liquidity_of pos + d" "position_pool pos' = pk"
proof -
  let ?sp = "tick_spacing p" and ?l = "tick_lower_index pos" and ?u = "tick_upper_index pos"
  let ?ps = "ps(k \<mapsto> pos')" and ?lu = "mod_tick_lower_update upd" and ?uu = "mod_tick_upper_update upd"
  note p' = sync_OkD(1) [OF sync] and pos' = sync_OkD(2) [OF sync]
  have pos'_ids: "position_pool pos' = pk" "tick_lower_index pos' = ?l" "tick_upper_index pos' = ?u"
    by (simp_all add: pos' position_apply_update_def k(2))
  obtain lt ut where lt: "get_tick la ?l ?sp = Ok lt" and ut: "get_tick ua ?u ?sp = Ok ut"
    and inner: "inner_calculate_modify_liquidity p pos lt ut ?l ?u d ts = Ok upd"
    using calculate_modify_liquidity_OkE [OF calc(1)] la(1) ua(1) by (metis option.inject)
  note i = inner_calculate_OkD [OF inner]
  have liq: "liquidity_of pos' = liquidity_of pos + d"
    using add_liquidity_delta_Ok [OF i(5) calc(3)] by (simp add: liquidity_of_def pos' position_apply_update_def)
  obtain la' ub ua' where s1: "update_tick la ?l ?sp ?lu = Ok la'" and ub: "(arrays(lk \<mapsto> la')) uk = Some ub"
    and s2: "update_tick ub ?u ?sp ?uu = Ok ua'" and arrays': "arrays' = arrays(lk \<mapsto> la', uk \<mapsto> ua')"
    using sync la(1) by (auto simp: sync_modify_liquidity_values_def and_then_Inr_iff Let_def
        load_tick_array_def position_apply_update_def split: option.splits)
  note t1 = tick_stored_update [OF a v la s1]
  have ub_pool: "tick_array_pool ub = pk" using ub ua t1(5) by (auto split: if_splits)
  note t2 = tick_stored_update [OF t1(3,4) ub ub_pool s2, folded arrays']
  show "addresses_ok addr arrays'" "liquidity_of pos' = liquidity_of pos + d" "position_pool pos' = pk"
    by (fact t2(3) liq pos'_ids(1))+
  have stored: "tick_stored arrays' pk ?sp j t \<longleftrightarrow>
      (if j = ?u then t = ?uu else if j = ?l then t = ?lu else tick_stored arrays pk ?sp j t)" for j t
    by (simp add: t1(1) t2(1))
  have book: "tick_accounts ps pk j t" if "tick_stored arrays pk ?sp j t" for j t
    using acc that by (simp add: pool_accounts_def)
  note vl = pool_arrays_validD [OF v]
  have lower: "tick_accounts ?ps pk ?l ?lu"
    using tick_accounts_modified [where upper = False, OF fin k order pos'_ids liq _ i(3) calc(2,3)]
      book [OF get_tick_stored [of arrays lk la pk ?sp ?l lt, OF la vl [OF la] lt]] by simp
  have upper: "tick_accounts ?ps pk ?u ?uu"
    using tick_accounts_modified [where upper = True, OF fin k order pos'_ids liq _ i(4) calc(2,3)]
      book [OF get_tick_stored [of arrays uk ua pk ?sp ?u ut, OF ua vl [OF ua] ut]] by simp
  have else_sums: "sum_of ?ps pk (gross_part j) = sum_of ps pk (gross_part j)"
    "sum_of ?ps pk (net_part j) = sum_of ps pk (net_part j)" if "j \<noteq> ?l" "j \<noteq> ?u" for j
    using that by (simp_all add: sum_of_update [OF fin k pos'_ids(1)] gross_part_def net_part_def pos'_ids)
  have ticks: "tick_accounts ?ps pk j t" if "tick_stored arrays' pk ?sp j t" for j t
  proof (cases "j = ?u \<or> j = ?l")
    case True
    then show ?thesis using that lower upper order by (auto simp: stored split: if_splits)
  next
    case False
    then show ?thesis using that book [of j t] else_sums [of j] by (simp add: stored tick_accounts_def)
  qed
  have "int (unat (mod_pool_liquidity upd)) = int (unat (pool_liquidity p)) +
      (if ?l \<le> tick_current_index p \<and> tick_current_index p < ?u then d else 0)"
    by (rule next_pool_liquidity_Ok [OF i(2) calc(3)])
  then have active: "int (unat (pool_liquidity p')) = sum_of ?ps pk (active_part (tick_current_index p'))"
    using acc liq by (simp add: pool_accounts_def sum_of_update [OF fin k pos'_ids(1)] active_part_def pos'_ids p'
        update_rewards_and_liquidity_def update_rewards_def)
  have "has_tick arrays' pk ?sp j \<longleftrightarrow> j = ?u \<or> j = ?l \<or> has_tick arrays pk ?sp j" for j
    by (auto simp: has_tick_def stored)
  then have bound: "boundaries_stored ?ps arrays' pk ?sp"
    using acc unfolding boundaries_stored_def pool_accounts_def by (auto simp: pos'_ids split: if_splits)
  have p'_same: "tick_spacing p' = ?sp" by (simp add: p' update_rewards_and_liquidity_def update_rewards_def)
  show "pool_accounts ?ps arrays' pk p'"
    using active ticks bound unfolding pool_accounts_def p'_same by blast
  assume qk: "qk \<noteq> pk" and q: "pool_accounts ps arrays qk q"
  have other: "tick_stored arrays' qk sq j t \<longleftrightarrow> tick_stored arrays qk sq j t" for sq j t
    using t1(2) [OF qk, of sq j t] t2(2) [OF qk, of sq j t] by (simp only:)
  show "pool_accounts ?ps arrays' qk q"
    by (rule pool_accounts_cong [OF _ _ _ _ _ refl refl refl q])
      (use qk in \<open>auto simp: sum_of_update(2) [OF fin k pos'_ids(1)] other has_tick_def boundaries_stored_def pos'_ids split: if_splits\<close>)
qed

end
