(* ===== verification/Tick_Index.thy ===== *)
theory Tick_Index
  imports "Tick_Math"
begin

text \<open>
  The tick of a price (\<^verbatim>\<open>tick_index_from_sqrt_price\<close> of \<^verbatim>\<open>math/tick_math.rs\<close>) is the largest tick
  whose price is at most the given one. The prices of the ticks are compared with the powers of
  \<open>sqrt 1.0001\<close> on the scale of logarithms to base 2, and so is the estimate of the code.
\<close>

section \<open>Logarithms of nearby numbers\<close>

lemma log2_near:
  fixes x :: real
  assumes "0 \<le> x"
  shows "log 2 (1 + x) \<le> 2 * x"
proof -
  have "ln (1 / 2) \<le> 1 / 2 - (1 :: real)" by (rule ln_le_minus_one) simp
  then have two: "1 / 2 \<le> ln (2 :: real)" by (simp add: ln_div)
  have "ln (1 + x) \<le> x" using assms by (rule ln_add_one_self_le_self)
  then have "ln (1 + x) / ln 2 \<le> x / (1 / 2)"
    using two assms by (intro frac_le) auto
  then show ?thesis by (simp add: log_def)
qed

lemma log2_le_near:
  fixes x y \<rho> :: real
  assumes "0 < x" "0 < y" "0 \<le> \<rho>" "x \<le> y * (1 + \<rho>)"
  shows "log 2 x \<le> log 2 y + 2 * \<rho>"
proof -
  have "log 2 x \<le> log 2 (y * (1 + \<rho>))" using assms by simp
  also have "\<dots> = log 2 y + log 2 (1 + \<rho>)" using assms by (simp add: log_mult)
  finally show ?thesis using log2_near [OF assms(3)] by simp
qed

lemma log2_near_below:
  fixes x y d :: real
  assumes "0 < x" "0 < y" "0 \<le> d" "d \<le> 1 / 4" "y * (1 - d) \<le> x"
  shows "log 2 y - 3 * d \<le> log 2 x"
proof -
  have "1 \<le> (1 - d) * (1 + 4 / 3 * d)"
  proof -
    have "d * (4 * d) \<le> d * 1" using assms by (intro mult_left_mono) simp_all
    then show ?thesis by (simp add: algebra_simps)
  qed
  then have "y * 1 \<le> y * ((1 - d) * (1 + 4 / 3 * d))" using assms(2) by (intro mult_left_mono) simp_all
  also have "\<dots> = y * (1 - d) * (1 + 4 / 3 * d)" by simp
  also have "\<dots> \<le> x * (1 + 4 / 3 * d)" using assms by (intro mult_right_mono) simp_all
  finally have "y \<le> x * (1 + 4 / 3 * d)" by simp
  from log2_le_near [OF assms(2,1) _ this] show ?thesis using assms(3) by simp
qed

section \<open>The factors of the code as powers of the base\<close>

text \<open>Each factor is close to the square of the one before; \<open>n\<close> bits of the quotient agree with 1.\<close>

fun doubling :: "nat \<Rightarrow> nat \<Rightarrow> nat list \<Rightarrow> nat list \<Rightarrow> bool" where
  "doubling s c [] ns \<longleftrightarrow> ns = []"
| "doubling s c (d # ds) [] \<longleftrightarrow> False"
| "doubling s c (d # ds) (n # ns) \<longleftrightarrow>
     0 < d \<and> c * c * 2 ^ n \<le> d * 2 ^ s * (2 ^ n + 1) \<and> d * 2 ^ s * 2 ^ n \<le> c * c * (2 ^ n + 1) \<and>
     doubling s d ds ns"

fun doubling_error :: "real \<Rightarrow> nat list \<Rightarrow> real" where
  "doubling_error e [] = e"
| "doubling_error e (n # ns) = e + doubling_error (2 * e + 2 / 2 ^ n) ns"

lemma square_near:
  fixes c d :: nat
  assumes "0 < c" "0 < d" "c * c * 2 ^ n \<le> d * 2 ^ s * (2 ^ n + 1)" "d * 2 ^ s * 2 ^ n \<le> c * c * (2 ^ n + 1)"
  shows "\<bar>log 2 (real d / 2 ^ s) - 2 * log 2 (real c / 2 ^ s)\<bar> \<le> 2 / 2 ^ n"
proof -
  define x y where "x = (real c / 2 ^ s) * (real c / 2 ^ s)" and "y = real d / 2 ^ s"
  have pos: "0 < x" "0 < y" using assms by (simp_all add: x_def y_def)
  have "real (c * c * 2 ^ n) \<le> real (d * 2 ^ s * (2 ^ n + 1))" using assms(3) of_nat_le_iff by blast
  then have 1: "x \<le> y * (1 + 1 / 2 ^ n)" by (simp add: x_def y_def field_simps)
  have "real (d * 2 ^ s * 2 ^ n) \<le> real (c * c * (2 ^ n + 1))" using assms(4) of_nat_le_iff by blast
  then have 2: "y \<le> x * (1 + 1 / 2 ^ n)" by (simp add: x_def y_def field_simps)
  have "log 2 x = 2 * log 2 (real c / 2 ^ s)" 
    unfolding x_def using assms(1) by (subst log_mult_pos) simp_all
  then show ?thesis
    using log2_le_near [OF pos _ 1] log2_le_near [OF pos(2,1) _ 2] by (simp add: y_def abs_le_iff)
qed

lemma bit_product_log:
  assumes "doubling s c ds ns" "0 < c" "\<bar>log 2 (real c / 2 ^ s) - w\<bar> \<le> e" "0 \<le> e" "t < 2 ^ length (c # ds)"
  shows "0 < bit_product (map (\<lambda>c. real c / 2 ^ s) (c # ds)) t \<and>
    \<bar>log 2 (bit_product (map (\<lambda>c. real c / 2 ^ s) (c # ds)) t) - w * real t\<bar> \<le> doubling_error e ns"
  using assms
proof (induction s c ds ns arbitrary: w e t rule: doubling.induct)
  case (1 s c ns)
  then have "t = 0 \<or> t = 1" by auto
  then show ?case using 1 by auto
next
  case (3 s c d ds n ns)
  let ?f = "\<lambda>c. real c / 2 ^ s" and ?e = "2 * e + 2 / 2 ^ n"
  note d = 3(2) [simplified]
  have "\<bar>log 2 (?f d) - 2 * w\<bar> \<le> ?e"
    using square_near [of c d n s] d 3(3,4) by (simp add: abs_le_iff)
  moreover have "t div 2 < 2 ^ length (d # ds)" using 3(6) by simp
  ultimately have IH: "0 < bit_product (map ?f (d # ds)) (t div 2)"
    "\<bar>log 2 (bit_product (map ?f (d # ds)) (t div 2)) - 2 * w * real (t div 2)\<bar> \<le> doubling_error ?e ns"
    using 3(1) [of "2 * w" ?e "t div 2"] d 3(5) by simp_all
  have c: "0 < ?f c" using 3(3) by simp
  have t: "real t = 2 * real (t div 2) + (if odd t then 1 else 0)"
    by (cases "odd t") (auto elim!: oddE evenE)
  define P where "P = bit_product (map ?f (d # ds)) (t div 2)"
  note IH = IH [folded P_def]
  show ?case
  proof (cases "odd t")
    case True
    have "log 2 (?f c * P) = log 2 (?f c) + log 2 P" "0 < ?f c * P"
      using c IH(1) by (simp_all only: log_mult_pos mult_pos_pos)
    moreover have "bit_product (map ?f (c # d # ds)) t = ?f c * P" using True by (simp add: P_def)
    moreover have "w * real t = w + 2 * w * real (t div 2)" using True t by (simp add: algebra_simps)
    ultimately show ?thesis using IH(2) 3(4) by (simp add: abs_le_iff)
  next
    case False
    moreover have "bit_product (map ?f (c # d # ds)) t = P" using False by (simp add: P_def)
    moreover have "w * real t = w * (2 * real (t div 2))" using False t by (simp only: if_False add_0_right)
    ultimately show ?thesis using IH 3(5) by (simp only:) (simp add: abs_le_iff)
  qed
qed simp

text \<open>The first factor is the square root of the base of the ticks or its inverse.\<close>

definition log_base :: real where
  "log_base = log 2 (10001 / 10000) / 2"

lemma positive_doubling:
  "doubling 96 (hd positive_factors) (tl positive_factors)
    [95, 95, 95, 95, 95, 95, 95, 95, 95, 95, 95, 95, 95, 95, 95, 95, 95, 95]"
  by (simp add: positive_factors_def)

lemma negative_doubling:
  "doubling 64 (hd negative_factors) (tl negative_factors)
    [63, 63, 63, 63, 63, 63, 63, 63, 63, 63, 63, 63, 63, 63, 63, 60, 56, 48]"
  by (simp add: negative_factors_def)

lemma first_factors:
  "\<bar>log 2 (real (hd positive_factors) / 2 ^ 96) - log_base\<bar> \<le> 1 / 2 ^ 95"
  "\<bar>log 2 (real (hd negative_factors) / 2 ^ 64) - - log_base\<bar> \<le> 1 / 2 ^ 63"
proof -
  have sq: "\<bar>log 2 u - log 2 y / 2\<bar> \<le> \<rho>"
    if "0 < u" "0 < y" "0 \<le> \<rho>" "u * u \<le> y * (1 + \<rho>)" "y \<le> u * u * (1 + \<rho>)" for u y \<rho> :: real
  proof -
    have "log 2 (u * u) = 2 * log 2 u" using that(1) by (subst log_mult_pos) simp_all
    then show ?thesis
      using log2_le_near [of "u * u" y \<rho>] log2_le_near [of y "u * u" \<rho>] that by (simp add: abs_le_iff)
  qed
  show "\<bar>log 2 (real (hd positive_factors) / 2 ^ 96) - log_base\<bar> \<le> 1 / 2 ^ 95"
    using sq [of "real (hd positive_factors) / 2 ^ 96" "10001 / 10000" "1 / 2 ^ 95"]
    by (simp add: positive_factors_def log_base_def abs_le_iff)
  have "log 2 (10000 / 10001 :: real) = - log 2 (10001 / 10000)" by (simp add: log_divide)
  then show "\<bar>log 2 (real (hd negative_factors) / 2 ^ 64) - - log_base\<bar> \<le> 1 / 2 ^ 63"
    using sq [of "real (hd negative_factors) / 2 ^ 64" "10000 / 10001" "1 / 2 ^ 63"]
    by (simp add: negative_factors_def log_base_def abs_le_iff)
qed

lemma positive_product_log:
  assumes "t < 2 ^ 19"
  shows "0 < bit_product (map (\<lambda>c. real c / 2 ^ 96) positive_factors) t"
    "\<bar>log 2 (bit_product (map (\<lambda>c. real c / 2 ^ 96) positive_factors) t) - log_base * real t\<bar> \<le> 1 / 2 ^ 40"
proof -
  have fs: "hd positive_factors # tl positive_factors = positive_factors" "0 < hd positive_factors"
    by (simp_all add: positive_factors_def)
  have t: "t < 2 ^ length (hd positive_factors # tl positive_factors)" unfolding fs(1) using assms lengths by simp
  from bit_product_log [OF positive_doubling fs(2) first_factors(1) _ t]
  show "0 < bit_product (map (\<lambda>c. real c / 2 ^ 96) positive_factors) t"
    "\<bar>log 2 (bit_product (map (\<lambda>c. real c / 2 ^ 96) positive_factors) t) - log_base * real t\<bar> \<le> 1 / 2 ^ 40"
    unfolding fs(1) by auto
qed

lemma negative_product_log:
  assumes "t < 2 ^ 19"
  shows "0 < bit_product (map (\<lambda>c. real c / 2 ^ 64) negative_factors) t"
    "\<bar>log 2 (bit_product (map (\<lambda>c. real c / 2 ^ 64) negative_factors) t) - - log_base * real t\<bar> \<le> 1 / 2 ^ 40"
proof -
  have fs: "hd negative_factors # tl negative_factors = negative_factors" "0 < hd negative_factors"
    by (simp_all add: negative_factors_def)
  have t: "t < 2 ^ length (hd negative_factors # tl negative_factors)" unfolding fs(1) using assms lengths by simp
  from bit_product_log [OF negative_doubling fs(2) first_factors(2) _ t]
  show "0 < bit_product (map (\<lambda>c. real c / 2 ^ 64) negative_factors) t"
    "\<bar>log 2 (bit_product (map (\<lambda>c. real c / 2 ^ 64) negative_factors) t) - - log_base * real t\<bar> \<le> 1 / 2 ^ 40"
    unfolding fs(1) by auto
qed

section \<open>The price of a tick on the logarithmic scale\<close>

lemma near_product:
  fixes x P w :: real
  assumes "0 < x" "0 < P" "x \<le> P" "P * (1 - 5 / 10 ^ 9) \<le> x" "\<bar>log 2 P - w\<bar> \<le> 1 / 2 ^ 40"
  shows "\<bar>log 2 x - w\<bar> \<le> 2 / 100000000"
proof -
  have "log 2 x \<le> log 2 P" using assms by simp
  moreover have "log 2 P - 3 * (5 / 10 ^ 9) \<le> log 2 x" using assms by (intro log2_near_below) simp_all
  moreover have "log 2 P - w \<le> 1 / 2 ^ 40" "w - log 2 P \<le> 1 / 2 ^ 40" using assms(5) by linarith+
  ultimately show ?thesis by (intro abs_leI) simp_all
qed

lemma positive_price_log:
  assumes "n \<le> 443636"
  shows "\<bar>log 2 (real (positive_ratio n div 2 ^ 32) / 2 ^ 64) - log_base * real n\<bar> \<le> 2 / 100000000"
proof -
  have n: "n < 2 ^ 19" using assms by simp
  define P where "P = bit_product (map (\<lambda>c. real c / 2 ^ 96) positive_factors) n"
  define e where "e = (1 - 1 / 2 ^ 96 :: real) ^ 19"
  define r where "r = positive_ratio n"
  have up: "real r \<le> 2 ^ 96 * P"
    using scaled_steps_upper [of 96 positive_factors n "2 ^ 96"] by (simp add: r_def positive_ratio_def P_def)
  have low: "real (2 ^ 96) * P * e \<le> r"
    using scaled_steps_lower_grow [of positive_factors 96 "2 ^ 96" n, OF pf]
    unfolding r_def positive_ratio_def lengths(1) P_def e_def by simp
  have "1 + real 19 * (- (1 / 2 ^ 96)) \<le> (1 + (- (1 / 2 ^ 96 :: real))) ^ 19"
    by (rule Bernoulli_inequality) simp
  then have e: "1 - 1 / 2 ^ 91 \<le> e" by (simp add: e_def)
  have ge: "real (2 ^ 96) \<le> real r" unfolding r_def of_nat_le_iff by (rule positive_ratio_ge)
  have P: "0 < P" "\<bar>log 2 P - log_base * real n\<bar> \<le> 1 / 2 ^ 40" unfolding P_def using positive_product_log [OF n] by simp_all
  have q: "real r / 2 ^ 32 - 1 < real (r div 2 ^ 32)" "real (r div 2 ^ 32) \<le> real r / 2 ^ 32"
    using real_div_lower [of "2 ^ 32" r] of_nat_div_le_of_nat [where 'a = real, of r "2 ^ 32"] by simp_all
  have "P * (1 - 1 / 2 ^ 91) \<le> P * e" using e P(1) by (intro mult_left_mono) simp_all
  then have "2 ^ 96 * (P * (1 - 1 / 2 ^ 91)) \<le> real r" using low by simp
  then show ?thesis
    unfolding r_def [symmetric] using q ge up P by (intro near_product [of _ P]) (simp_all add: field_simps)
qed

lemma negative_price_log:
  assumes "n \<le> 443636"
  shows "\<bar>log 2 (real (negative_ratio n) / 2 ^ 64) - - log_base * real n\<bar> \<le> 2 / 100000000"
proof -
  have n: "n < 2 ^ 19" using assms by simp
  define P where "P = bit_product (map (\<lambda>c. real c / 2 ^ 64) negative_factors) n"
  have up: "real (negative_ratio n) \<le> 2 ^ 64 * P"
    using scaled_steps_upper [of 64 negative_factors n "2 ^ 64"] by (simp add: negative_ratio_def P_def)
  have low: "2 ^ 64 * P - 19 \<le> negative_ratio n"
    using scaled_steps_lower_shrink [of negative_factors 64 "2 ^ 64" n, OF nf]
    unfolding negative_ratio_def lengths(2) P_def by simp
  have "4295048016 \<le> negative_ratio n"
    using negative_ratio_mono(2) [of n 443636] assms ratios_at_bounds(3) by (cases "n = 443636") auto
  then have "real 4295048016 \<le> real (negative_ratio n)" unfolding of_nat_le_iff .
  moreover have "0 < P" "\<bar>log 2 P - - log_base * real n\<bar> \<le> 1 / 2 ^ 40" unfolding P_def using negative_product_log [OF n] by simp_all
  ultimately show ?thesis
    using up low by (intro near_product [of _ P]) (simp_all add: field_simps)
qed

lemma tick_price_log:
  assumes "\<bar>t\<bar> \<le> 443636"
  shows "\<bar>log 2 (real (tick_price t) / 2 ^ 64) - log_base * real_of_int t\<bar> \<le> 2 / 100000000"
proof (cases "0 \<le> t")
  case True
  then show ?thesis using positive_price_log [of "nat t"] assms by (simp add: tick_price_def)
next
  case False
  then show ?thesis using negative_price_log [of "nat (- t)"] assms by (simp add: tick_price_def)
qed

section \<open>Logarithms of fixed-point numbers\<close>

abbreviation mlog :: "nat \<Rightarrow> nat \<Rightarrow> real" where
  "mlog s m \<equiv> log 2 (real m / 2 ^ s)"

lemma mlog_square: "0 < m \<Longrightarrow> log 2 (real (m * m) / (2 ^ s * 2 ^ s)) = 2 * mlog s m"
  using log_mult_pos [of "real m / 2 ^ s" "real m / 2 ^ s" 2] by simp

lemma mlog_double: "0 < m \<Longrightarrow> mlog s (2 * m) = 1 + mlog s m"
  using log_mult_pos [of 2 "real m / 2 ^ s" 2] by simp

lemma mlog_mono: "0 < a \<Longrightarrow> a \<le> b \<Longrightarrow> mlog s a \<le> mlog s b"
  by (simp add: divide_right_mono)

lemma mlog_ge_0:
  assumes "2 ^ s \<le> m"
  shows "0 \<le> mlog s m"
  using mlog_mono [OF _ assms, of s] by simp

lemma mlog_le_1:
  assumes "0 < m" "m \<le> 2 ^ (s + 1)"
  shows "mlog s m \<le> 1"
  using mlog_mono [OF assms, of s] by simp

lemma mlog_square_le:
  assumes "0 < q" "q * 2 ^ s \<le> m * m" "0 < m"
  shows "mlog s q \<le> 2 * mlog s m"
proof -
  have "real (q * 2 ^ s) \<le> real (m * m)" using assms(2) unfolding of_nat_le_iff .
  then have "real q / 2 ^ s \<le> real (m * m) / (2 ^ s * 2 ^ s)" by (simp add: field_simps)
  then have "mlog s q \<le> log 2 (real (m * m) / (2 ^ s * 2 ^ s))" by (intro log_mono) (simp_all add: assms(1))
  then show ?thesis unfolding mlog_square [OF assms(3)] .
qed

lemma mlog_square_ge:
  assumes "0 < m" "m * m \<le> q * 2 ^ s"
  shows "2 * mlog s m \<le> mlog s q"
proof -
  have "real (m * m) \<le> real (q * 2 ^ s)" using assms(2) unfolding of_nat_le_iff .
  then have "real (m * m) / (2 ^ s * 2 ^ s) \<le> real q / 2 ^ s" by (simp add: field_simps)
  then have "log 2 (real (m * m) / (2 ^ s * 2 ^ s)) \<le> mlog s q"
    by (intro log_mono) (simp_all add: assms(1))
  then show ?thesis unfolding mlog_square [OF assms(1)] .
qed

section \<open>The constant of the code\<close>

text \<open>Repeated squaring of a number whose mantissa has \<open>s\<close> bits, rounding down and up.\<close>

fun squares_below :: "nat \<Rightarrow> nat \<Rightarrow> nat \<Rightarrow> nat \<Rightarrow> nat" where
  "squares_below s 0 m e = e"
| "squares_below s (Suc k) m e =
     (let q = m * m div 2 ^ s in
      if 2 ^ (s + 1) \<le> q then squares_below s k (q div 2) (2 * e + 1) else squares_below s k q (2 * e))"

fun squares_above :: "nat \<Rightarrow> nat \<Rightarrow> nat \<Rightarrow> nat \<Rightarrow> nat option" where
  "squares_above s 0 m e = (if m \<le> 2 ^ (s + 1) then Some (e + 1) else None)"
| "squares_above s (Suc k) m e =
     (let q = m * m div 2 ^ s + 1 in
      if 2 ^ (s + 1) < q then squares_above s k (q div 2 + 1) (2 * e + 1) else squares_above s k q (2 * e))"

lemma squares_below:
  assumes "2 ^ s \<le> m" "mlog s m + real e \<le> w"
  shows "real (squares_below s k m e) \<le> 2 ^ k * w"
  using assms
proof (induction k arbitrary: m e w)
  case 0
  then show ?case using mlog_ge_0 [OF 0(1)] by simp
next
  case (Suc k)
  define q where "q = m * m div 2 ^ s"
  have m: "0 < m" using Suc.prems(1) by (meson less_le_trans zero_less_numeral zero_less_power)
  have "2 ^ s * 2 ^ s \<le> m * m" using Suc.prems(1) by (intro mult_mono) simp_all
  then have q: "2 ^ s \<le> q" unfolding q_def by (simp add: less_eq_div_iff_mult_less_eq)
  then have "0 < q" by (meson less_le_trans zero_less_numeral zero_less_power)
  then have w: "mlog s q + real (2 * e) \<le> 2 * w"
    using mlog_square_le [of q s m] m Suc.prems(2) by (simp add: q_def)
  show ?case
  proof (cases "2 ^ (s + 1) \<le> q")
    case True
    have h: "2 ^ s \<le> q div 2" using True by simp
    then have h0: "0 < q div 2" by (meson less_le_trans zero_less_numeral zero_less_power)
    have "mlog s (2 * (q div 2)) \<le> mlog s q" using h0 by (intro mlog_mono) simp_all
    then have "mlog s (q div 2) + real (2 * e + 1) \<le> 2 * w" using w mlog_double [OF h0, of s] by simp
    from Suc.IH [OF h this] show ?thesis using True by (simp add: q_def Let_def)
  next
    case False
    then show ?thesis using Suc.IH [OF q w] by (simp add: q_def Let_def)
  qed
qed

lemma squares_above:
  assumes "squares_above s k m e = Some n" "0 < m" "w \<le> mlog s m + real e"
  shows "2 ^ k * w \<le> real n"
  using assms
proof (induction k arbitrary: m e w)
  case 0
  then have "mlog s m \<le> 1" "n = e + 1" using mlog_le_1 [of m s] by (auto simp del: log_le_one_cancel_iff split: if_splits)
  then show ?case using 0(3) by simp
next
  case (Suc k)
  define q where "q = m * m div 2 ^ s + 1"
  have "m * m < q * 2 ^ s"
    unfolding q_def by (metis Suc_eq_plus1 dividend_less_div_times mult.commute mult_Suc zero_less_numeral zero_less_power)
  then have w: "2 * w \<le> mlog s q + real (2 * e)" "0 < q"
    using mlog_square_ge [of m q s] Suc.prems(2,3) by (simp_all add: q_def)
  show ?case
  proof (cases "2 ^ (s + 1) < q")
    case True
    define h where "h = q div 2 + 1"
    have "mlog s q \<le> mlog s (2 * h)" using w(2) by (intro mlog_mono) (simp_all add: h_def)
    then have "2 * w \<le> mlog s h + real (2 * e + 1)" using w mlog_double [of h s] unfolding h_def by linarith
    moreover have "squares_above s k h (2 * e + 1) = Some n"
      using Suc.prems(1) True by (simp add: h_def q_def Let_def)
    moreover have "0 < h" by (simp add: h_def)
    ultimately show ?thesis using Suc.IH [of h "2 * e + 1" "2 * w"] by (simp add: ac_simps)
  next
    case False
    then have "squares_above s k q (2 * e) = Some n" using Suc.prems(1) by (simp add: q_def Let_def)
    then show ?thesis using Suc.IH [OF _ w(2,1)] by (simp add: ac_simps)
  qed
qed

lemma squares_numeral:
  "squares_below s (numeral k) m e =
     (let q = m * m div 2 ^ s in
      if 2 ^ (s + 1) \<le> q then squares_below s (pred_numeral k) (q div 2) (2 * e + 1)
      else squares_below s (pred_numeral k) q (2 * e))"
  "squares_above s (numeral k) m e =
     (let q = m * m div 2 ^ s + 1 in
      if 2 ^ (s + 1) < q then squares_above s (pred_numeral k) (q div 2 + 1) (2 * e + 1)
      else squares_above s (pred_numeral k) q (2 * e))"
  by (simp_all add: numeral_eq_Suc)

text \<open>\<open>LOG_B_2_X32 / 2 ^ 32\<close> is the logarithm of 2 to the base of the square-root prices.\<close>

lemma log_base_bounds:
  "1 - 1 / 10 ^ 9 \<le> 59543866431248 / 2 ^ 32 * log_base" "59543866431248 / 2 ^ 32 * log_base \<le> 1 + 1 / 10 ^ 9"
proof -
  define m :: nat where "m = 1209046712196590637623646"
  have m: "real m / 2 ^ 80 \<le> 10001 / 10000" "10001 / 10000 \<le> real (m + 1) / 2 ^ 80" "2 ^ 80 \<le> m" "0 < m"
    by (simp_all add: m_def)
  have "squares_below 80 45 m 0 = 5075778128" "squares_above 80 45 (m + 1) 0 = Some 5075778129"
    unfolding m_def by (simp_all add: squares_numeral)
  moreover have "mlog 80 m + real 0 \<le> log 2 (10001 / 10000)" using m by simp
  note squares_below [OF m(3) this, of 45]
  moreover have "log 2 (10001 / 10000) \<le> mlog 80 (m + 1) + real 0" using m by simp
  note squares_above [OF _ _ this, of 45]
  ultimately show "1 - 1 / 10 ^ 9 \<le> 59543866431248 / 2 ^ 32 * log_base" "59543866431248 / 2 ^ 32 * log_base \<le> 1 + 1 / 10 ^ 9"
    by (simp_all add: log_base_def)
qed

section \<open>The loop of the code\<close>

lemma mlog_Suc:
  assumes "2 ^ s \<le> m"
  shows "mlog s (m + 1) \<le> mlog s m + 2 / 2 ^ s"
proof -
  have "real (2 ^ s) \<le> real m" using assms unfolding of_nat_le_iff .
  then have "real (m + 1) / 2 ^ s \<le> real m / 2 ^ s * (1 + 1 / 2 ^ s)" by (simp add: field_simps)
  moreover have "0 < m" using assms by (meson less_le_trans zero_less_numeral zero_less_power)
  ultimately show ?thesis using log2_le_near [of "real (m + 1) / 2 ^ s" "real m / 2 ^ s" "1 / 2 ^ s"] by simp
qed

text \<open>One round: the bit that is found and the number that remains.\<close>

definition next_bit :: "nat \<Rightarrow> nat" where
  "next_bit m = m * m div 2 ^ 127"

definition next_rest :: "nat \<Rightarrow> nat" where
  "next_rest m = m * m div 2 ^ (63 + next_bit m)"

lemma square_bounds:
  assumes "2 ^ 63 \<le> m" "m < (2 :: nat) ^ 64"
  shows "2 ^ 126 \<le> m * m" "m * m < 2 ^ 128"
proof -
  have "(2 :: nat) ^ 63 * 2 ^ 63 \<le> m * m" using assms(1) by (intro mult_mono) simp_all
  then show "2 ^ 126 \<le> m * m" by simp
  have "m * m < 2 ^ 64 * 2 ^ 64" using assms(2) by (intro mult_strict_mono) simp_all
  then show "m * m < 2 ^ 128" by simp
qed

lemma next_bit_cases:
  assumes "2 ^ 63 \<le> m" "m < 2 ^ 64"
  obtains "next_bit m = 0" "next_rest m = m * m div 2 ^ 63" "m * m < 2 ^ 127"
  | "next_bit m = 1" "next_rest m = m * m div 2 ^ 64" "2 ^ 127 \<le> m * m"
proof (cases "m * m < 2 ^ 127")
  case True
  then have "next_bit m = 0" by (simp add: next_bit_def)
  then show ?thesis using True that(1) by (simp add: next_rest_def)
next
  case False
  moreover have "m * m div 2 ^ 127 < 2" using square_bounds(2) [OF assms] by (simp add: less_mult_imp_div_less)
  moreover have "1 \<le> m * m div 2 ^ 127" using False by (simp add: less_eq_div_iff_mult_less_eq)
  ultimately have "next_bit m = 1" by (simp add: next_bit_def)
  then show ?thesis using False that(2) by (simp add: next_rest_def)
qed

lemma next_rest_range:
  assumes "2 ^ 63 \<le> m" "m < 2 ^ 64"
  shows "2 ^ 63 \<le> next_rest m" "next_rest m < 2 ^ 64"
proof -
  note sb = square_bounds [OF assms]
  show "2 ^ 63 \<le> next_rest m"
    by (rule next_bit_cases [OF assms]) (use sb in \<open>simp_all add: less_eq_div_iff_mult_less_eq\<close>)
  show "next_rest m < 2 ^ 64"
    by (rule next_bit_cases [OF assms]) (use sb in \<open>simp_all add: less_mult_imp_div_less\<close>)
qed

lemma next_rest_log:
  assumes "2 ^ 63 \<le> m" "m < 2 ^ 64"
  shows "real (next_bit m) + mlog 63 (next_rest m) \<le> 2 * mlog 63 m"
    and "2 * mlog 63 m \<le> real (next_bit m) + mlog 63 (next_rest m) + 2 / 2 ^ 63"
proof -
  define r where "r = next_rest m"
  have r: "2 ^ 63 \<le> r" "0 < r" "0 < m" using next_rest_range [OF assms] assms by (simp_all add: r_def)
  have div: "q * d \<le> x" "x \<le> (q + 1) * d" if "q = x div d" "0 < d" for q x d :: nat
    using that by (simp_all add: dividend_less_div_times less_imp_le)
  have "real (next_bit m) + mlog 63 r \<le> 2 * mlog 63 m \<and> 2 * mlog 63 m \<le> real (next_bit m) + mlog 63 (r + 1)"
  proof (rule next_bit_cases [OF assms])
    assume b: "next_bit m = 0" "next_rest m = m * m div 2 ^ 63"
    show ?thesis
      using mlog_square_le [of r 63 m] mlog_square_ge [of m "r + 1" 63] div [OF b(2)] r b(1) by (simp add: r_def)
  next
    assume b: "next_bit m = 1" "next_rest m = m * m div 2 ^ 64"
    have "2 * r * 2 ^ 63 \<le> m * m" "m * m \<le> 2 * (r + 1) * 2 ^ 63" using div [OF b(2)] by (simp_all add: r_def)
    then show ?thesis
      using mlog_square_le [of "2 * r" 63 m] mlog_square_ge [of m "2 * (r + 1)" 63]
        mlog_double [of r 63] mlog_double [of "r + 1" 63] r b(1) by linarith
  qed
  then show "real (next_bit m) + mlog 63 (next_rest m) \<le> 2 * mlog 63 m"
    "2 * mlog 63 m \<le> real (next_bit m) + mlog 63 (next_rest m) + 2 / 2 ^ 63"
    using mlog_Suc [OF r(1)] unfolding r_def [symmetric] by linarith+
qed

fun log_digits :: "nat \<Rightarrow> nat \<Rightarrow> nat" where
  "log_digits 0 m = 0"
| "log_digits (Suc j) m = 2 ^ j * next_bit m + log_digits j (next_rest m)"

lemma log_digits:
  assumes "2 ^ 63 \<le> m" "m < 2 ^ 64"
  shows "real (log_digits j m) \<le> 2 ^ j * mlog 63 m \<and> 2 ^ j * mlog 63 m < real (log_digits j m) + 1 + 2 ^ (j + 1) / 2 ^ 63
    \<and> log_digits j m < 2 ^ j"
  using assms
proof (induction j arbitrary: m)
  case 0
  have "mlog 63 m < 1"
    using log_less_cancel_iff [of 2 "real m / 2 ^ 63" 2] 0 by simp
  then show ?case using mlog_ge_0 [OF 0(1)] by simp
next
  case (Suc j)
  define l b where "l = mlog 63 (next_rest m)" and "b = real (next_bit m)"
  note IH = Suc.IH [OF next_rest_range [OF Suc.prems], folded l_def]
  have "2 ^ j * (b + l) \<le> 2 ^ j * (2 * mlog 63 m)" "2 ^ j * (2 * mlog 63 m) \<le> 2 ^ j * (b + l + 2 / 2 ^ 63)"
    unfolding l_def b_def using next_rest_log [OF Suc.prems] by (intro mult_left_mono; simp)+
  moreover have "next_bit m \<le> 1" by (rule next_bit_cases [OF Suc.prems]) simp_all
  then have "2 ^ j * next_bit m \<le> 2 ^ j" by simp
  then have "log_digits (Suc j) m < 2 ^ Suc j" using IH unfolding log_digits.simps power_Suc by linarith
  ultimately show ?case using IH by (simp add: b_def algebra_simps)
qed

lemma unat_next:
  fixes r :: u128
  assumes "2 ^ 63 \<le> unat r" "unat r < 2 ^ 64"
  shows "drop_bit 127 (r * r) = of_nat (next_bit (unat r))"
    and "unat (drop_bit (unat (63 + drop_bit 127 (r * r)) mod 128) (r * r)) = next_rest (unat r)"
proof -
  have sq: "unat (r * r) = unat r * unat r" using square_bounds(2) [OF assms] by (subst unat_mult_lem [symmetric]) simp
  have b: "unat (drop_bit 127 (r * r)) = next_bit (unat r)"
    unfolding unat_drop_bit_eq sq by (simp add: drop_bit_eq_div next_bit_def)
  then show 1: "drop_bit 127 (r * r) = of_nat (next_bit (unat r))" unfolding b [symmetric] by simp
  have "next_bit (unat r) \<le> 1" by (rule next_bit_cases [OF assms]) simp_all
  then have "unat (63 + drop_bit 127 (r * r)) mod 128 = 63 + next_bit (unat r)"
    unfolding 1 by (auto simp: le_Suc_eq)
  then show "unat (drop_bit (unat (63 + drop_bit 127 (r * r)) mod 128) (r * r)) = next_rest (unat r)"
    unfolding unat_drop_bit_eq sq by (simp add: drop_bit_eq_div next_rest_def)
qed

lemma log2_loop_digits:
  assumes "2 ^ 63 \<le> unat r" "unat r < 2 ^ 64" "j \<le> 14" "0 \<le> acc" "acc \<le> 2 ^ 64 - 2 ^ (50 + j)"
  shows "log2_loop (14 - j) (2 ^ (49 + j)) r acc = acc + 2 ^ 50 * int (log_digits j (unat r))"
  using assms
proof (induction j arbitrary: r acc)
  case 0
  then show ?case by (subst log2_loop.simps) (simp add: BIT_PRECISION_def)
next
  case (Suc j)
  define b where "b = next_bit (unat r)"
  define r' where "r' = drop_bit (unat (63 + drop_bit 127 (r * r)) mod 128) (r * r)"
  have r': "unat r' = next_rest (unat r)" unfolding r'_def by (rule unat_next [OF Suc.prems(1,2)])
  have b1: "b = 0 \<or> b = 1" unfolding b_def by (rule next_bit_cases [OF Suc.prems(1,2)]) simp_all
  then have ub: "uint (drop_bit 127 (r * r)) = int b"
    unfolding unat_next(1) [OF Suc.prems(1,2)] b_def [symmetric] by auto
  have j: "14 - Suc j < 14" "14 - Suc j + 1 = 14 - j" using Suc.prems(3) by simp_all
  define X where "X = (2 :: int) ^ (50 + j)"
  have X: "0 < X" "acc \<le> 2 ^ 64 - 2 * X"
    using Suc.prems(5) unfolding X_def add_Suc_right power_Suc by simp_all
  have X3: "2 ^ (49 + Suc j) = X" by (simp add: X_def)
  have h: "drop_bit 1 X = 2 ^ (49 + j)" unfolding X3 [symmetric] add_Suc_right power_Suc by (simp add: drop_bit_eq_div)
  have w: "wrap_i128 (acc + wrap_i128 (X * int b)) = acc + X * int b"
    using b1
  proof
    assume "b = 0"
    then show ?thesis using Suc.prems(4) X by simp
  next
    assume "b = 1"
    moreover have "wrap_i128 X = X" "wrap_i128 (acc + X) = acc + X" using Suc.prems(4) X by (intro wrap_i128_id; simp)+
    ultimately show ?thesis by simp
  qed
  have "log2_loop (14 - Suc j) X r acc = log2_loop (14 - j) (2 ^ (49 + j)) r' (acc + X * int b)"
    using X(1) by (subst log2_loop.simps) (simp only: Let_def BIT_PRECISION_def j h ub w r'_def [symmetric], simp)
  also have "\<dots> = acc + X * int b + 2 ^ 50 * int (log_digits j (unat r'))"
    using Suc.prems b1 X next_rest_range [OF Suc.prems(1,2)] by (intro Suc.IH, unfold X_def [symmetric]) (auto simp: r')
  finally show ?case unfolding X3 by (simp add: b_def r' X_def power_add algebra_simps)
qed

text \<open>The number whose logarithm the loop takes: the price with its leading bit at position 63.\<close>

lemma mlog_eq:
  assumes "0 < m"
  shows "mlog s m = log 2 (real m) - real s" "log 2 (real (m * 2 ^ k)) = log 2 (real m) + real k"
proof -
  have p: "log 2 (2 ^ n :: real) = real n" for n by (simp add: log_nat_power)
  show "mlog s m = log 2 (real m) - real s" using assms by (subst log_divide_pos) (simp_all add: p)
  show "log 2 (real (m * 2 ^ k)) = log 2 (real m) + real k"
    using assms log_mult_pos [of "real m" "2 ^ k" 2] by (simp add: p)
qed

definition price_msb :: "u128 \<Rightarrow> nat" where
  "price_msb p = 127 - leading_zeros p"

definition price_mantissa :: "u128 \<Rightarrow> nat" where
  "price_mantissa p = (if price_msb p \<ge> 63 then unat p div 2 ^ (price_msb p - 63)
     else unat p * 2 ^ (63 - price_msb p))"

lemma price_msb:
  assumes "p \<noteq> 0"
  shows "price_msb p < 128" "2 ^ price_msb p \<le> unat p" "unat p < 2 ^ (price_msb p + 1)" "price_msb p = 127 - leading_zeros p"
    "leading_zeros p \<le> 127"
proof -
  have "leading_zeros p < 128" using leading_zeros_bounds(1) [OF assms] by simp
  then have "128 - leading_zeros p = 127 - leading_zeros p + 1" "leading_zeros p \<le> 127" by simp_all
  then show "price_msb p < 128" "2 ^ price_msb p \<le> unat p" "unat p < 2 ^ (price_msb p + 1)"
    "price_msb p = 127 - leading_zeros p" "leading_zeros p \<le> 127"
    using leading_zeros_bounds(2,3) [OF assms] by (simp_all add: price_msb_def)
qed

lemma price_mantissa:
  assumes "p \<noteq> 0"
  shows "2 ^ 63 \<le> price_mantissa p" "price_mantissa p < 2 ^ 64"
    "real (price_msb p) - 64 + mlog 63 (price_mantissa p) \<le> mlog 64 (unat p)"
    "mlog 64 (unat p) \<le> real (price_msb p) - 64 + mlog 63 (price_mantissa p) + 2 / 2 ^ 63"
proof -
  define n m where "n = price_msb p" and "m = price_mantissa p"
  note b = price_msb(2,3) [OF assms, folded n_def]
  have p0: "0 < unat p" using assms by (simp add: unat_gt_0)
  have "2 ^ 63 \<le> m \<and> m < 2 ^ 64 \<and> real n - 64 + mlog 63 m \<le> mlog 64 (unat p)
    \<and> mlog 64 (unat p) \<le> real n - 64 + mlog 63 (m + 1)"
  proof (cases "63 \<le> n")
    case True
    define k where "k = n - 63"
    have n: "n = 63 + k" using True by (simp add: k_def)
    have m: "m = unat p div 2 ^ k" using True by (simp add: m_def n_def price_mantissa_def k_def)
    have "2 ^ 63 \<le> m" using b(1) unfolding m n by (simp add: less_eq_div_iff_mult_less_eq power_add)
    moreover have "m < 2 ^ 64" using b(2) unfolding m n by (simp add: less_mult_imp_div_less power_add)
    moreover have "m * 2 ^ k \<le> unat p" "unat p \<le> (m + 1) * 2 ^ k"
      unfolding m by (simp_all add: dividend_less_div_times less_imp_le)
    moreover have "0 < m" using \<open>2 ^ 63 \<le> m\<close> by simp
    ultimately have "log 2 (real (m * 2 ^ k)) \<le> log 2 (real (unat p))" "log 2 (real (unat p)) \<le> log 2 (real ((m + 1) * 2 ^ k))"
      using p0 by (intro log_mono; simp only: of_nat_le_iff; simp)+
    then show ?thesis
      using \<open>0 < m\<close> \<open>2 ^ 63 \<le> m\<close> \<open>m < 2 ^ 64\<close> p0 n mlog_eq(1) [of m 63] mlog_eq(1) [of "m + 1" 63] mlog_eq(1) [OF p0, of 64]
        mlog_eq(2) [of m k] mlog_eq(2) [of "m + 1" k] by simp
  next
    case False
    define k where "k = 63 - n"
    have n: "63 = n + k" using False by (simp add: k_def)
    have m: "m = unat p * 2 ^ k" using False by (simp add: m_def n_def price_mantissa_def k_def)
    have "2 ^ n * 2 ^ k \<le> m" "m < 2 ^ (n + 1) * 2 ^ k" using b unfolding m by simp_all
    then have "2 ^ 63 \<le> m" "m < 2 ^ 64" unfolding power_add [symmetric] n [symmetric] by (simp_all add: n [symmetric])
    moreover have "0 < m" using \<open>2 ^ 63 \<le> m\<close> by simp
    ultimately show ?thesis
      using n p0 mlog_eq(1) [of m 63] mlog_mono [of m "m + 1" 63] mlog_eq(1) [OF p0, of 64] mlog_eq(2) [OF p0, of k]
      unfolding m [symmetric] by simp
  qed
  then show "2 ^ 63 \<le> price_mantissa p" "price_mantissa p < 2 ^ 64"
    "real (price_msb p) - 64 + mlog 63 (price_mantissa p) \<le> mlog 64 (unat p)"
    "mlog 64 (unat p) \<le> real (price_msb p) - 64 + mlog 63 (price_mantissa p) + 2 / 2 ^ 63"
    unfolding n_def [symmetric] m_def [symmetric] using mlog_Suc [of 63 m] by linarith+
qed

lemma log2p_x32_eq:
  assumes "p \<noteq> 0"
  shows "log2p_x32 p = (int (price_msb p) - 64) * 2 ^ 32 + 2 ^ 18 * int (log_digits 14 (price_mantissa p))"
proof -
  define n m where "n = price_msb p" and "m = price_mantissa p"
  note b = price_msb [OF assms, folded n_def]
  note mb = price_mantissa(1,2) [OF assms, folded m_def]
  define msb :: "32 word" where "msb = 128 - of_nat (leading_zeros p) - 1"
  have "of_nat (leading_zeros p) = (127 :: 32 word) - of_nat n"
    using b(4,5) by (simp add: of_nat_diff)
  then have msb: "msb = of_nat n" by (simp add: msb_def)
  have u: "unat msb = n" unfolding msb using b(1) by (simp add: unat_of_nat)
  define r where "r = (if msb \<ge> 64 then drop_bit (unat (msb - 63) mod 128) p
    else push_bit (unat (63 - msb) mod 128) p)"
  have r: "unat r = m"
  proof (cases "63 < n")
    case True
    then have "msb \<ge> 64" using u by (simp add: word_le_nat_alt)
    moreover have "unat (msb - 63) = n - 63" using True u by (subst unat_sub) (simp_all add: word_le_nat_alt)
    ultimately show ?thesis using True b(1) unfolding r_def m_def price_mantissa_def n_def [symmetric]
      by (simp add: unat_drop_bit_eq drop_bit_nat_def)
  next
    case False
    then have "\<not> msb \<ge> 64" using u by (simp add: word_le_nat_alt)
    moreover have k: "unat (63 - msb) = 63 - n" using False u by (subst unat_sub) (simp_all add: word_le_nat_alt)
    moreover have m: "m = unat p * 2 ^ (63 - n)"
      using False unfolding m_def price_mantissa_def n_def [symmetric] by (cases "n = 63") auto
    moreover have "unat (push_bit (63 - n) p) = unat p * 2 ^ (63 - n)"
      using mb(2) unfolding m by (simp add: unsigned_push_bit_eq push_bit_nat_def take_bit_nat_eq_self)
    ultimately show ?thesis unfolding r_def by simp
  qed
  have loop: "log2_loop 0 0x8000000000000000 r 0 = 2 ^ 50 * int (log_digits 14 m)"
    using log2_loop_digits [of r 14 0] mb by (simp add: r)
  define D where "D = log_digits 14 m"
  have D: "D < 2 ^ 14" unfolding D_def using log_digits [OF mb] by blast
  have "drop_bit 32 (2 ^ 50 * int D) = 2 ^ 18 * int D" by (simp add: drop_bit_eq_div)
  moreover have "uint msb = int n" by (simp add: u [symmetric])
  ultimately have "log2p_x32 p = wrap_i128 (wrap_i128 ((int n - 64) * 2 ^ 32) + 2 ^ 18 * int D)"
    unfolding log2p_x32_def Let_def msb_def [symmetric] r_def [symmetric] loop D_def [symmetric]
    by (simp add: push_bit_eq_mult)
  moreover have "wrap_i128 ((int n - 64) * 2 ^ 32) = (int n - 64) * 2 ^ 32"
    using b(1) by (intro wrap_i128_id) simp_all
  moreover have "wrap_i128 ((int n - 64) * 2 ^ 32 + 2 ^ 18 * int D) = (int n - 64) * 2 ^ 32 + 2 ^ 18 * int D"
    using b(1) D by (intro wrap_i128_id) simp_all
  ultimately show ?thesis by (simp add: n_def D_def m_def)
qed

lemma log2p_x32_bounds:
  assumes "p \<noteq> 0"
  shows "real_of_int (log2p_x32 p) / 2 ^ 32 \<le> mlog 64 (unat p)"
    and "mlog 64 (unat p) < real_of_int (log2p_x32 p) / 2 ^ 32 + 1 / 2 ^ 14 + 1 / 2 ^ 40"
    and "\<bar>log2p_x32 p\<bar> \<le> 2 ^ 38"
proof -
  note m = price_mantissa [OF assms]
  define D where "D = log_digits 14 (price_mantissa p)"
  note d = log_digits [OF m(1,2), of 14, folded D_def]
  have L: "log2p_x32 p = (int (price_msb p) - 64) * 2 ^ 32 + 2 ^ 18 * int D"
    unfolding D_def by (rule log2p_x32_eq [OF assms])
  show "real_of_int (log2p_x32 p) / 2 ^ 32 \<le> mlog 64 (unat p)"
    and "mlog 64 (unat p) < real_of_int (log2p_x32 p) / 2 ^ 32 + 1 / 2 ^ 14 + 1 / 2 ^ 40"
    using m(3,4) d unfolding L by (simp_all add: field_simps)
  show "\<bar>log2p_x32 p\<bar> \<le> 2 ^ 38"
    using d price_msb(1) [OF assms] unfolding L by (intro abs_leI) simp_all
qed

section \<open>The two candidates\<close>

definition price_estimate :: "u128 \<Rightarrow> int" where
  "price_estimate p = log2p_x32 p * LOG_B_2_X32"

definition candidate_low :: "u128 \<Rightarrow> int" where
  "candidate_low p = (price_estimate p - LOG_B_P_ERR_MARGIN_LOWER_X64) div 2 ^ 64"

definition candidate_high :: "u128 \<Rightarrow> int" where
  "candidate_high p = (price_estimate p + LOG_B_P_ERR_MARGIN_UPPER_X64) div 2 ^ 64"

lemmas margin_defs = LOG_B_P_ERR_MARGIN_LOWER_X64_def LOG_B_P_ERR_MARGIN_UPPER_X64_def

lemma candidates_real:
  shows "real_of_int (candidate_low p) \<le> real_of_int (price_estimate p) / 2 ^ 64 - 1 / 100 + 1 / 10 ^ 15"
    "real_of_int (price_estimate p) / 2 ^ 64 + 856169 / 10 ^ 6 - 1 / 10 ^ 15 < real_of_int (candidate_high p) + 1"
    "real_of_int (candidate_high p) \<le> real_of_int (price_estimate p) / 2 ^ 64 + 857 / 1000"
    "candidate_low p \<le> candidate_high p" "candidate_high p \<le> candidate_low p + 1"
proof -
  have fl: "real_of_int (x div 2 ^ 64) \<le> real_of_int x / 2 ^ 64" "real_of_int x / 2 ^ 64 < real_of_int (x div 2 ^ 64) + 1"
    for x :: int
  proof -
    have "\<lfloor>real_of_int x / 2 ^ 64\<rfloor> = x div 2 ^ 64"
      using floor_divide_of_int_eq [where 'a = real, of x "2 ^ 64"] by simp
    then show "real_of_int (x div 2 ^ 64) \<le> real_of_int x / 2 ^ 64" "real_of_int x / 2 ^ 64 < real_of_int (x div 2 ^ 64) + 1"
      by linarith+
  qed
  show "real_of_int (candidate_low p) \<le> real_of_int (price_estimate p) / 2 ^ 64 - 1 / 100 + 1 / 10 ^ 15"
    using fl(1) [of "price_estimate p - LOG_B_P_ERR_MARGIN_LOWER_X64"]
    by (simp add: candidate_low_def margin_defs field_simps)
  show "real_of_int (price_estimate p) / 2 ^ 64 + 856169 / 10 ^ 6 - 1 / 10 ^ 15 < real_of_int (candidate_high p) + 1"
    using fl(2) [of "price_estimate p + LOG_B_P_ERR_MARGIN_UPPER_X64"]
    by (simp add: candidate_high_def margin_defs field_simps)
  show "real_of_int (candidate_high p) \<le> real_of_int (price_estimate p) / 2 ^ 64 + 857 / 1000"
    using fl(1) [of "price_estimate p + LOG_B_P_ERR_MARGIN_UPPER_X64"]
    by (simp add: candidate_high_def margin_defs field_simps)
  show "candidate_low p \<le> candidate_high p" "candidate_high p \<le> candidate_low p + 1"
  proof -
    define a where "a = price_estimate p - LOG_B_P_ERR_MARGIN_LOWER_X64"
    have h: "price_estimate p + LOG_B_P_ERR_MARGIN_UPPER_X64 = a + 15978002203227354261"
      by (simp add: a_def margin_defs)
    have "a div 2 ^ 64 \<le> (a + 15978002203227354261) div 2 ^ 64" by (rule zdiv_mono1) simp_all
    then show "candidate_low p \<le> candidate_high p"
      unfolding candidate_low_def candidate_high_def h a_def [symmetric] .
    have "(a + 15978002203227354261) div 2 ^ 64 \<le> (a + 2 ^ 64) div 2 ^ 64" by (rule zdiv_mono1) simp_all
    also have "\<dots> = a div 2 ^ 64 + 1" by (rule div_add_self2) simp
    finally show "candidate_high p \<le> candidate_low p + 1"
      unfolding candidate_low_def candidate_high_def h a_def [symmetric] .
  qed
qed

lemma price_estimate_near:
  assumes "p \<noteq> 0"
  shows "log_base * (real_of_int (price_estimate p) / 2 ^ 64) \<le> mlog 64 (unat p) + 1 / 10 ^ 7"
    "mlog 64 (unat p) - 1 / 2 ^ 14 - 1 / 10 ^ 7 \<le> log_base * (real_of_int (price_estimate p) / 2 ^ 64)"
proof -
  define l where "l = real_of_int (log2p_x32 p) / 2 ^ 32"
  define k where "k = 59543866431248 / 2 ^ 32 * log_base"
  note b = log2p_x32_bounds [OF assms, folded l_def]
  have "real_of_int \<bar>log2p_x32 p\<bar> \<le> real_of_int (2 ^ 38)" using b(3) unfolding of_int_le_iff .
  then have l: "\<bar>l\<bar> \<le> 64" by (simp add: l_def)
  have "\<bar>k - 1\<bar> \<le> 1 / 10 ^ 9" using log_base_bounds unfolding k_def [symmetric] by (intro abs_leI) linarith+
  then have "\<bar>k - 1\<bar> * \<bar>l\<bar> \<le> 1 / 10 ^ 9 * 64" using l by (intro mult_mono) simp_all
  then have "\<bar>k * l - l\<bar> \<le> 64 / 10 ^ 9" by (simp add: abs_mult [symmetric] left_diff_distrib)
  then have "k * l - l \<le> 64 / 10 ^ 9" "l - k * l \<le> 64 / 10 ^ 9" by linarith+
  moreover have "log_base * (real_of_int (price_estimate p) / 2 ^ 64) = k * l"
    by (simp add: price_estimate_def LOG_B_2_X32_def k_def l_def)
  ultimately show "log_base * (real_of_int (price_estimate p) / 2 ^ 64) \<le> mlog 64 (unat p) + 1 / 10 ^ 7"
    "mlog 64 (unat p) - 1 / 2 ^ 14 - 1 / 10 ^ 7 \<le> log_base * (real_of_int (price_estimate p) / 2 ^ 64)"
    using b(1,2) by simp_all
qed

text \<open>The candidates on the scale of logarithms; \<open>2 / 10 ^ 8\<close> is the error of the price of a tick.\<close>

lemma candidates_log:
  assumes "p \<noteq> 0"
  shows "log_base * real_of_int (candidate_low p) + 3 / 100000000 \<le> mlog 64 (unat p)"
    "mlog 64 (unat p) + 3 / 100000000 \<le> log_base * (real_of_int (candidate_high p) + 1)"
    "log_base * real_of_int (candidate_high p) \<le> mlog 64 (unat p) + log_base * (9 / 10)"
proof -
  define x where "x = real_of_int (price_estimate p) / 2 ^ 64"
  have B: "721311 / 10000000000 \<le> log_base" "log_base \<le> 721312 / 10000000000" using log_base_bounds by simp_all
  note c = candidates_real [of p, folded x_def] and e = price_estimate_near [OF assms, folded x_def]
  have "log_base * real_of_int (candidate_low p) \<le> log_base * (x - 1 / 100 + 1 / 10 ^ 15)"
    using c(1) B by (intro mult_left_mono) simp_all
  then show "log_base * real_of_int (candidate_low p) + 3 / 100000000 \<le> mlog 64 (unat p)"
    using e(1) B by (simp add: algebra_simps)
  have "log_base * (x + 856169 / 10 ^ 6 - 1 / 10 ^ 15) \<le> log_base * (real_of_int (candidate_high p) + 1)"
    using c(2) B by (intro mult_left_mono) simp_all
  then show "mlog 64 (unat p) + 3 / 100000000 \<le> log_base * (real_of_int (candidate_high p) + 1)"
    using e(2) B by (simp add: algebra_simps)
  have "log_base * real_of_int (candidate_high p) \<le> log_base * (x + 857 / 1000)"
    using c(3) B by (intro mult_left_mono) simp_all
  then show "log_base * real_of_int (candidate_high p) \<le> mlog 64 (unat p) + log_base * (9 / 10)"
    using e(1) B by (simp add: algebra_simps)
qed

lemma candidate_prices:
  assumes "p \<noteq> 0"
  shows "\<bar>candidate_low p\<bar> \<le> 443636 \<Longrightarrow> tick_price (candidate_low p) \<le> unat p"
    "\<bar>candidate_high p + 1\<bar> \<le> 443636 \<Longrightarrow> unat p < tick_price (candidate_high p + 1)"
proof -
  have p0: "0 < unat p" using assms by (simp add: unat_gt_0)
  have less: "a < b" if "mlog 64 a < mlog 64 b" "0 < a" "0 < b" for a b
    using that by (simp add: divide_less_cancel)
  note c = candidates_log [OF assms]
  show "tick_price (candidate_low p) \<le> unat p" if t: "\<bar>candidate_low p\<bar> \<le> 443636"
  proof -
    have "mlog 64 (tick_price (candidate_low p)) < mlog 64 (unat p)"
      using tick_price_log [OF t] c(1) by linarith
    from less [OF this _ p0] show ?thesis using tick_price_bounds(1) [OF t] by simp
  qed
  show "unat p < tick_price (candidate_high p + 1)" if t: "\<bar>candidate_high p + 1\<bar> \<le> 443636"
  proof -
    have "mlog 64 (unat p) < mlog 64 (tick_price (candidate_high p + 1))"
      using tick_price_log [OF t] c(2) unfolding of_int_add of_int_1 by linarith
    from less [OF this p0] show ?thesis using tick_price_bounds(1) [OF t] by simp
  qed
qed

lemma candidate_range:
  assumes "MIN_SQRT_PRICE_X64 \<le> p" "p \<le> MAX_SQRT_PRICE_X64"
  shows "-443636 \<le> candidate_high p" "candidate_high p \<le> 443636"
proof -
  have B: "721311 / 10000000000 \<le> log_base" "log_base \<le> 721312 / 10000000000" using log_base_bounds by simp_all
  have p: "tick_price (-443636) \<le> unat p" "unat p \<le> tick_price 443636" "p \<noteq> 0" "0 < unat p"
    using assms tick_price_bounds ratios_at_bounds
    by (auto simp: tick_price_def MIN_SQRT_PRICE_X64_def MAX_SQRT_PRICE_X64_def word_le_nat_alt)
  have "0 < tick_price (-443636)" using tick_price_bounds(1) [of "-443636"] by simp
  from mlog_mono [OF this p(1), of 64] mlog_mono [OF p(4,2), of 64]
  have l: "mlog 64 (tick_price (-443636)) \<le> mlog 64 (unat p)" "mlog 64 (unat p) \<le> mlog 64 (tick_price 443636)" .
  have ends: "- (log_base * 443636) - 2 / 100000000 \<le> mlog 64 (tick_price (-443636))"
    "mlog 64 (tick_price 443636) \<le> log_base * 443636 + 2 / 100000000"
    using tick_price_log [of "-443636"] tick_price_log [of 443636] by (simp_all only: abs_le_iff) simp_all
  note c = candidates_log [OF p(3)]
  have "- (log_base * 443636) < log_base * (real_of_int (candidate_high p) + 1)"
    using c(2) l(1) ends(1) by linarith
  then have "log_base * (- 443636) < log_base * (real_of_int (candidate_high p) + 1)" by simp
  then have "real_of_int (-443636) < real_of_int (candidate_high p + 1)"
    using mult_less_cancel_left_pos [of log_base "- 443636" "real_of_int (candidate_high p) + 1"] B by simp
  then show "-443636 \<le> candidate_high p" unfolding of_int_less_iff by simp
  have "log_base * real_of_int (candidate_high p) < log_base * 443637"
    using c(3) l(2) ends(2) B by linarith
  then have "real_of_int (candidate_high p) < real_of_int 443637"
    using mult_less_cancel_left_pos [of log_base "real_of_int (candidate_high p)" 443637] B by simp
  then show "candidate_high p \<le> 443636" unfolding of_int_less_iff by simp
qed

section \<open>The tick of a price\<close>

lemma tick_index_candidates:
  assumes "MIN_SQRT_PRICE_X64 \<le> p" "p \<le> MAX_SQRT_PRICE_X64"
  shows "tick_index_from_sqrt_price p =
    (let l = candidate_low p; h = candidate_high p in
     if l = h then Ok l else if tick_price h \<le> unat p then Ok h else Ok l)"
proof -
  define x where "x = price_estimate p"
  have p: "p \<noteq> 0" using assms(1) by (auto simp: MIN_SQRT_PRICE_X64_def)
  have "\<bar>log2p_x32 p\<bar> \<le> 2 ^ 38" by (rule log2p_x32_bounds(3) [OF p])
  then have x: "\<bar>x\<bar> \<le> 2 ^ 38 * 59543866431248" by (simp add: x_def price_estimate_def LOG_B_2_X32_def abs_mult)
  have w: "wrap_i128 (log2p_x32 p * LOG_B_2_X32) = x"
    "wrap_i128 (x - LOG_B_P_ERR_MARGIN_LOWER_X64) = x - LOG_B_P_ERR_MARGIN_LOWER_X64"
    "wrap_i128 (x + LOG_B_P_ERR_MARGIN_UPPER_X64) = x + LOG_B_P_ERR_MARGIN_UPPER_X64"
    using x unfolding x_def [unfolded price_estimate_def, symmetric] margin_defs
    by (intro wrap_i128_id; simp add: abs_le_iff)+
  have d: "drop_bit 64 (x - LOG_B_P_ERR_MARGIN_LOWER_X64) = candidate_low p"
    "drop_bit 64 (x + LOG_B_P_ERR_MARGIN_UPPER_X64) = candidate_high p"
    by (simp_all add: x_def candidate_low_def candidate_high_def drop_bit_eq_div)
  have r: "-443636 \<le> candidate_high p" "candidate_high p \<le> 443636" "candidate_low p \<le> candidate_high p"
    "candidate_high p \<le> candidate_low p + 1"
    using candidate_range [OF assms] candidates_real(4,5) [of p] by simp_all
  then have h: "\<bar>candidate_high p\<bar> \<le> 443636" by simp
  have i: "try_into_i32 (candidate_low p) = Ok (candidate_low p)" "try_into_i32 (candidate_high p) = Ok (candidate_high p)"
    using r by (simp_all add: try_into_i32_def in_signed_def)
  show ?thesis
    unfolding tick_index_from_sqrt_price_def Let_def w d i
    using tick_price_correct [OF h] by (simp add: word_le_nat_alt unat_of_nat)
qed

lemma tick_index_bracket:
  assumes "MIN_SQRT_PRICE_X64 \<le> p" "p \<le> MAX_SQRT_PRICE_X64"
  obtains t where "tick_index_from_sqrt_price p = Ok t" "-443636 \<le> t" "t \<le> 443636" "tick_price t \<le> unat p"
    "t < 443636 \<Longrightarrow> unat p < tick_price (t + 1)"
proof -
  define l h where "l = candidate_low p" and "h = candidate_high p"
  have p: "p \<noteq> 0" "tick_price (-443636) \<le> unat p"
    using assms(1) ratios_at_bounds by (auto simp: MIN_SQRT_PRICE_X64_def word_le_nat_alt tick_price_def)
  have r: "-443636 \<le> h" "h \<le> 443636" "l \<le> h" "h \<le> l + 1"
    using candidate_range [OF assms] candidates_real(4,5) [of p] by (simp_all add: l_def h_def)
  note c = candidate_prices [OF p(1), folded l_def h_def]
  note ix = tick_index_candidates [OF assms, folded l_def h_def, unfolded Let_def]
  show thesis
  proof (cases "tick_price h \<le> unat p")
    case True
    then show thesis using ix r c(2) by (intro that [of h]) auto
  next
    case False
    then have "h \<noteq> -443636" using p(2) by auto
    have "l \<noteq> h" using c(1) r False by (auto simp: abs_le_iff)
    then have "h = l + 1" using r by simp
    then have "-443636 \<le> l" "tick_price l \<le> unat p" "unat p < tick_price (l + 1)"
      using r c(1) False \<open>h \<noteq> -443636\<close> by auto
    then show thesis using ix r False \<open>l \<noteq> h\<close> by (intro that [of l]) simp_all
  qed
qed

text \<open>C17: For every supported price, \<^verbatim>\<open>tick_index_from_sqrt_price\<close> returns the largest supported
  tick whose price is at most the given price: it never panics, its tick is in range, the price of
  that tick is at most the given one and the price of the next tick is above it.\<close>

theorem tick_index_is_floor:
  assumes "MIN_SQRT_PRICE_X64 \<le> p" "p \<le> MAX_SQRT_PRICE_X64"
  shows "\<exists>t q. tick_index_from_sqrt_price p = Ok t \<and> -443636 \<le> t \<and> t \<le> 443636 \<and>
    sqrt_price_from_tick_index t = Ok q \<and> q \<le> p \<and>
    (t < 443636 \<longrightarrow> (\<exists>q'. sqrt_price_from_tick_index (t + 1) = Ok q' \<and> p < q'))"
proof (rule tick_index_bracket [OF assms])
  fix t
  assume t: "tick_index_from_sqrt_price p = Ok t" "-443636 \<le> t" "t \<le> 443636" "tick_price t \<le> unat p"
    "t < 443636 \<Longrightarrow> unat p < tick_price (t + 1)"
  have "\<exists>q. sqrt_price_from_tick_index t = Ok q \<and> q \<le> p"
    using tick_price_correct [of t] t(2,3,4) by (simp add: word_le_nat_alt unat_of_nat)
  moreover have "\<exists>q'. sqrt_price_from_tick_index (t + 1) = Ok q' \<and> p < q'" if "t < 443636"
    using tick_price_correct [of "t + 1"] t(2) t(5) [OF that] that by (simp add: word_less_nat_alt unat_of_nat)
  ultimately show ?thesis using t(1,2,3) by blast
qed

lemma tick_index_is_floor_witness:
  "\<exists>t q. tick_index_from_sqrt_price (2 ^ 64 + 12345) = Ok t \<and> sqrt_price_from_tick_index t = Ok q \<and> q \<le> 2 ^ 64 + 12345"
  using tick_index_is_floor [of "2 ^ 64 + 12345"]
  by (auto simp: MIN_SQRT_PRICE_X64_def MAX_SQRT_PRICE_X64_def)

text \<open>The tick of the price of a supported tick is that tick: the two conversions of
  \<^verbatim>\<open>math/tick_math.rs\<close> are inverse on the prices that ticks have.\<close>

lemma tick_price_roundtrip:
  assumes "-443636 \<le> t" "t \<le> 443636"
  shows "and_then (sqrt_price_from_tick_index t) tick_index_from_sqrt_price = Ok t"
proof -
  define p :: u128 where "p = of_nat (tick_price t)"
  have a: "\<bar>t\<bar> \<le> 443636" using assms by simp
  have p: "sqrt_price_from_tick_index t = Ok p" "unat p = tick_price t"
    using tick_price_correct [OF a] by (simp_all add: p_def unat_of_nat)
  have "MIN_SQRT_PRICE_X64 \<le> p" "p \<le> MAX_SQRT_PRICE_X64"
    using tick_price_bounds [OF a] p(2) by (simp_all add: word_le_nat_alt MIN_SQRT_PRICE_X64_def MAX_SQRT_PRICE_X64_def)
  then obtain s where s: "tick_index_from_sqrt_price p = Ok s" "-443636 \<le> s" "s \<le> 443636" "tick_price s \<le> tick_price t"
    "s < 443636 \<Longrightarrow> tick_price t < tick_price (s + 1)"
    using tick_index_bracket [of p] unfolding p(2) by metis
  have "\<not> t < s" using tick_price_strict_mono [of t s] assms s by auto
  moreover have "\<not> s < t"
  proof
    assume "s < t"
    then have "tick_price t < tick_price (s + 1)" using s(5) assms by simp
    moreover have "s + 1 = t \<or> tick_price (s + 1) < tick_price t"
      using tick_price_strict_mono [of "s + 1" t] \<open>s < t\<close> assms s(2) by linarith
    ultimately show False by auto
  qed
  ultimately show ?thesis using p(1) s(1) by simp
qed

lemma tick_price_roundtrip_witness:
  "and_then (sqrt_price_from_tick_index (-29443)) tick_index_from_sqrt_price = Ok (-29443)"
  using tick_price_roundtrip [of "-29443"] by simp

end
