(* ===== verification/Swap_Price.thy ===== *)
theory Swap_Price
  imports Swap_Manager Tick_Index
begin

text \<open>
  The price of a pool during a swap (the loop of \<^verbatim>\<open>manager/swap_manager.rs\<close>): it moves in the
  direction of the swap and never passes the limit, and the current tick always matches the price.
\<close>

section \<open>The tick that belongs to a price\<close>

text \<open>
  The current tick of a pool and its price: the price lies between the prices of the tick and
  the next one. Both ends are possible: when a swap to lower prices crosses a tick, the tick becomes the
  one below while the price is still that of the crossed tick. So the tick is at least one below
  the smallest supported one.
\<close>

definition at_most_price_of :: "u128 \<Rightarrow> i32 \<Rightarrow> bool" where
  "at_most_price_of q t = (case sqrt_price_from_tick_index t of Inr r \<Rightarrow> q \<le> r | Inl _ \<Rightarrow> False)"

definition at_least_price_of :: "u128 \<Rightarrow> i32 \<Rightarrow> bool" where
  "at_least_price_of q t = (case sqrt_price_from_tick_index t of Inr r \<Rightarrow> r \<le> q | Inl _ \<Rightarrow> False)"

definition price_matches_tick :: "u128 \<Rightarrow> i32 \<Rightarrow> bool" where
  "price_matches_tick q t \<longleftrightarrow> MIN_SQRT_PRICE_X64 \<le> q \<and> q \<le> MAX_SQRT_PRICE_X64 \<and>
     MIN_TICK_INDEX - 1 \<le> t \<and> t \<le> MAX_TICK_INDEX \<and>
     (t < MIN_TICK_INDEX \<or> at_least_price_of q t) \<and> (t = MAX_TICK_INDEX \<or> at_most_price_of q (t + 1))"

lemma tick_end_prices: "tick_price (-443636) = 4295048016" "tick_price 443636 = 79226673515401279992447579055"
  using ratios_at_bounds by (simp_all add: tick_price_def)

lemma price_of_tick_iff:
  assumes "\<bar>t\<bar> \<le> 443636"
  shows "at_most_price_of q t \<longleftrightarrow> unat q \<le> tick_price t" "at_least_price_of q t \<longleftrightarrow> tick_price t \<le> unat q"
  using tick_price_correct [OF assms]
  by (simp_all add: at_most_price_of_def at_least_price_of_def word_le_nat_alt unat_of_nat)

lemma price_in_range_iff:
  "MIN_SQRT_PRICE_X64 \<le> q \<longleftrightarrow> tick_price (-443636) \<le> unat q"
  "q \<le> MAX_SQRT_PRICE_X64 \<longleftrightarrow> unat q \<le> tick_price 443636"
  by (simp_all add: tick_end_prices MIN_SQRT_PRICE_X64_def MAX_SQRT_PRICE_X64_def word_le_nat_alt)

lemma price_matches_tick_iff:
  "price_matches_tick q t \<longleftrightarrow> tick_price (-443636) \<le> unat q \<and> unat q \<le> tick_price 443636 \<and>
     -443637 \<le> t \<and> t \<le> 443636 \<and> (-443636 \<le> t \<longrightarrow> tick_price t \<le> unat q) \<and>
     (t < 443636 \<longrightarrow> unat q \<le> tick_price (t + 1))"
proof -
  have "t < -443636 \<or> at_least_price_of q t \<longleftrightarrow> (-443636 \<le> t \<longrightarrow> tick_price t \<le> unat q)" if "t \<le> 443636"
    using price_of_tick_iff(2) [of t q] that by (cases "t < -443636") auto
  moreover have "t = 443636 \<or> at_most_price_of q (t + 1) \<longleftrightarrow> (t < 443636 \<longrightarrow> unat q \<le> tick_price (t + 1))"
    if "-443637 \<le> t" "t \<le> 443636"
    using price_of_tick_iff(1) [of "t + 1" q] that by (cases "t = 443636") auto
  ultimately show ?thesis
    unfolding price_matches_tick_def price_in_range_iff MIN_TICK_INDEX_def MAX_TICK_INDEX_def by auto
qed

lemma tick_price_mono: "-443636 \<le> s \<Longrightarrow> s \<le> t \<Longrightarrow> t \<le> 443636 \<Longrightarrow> tick_price s \<le> tick_price t"
  using tick_price_strict_mono [of s t] by (cases "s = t") auto

text \<open>A tick from the conversion of the price matches it, and so do a crossed tick going up and
  the one below a crossed tick going down.\<close>

lemma price_matches_converted:
  assumes "MIN_SQRT_PRICE_X64 \<le> q" "q \<le> MAX_SQRT_PRICE_X64" "tick_index_from_sqrt_price q = Ok t"
  shows "price_matches_tick q t"
proof (rule tick_index_bracket [OF assms(1,2)])
  fix u assume "tick_index_from_sqrt_price q = Ok u" "-443636 \<le> u" "u \<le> 443636" "tick_price u \<le> unat q"
    "u < 443636 \<Longrightarrow> unat q < tick_price (u + 1)"
  then show ?thesis using assms unfolding price_matches_tick_iff price_in_range_iff by (auto intro: less_imp_le)
qed

lemma price_matches_crossed:
  assumes "-443636 \<le> t" "t \<le> 443636" "unat q = tick_price t"
  shows "price_matches_tick q (t - 1)" "price_matches_tick q t"
  using assms tick_price_mono [of "-443636" t] tick_price_mono [of t 443636] tick_price_mono [of "t - 1" t]
    tick_price_mono [of t "t + 1"]
  unfolding price_matches_tick_iff by auto

section \<open>The next tick\<close>

text \<open>The search of the sequence only returns supported ticks.\<close>

lemma seq_next_loop_supported:
  assumes "seq_valid arrays sp" "seq_next_loop arrays sp atb s k = Ok (k', t)"
    and "if atb then s \<le> 443636 \<and> -443636 \<le> s else -443637 \<le> s \<and> s < 443636"
  shows "\<bar>t\<bar> \<le> 443636" "if atb then t \<le> s else s < t"
proof -
  have v: "\<forall>ta\<in>set arrays. tick_array_valid ta sp" using assms(1) by (simp add: seq_valid_def list_all_iff)
  show 1: "if atb then t \<le> s else s < t"
    using seq_next_loop_down [OF v, of s k k' t] seq_next_loop_up [OF v, of s k k' t] assms(2,3) by (cases atb) auto
  have "if atb then -443636 \<le> t else t \<le> 443636"
    using assms(2)
  proof (induction "length arrays - k" arbitrary: s k)
    case 0
    then show ?case by (subst (asm) seq_next_loop.simps) simp
  next
    case (Suc m)
    let ?ta = "arrays ! k"
    have k: "k < length arrays" using Suc.hyps(2) by simp
    then have va: "tick_array_valid ?ta sp" by (rule seq_validD [OF assms(1)])
    note e = array_end [OF va]
    obtain r where r: "get_next_init_tick_index ?ta s sp atb = Ok r"
      using Suc.prems(1) k by (subst (asm) seq_next_loop.simps) (auto simp: Let_def and_then_Inr_iff)
    have rng: "in_search_range ?ta s sp (\<not> atb)" by (rule get_next_range [OF r])
    have found: "\<bar>u\<bar> \<le> 443636" if "r = Some u" for u
      using get_next_init_tick_index_down [OF va, of s] get_next_init_tick_index_up [OF va, of s] r rng that
        initialized_at_usable [OF va, of u] by (cases atb) auto
    consider "k' = k" "r = Some t" | "if atb then t = -443636 \<or> \<not> is_min_tick_array ?ta \<and> t = start_tick_index ?ta
        else t = 443636 \<or> \<not> is_max_tick_array ?ta sp \<and> t = start_tick_index ?ta + 88 * i32_of_u16 sp - 1"
      | s' where "seq_next_loop arrays sp atb s' (k + 1) = Ok (k', t)"
      using Suc.prems(1) k r e(1) by (subst (asm) seq_next_loop.simps)
        (auto simp: Let_def MIN_TICK_INDEX_def MAX_TICK_INDEX_def split: if_splits option.splits)
    then show ?case
    proof cases
      case 1
      then show ?thesis using found [of t] by auto
    next
      case 2
      then show ?thesis using e(3,4) by (auto split: if_splits)
    next
      case 3
      have "m = length arrays - (k + 1)" using Suc.hyps(2) by arith
      from Suc.hyps(1) [OF this 3] show ?thesis .
    qed
  qed
  then show "\<bar>t\<bar> \<le> 443636" using 1 assms(3) by (auto split: if_splits)
qed

section \<open>One round\<close>

definition beyond :: "bool \<Rightarrow> u128 \<Rightarrow> u128 \<Rightarrow> bool" where
  "beyond a_to_b p q \<longleftrightarrow> (if a_to_b then q \<le> p else p \<le> q)"

lemma beyond_refl [simp]: "beyond atb p p"
  by (simp add: beyond_def)

lemma beyond_trans: "beyond atb p q \<Longrightarrow> beyond atb q r \<Longrightarrow> beyond atb p r"
  by (auto simp: beyond_def split: if_splits)

lemma toward_beyond: "toward atb c n t \<longleftrightarrow> beyond atb c n \<and> beyond atb n t"
  by (auto simp: toward_def beyond_def)

definition on_course :: "pool \<Rightarrow> u128 \<Rightarrow> bool \<Rightarrow> swap_state \<Rightarrow> bool" where
  "on_course p sqrt_price_limit a_to_b st \<longleftrightarrow>
     price_matches_tick (curr_sqrt_price st) (curr_tick_index st) \<and>
     seq_valid (swap_arrays st) (tick_spacing p) \<and> beyond a_to_b (curr_sqrt_price st) sqrt_price_limit"

text \<open>The price at which a round aims lies between the current price and the limit, and the tick
  that the search found is ahead of the current one.\<close>

lemma course_target:
  assumes "on_course p lmt atb st" "lmt \<noteq> curr_sqrt_price st"
    and l: "MIN_SQRT_PRICE_X64 \<le> lmt" "lmt \<le> MAX_SQRT_PRICE_X64"
    and n: "seq_get_next_initialized_tick_index (swap_arrays st) (curr_tick_index st) (tick_spacing p) atb
       (curr_array_index st) = Ok (k, i)"
    and g: "get_next_sqrt_prices i lmt atb = Ok (tick_price', target)"
  shows "\<bar>i\<bar> \<le> 443636" "if atb then i \<le> curr_tick_index st else curr_tick_index st < i"
    "unat tick_price' = tick_price i" "beyond atb (curr_sqrt_price st) target" "beyond atb target lmt"
    "target = lmt \<or> target = tick_price'"
    "if atb then -443636 \<le> curr_tick_index st \<and> curr_tick_index st \<le> 443636
     else -443637 \<le> curr_tick_index st \<and> curr_tick_index st < 443636"
proof -
  let ?q = "curr_sqrt_price st" and ?s = "curr_tick_index st"
  have m: "price_matches_tick ?q ?s" and v: "seq_valid (swap_arrays st) (tick_spacing p)" and b: "beyond atb ?q lmt"
    using assms(1) by (simp_all add: on_course_def)
  note m' = m [unfolded price_matches_tick_iff]
  have strict: "if atb then unat lmt < unat ?q else unat ?q < unat lmt"
    unfolding word_less_nat_alt [symmetric] using b assms(2) by (auto simp: beyond_def)
  show range: "if atb then -443636 \<le> ?s \<and> ?s \<le> 443636 else -443637 \<le> ?s \<and> ?s < 443636"
  proof (cases atb)
    case True
    have "?s \<noteq> -443637" using m' strict l True unfolding price_in_range_iff by auto
    then show ?thesis using m' True by auto
  next
    case False
    have "?s \<noteq> 443636" using m' strict l False unfolding price_in_range_iff by auto
    then show ?thesis using m' False by auto
  qed
  from n have n': "seq_next_loop (swap_arrays st) (tick_spacing p) atb ?s (curr_array_index st) = Ok (k, i)"
    by (simp add: seq_get_next_initialized_tick_index_def)
  have range': "if atb then ?s \<le> 443636 \<and> -443636 \<le> ?s else -443637 \<le> ?s \<and> ?s < 443636"
    using range by auto
  show i: "\<bar>i\<bar> \<le> 443636" and ord: "if atb then i \<le> ?s else ?s < i"
    using seq_next_loop_supported [OF v n' range'] .
  show t: "unat tick_price' = tick_price i"
    and tg: "target = lmt \<or> target = tick_price'"
    using g tick_price_correct [OF i]
    by (auto simp: get_next_sqrt_prices_def unat_of_nat max_def min_def split: if_splits)
  have "beyond atb ?q tick_price'"
    using tick_price_mono [of i ?s] tick_price_mono [of "?s + 1" i] m' range ord i
    unfolding beyond_def word_le_nat_alt t by (auto simp: abs_le_iff)
  then show "beyond atb ?q target" using tg b by auto
  show "beyond atb target lmt"
    using g tick_price_correct [OF i] by (auto simp: get_next_sqrt_prices_def beyond_def)
qed

lemma swap_iteration_course:
  assumes c: "on_course p lmt atb st" and ne: "lmt \<noteq> curr_sqrt_price st"
    and l: "MIN_SQRT_PRICE_X64 \<le> lmt" "lmt \<le> MAX_SQRT_PRICE_X64"
    and it: "swap_iteration p infos lmt inp atb st = Ok st'"
  shows "on_course p lmt atb st'" "beyond atb (curr_sqrt_price st) (curr_sqrt_price st')"
proof -
  let ?q = "curr_sqrt_price st"
  have v': "seq_valid (swap_arrays st') (tick_spacing p)"
    using swap_iteration_arrays(2) [OF it] c by (simp add: on_course_def)
  have "on_course p lmt atb st' \<and> beyond atb ?q (curr_sqrt_price st')"
  proof (rule swap_iteration_OkE [OF it])
    fix k i tp target step st1 pf g
    assume n: "seq_get_next_initialized_tick_index (swap_arrays st) (curr_tick_index st) (tick_spacing p) atb
       (curr_array_index st) = Ok (k, i)"
      and gp: "get_next_sqrt_prices i lmt atb = Ok (tp, target)"
      and cs: "compute_swap (amount_remaining st) (fee_rate p) (curr_liquidity st) (curr_sqrt_price st) target
       inp atb = Ok step"
      and q': "curr_sqrt_price st' = next_price step"
      and br: "if next_price step = tp then
       \<exists>st2. swap_cross p infos atb k i (st1\<lparr>curr_protocol_fee := pf, curr_fee_growth_global_input := g\<rparr>) = Ok st2 \<and>
         (\<exists>offset. seq_get_tick_offset (swap_arrays st2) k i (tick_spacing p) = Ok offset \<and>
           curr_liquidity st' = curr_liquidity st2 \<and> swap_arrays st' = swap_arrays st2 \<and>
           curr_array_index st' = (if atb \<and> offset = 0 \<or> \<not> atb \<and> offset = 87 then k + 1 else k) \<and>
           curr_tick_index st' = (if atb then wrap_i32 (i - 1) else i))
     else curr_liquidity st' = curr_liquidity st \<and> swap_arrays st' = swap_arrays st \<and>
       curr_array_index st' = curr_array_index st \<and>
       (if next_price step \<noteq> curr_sqrt_price st
        then tick_index_from_sqrt_price (next_price step) = Ok (curr_tick_index st')
        else curr_tick_index st' = curr_tick_index st)"
    note t = course_target [OF c ne l n gp]
    have "toward atb ?q ?q target" using t(4) by (simp add: toward_beyond)
    from compute_swap_toward [OF cs this] have
      q: "beyond atb ?q (next_price step)" "beyond atb (next_price step) lmt"
      using t(5) beyond_trans unfolding toward_beyond by blast+
    have bounds: "MIN_SQRT_PRICE_X64 \<le> next_price step" "next_price step \<le> MAX_SQRT_PRICE_X64"
      using q l c unfolding on_course_def price_matches_tick_def beyond_def by (auto split: if_splits)
    have "price_matches_tick (next_price step) (curr_tick_index st')"
    proof (cases "next_price step = tp")
      case True
      have "curr_tick_index st' = (if atb then i - 1 else i)"
        using br True t(1) by (auto simp: abs_le_iff)
      then show ?thesis
        using price_matches_crossed [of i "next_price step"] t(1,3) True by (auto simp: abs_le_iff)
    next
      case False
      then show ?thesis
        using br price_matches_converted [OF bounds] c by (auto simp: on_course_def split: if_splits)
    qed
    then show ?thesis using v' q unfolding on_course_def q' by blast
  qed
  then show "on_course p lmt atb st'" "beyond atb ?q (curr_sqrt_price st')" by simp_all
qed

lemma swap_course:
  assumes "swap p arrays amount lmt inp atb ts = Ok (upd, arrays')"
    and "seq_valid arrays (tick_spacing p)" "price_matches_tick (sqrt_price p) (tick_current_index p)"
  shows "beyond atb (sqrt_price p) (next_sqrt_price upd)" "beyond atb (next_sqrt_price upd) lmt"
    "price_matches_tick (next_sqrt_price upd) (next_tick_index upd)"
proof -
  obtain infos st where s: "MIN_SQRT_PRICE_X64 \<le> lmt" "lmt \<le> MAX_SQRT_PRICE_X64"
    "if atb then lmt \<le> sqrt_price p else sqrt_price p \<le> lmt"
    "swap_loop (swap_fuel arrays) p infos lmt inp atb (swap_start p arrays amount atb) = Ok st"
    "next_sqrt_price upd = curr_sqrt_price st" "next_tick_index upd = curr_tick_index st"
    by (rule swap_OkE [OF assms(1)])
  let ?P = "\<lambda>st. on_course p lmt atb st \<and> beyond atb (sqrt_price p) (curr_sqrt_price st)"
  have "?P (swap_start p arrays amount atb)"
    using assms(2,3) s(3) by (simp add: on_course_def swap_start_def beyond_def)
  moreover have "?P st''"
    if "?P st'" "lmt \<noteq> curr_sqrt_price st'" "swap_iteration p infos lmt inp atb st' = Ok st''" for st' st''
    using swap_iteration_course [OF _ that(2) s(1,2) that(3)] that(1) beyond_trans by blast
  ultimately have "?P st \<and> (amount_remaining st = 0 \<or> curr_sqrt_price st = lmt)"
    by (intro swap_loop_invariant [where P = ?P, OF s(4)])
  then show "beyond atb (sqrt_price p) (next_sqrt_price upd)" "beyond atb (next_sqrt_price upd) lmt"
    "price_matches_tick (next_sqrt_price upd) (next_tick_index upd)"
    using s(5,6) by (simp_all add: on_course_def)
qed

section \<open>Properties\<close>

text \<open>C15: A swap moves the price in its direction and never past the limit, from a price that
  matches the current tick to one that matches the new current tick: the new price is in the
  supported range and lies between the prices of the new tick and of the one after it.\<close>

theorem swap_price_correct:
  assumes "swap p arrays amount sqrt_price_limit is_input a_to_b timestamp = Ok (upd, arrays')"
    and "seq_valid arrays (tick_spacing p)" "price_matches_tick (sqrt_price p) (tick_current_index p)"
  shows "(if a_to_b then sqrt_price_limit \<le> next_sqrt_price upd \<and> next_sqrt_price upd \<le> sqrt_price p
      else sqrt_price p \<le> next_sqrt_price upd \<and> next_sqrt_price upd \<le> sqrt_price_limit) \<and>
    price_matches_tick (next_sqrt_price upd) (next_tick_index upd)"
  using swap_course [OF assms] by (simp add: beyond_def)

lemma sample_pool_matches: "price_matches_tick (sqrt_price sample_swap_pool) (tick_current_index sample_swap_pool)"
  using price_matches_crossed(2) [of 0 "2 ^ 64"] ratios_at_bounds
  by (simp add: sample_swap_pool_def default_pool_def tick_price_def)

lemma sample_seq_valid: "seq_valid [sample_swap_array] (tick_spacing sample_swap_pool)"
  by code_simp

lemma swap_price_correct_witness:
  "\<exists>upd arrays'. swap sample_swap_pool [sample_swap_array] 1000 19599665578316398592 True False 0 = Ok (upd, arrays') \<and>
     sqrt_price sample_swap_pool \<le> next_sqrt_price upd \<and>
     price_matches_tick (next_sqrt_price upd) (next_tick_index upd)"
  using swap_price_correct [OF sample_swap sample_seq_valid sample_pool_matches] sample_swap by fastforce

end
