(* ===== verification/Swap_Termination.thy ===== *)
theory Swap_Termination
  imports Swap_Price
begin

text \<open>
  The loop of \<^verbatim>\<open>swap\<close> (\<^verbatim>\<open>manager/swap_manager.rs\<close>) ends. The measure is the number of ticks
  that the arrays of the sequence hold ahead of the current one.
\<close>

section \<open>The loop ends\<close>

text \<open>No function that a round calls runs out of fuel.\<close>

definition completes :: "'a result \<Rightarrow> bool" where
  "completes r \<longleftrightarrow> r \<noteq> Inl Diverge"

named_theorems completes_intros

lemma completes_simps [simp]:
  "completes (Inr x)" "completes (Fail e)" "completes (Inl Panic)" "completes (Inl Constraint)"
  by (simp_all add: completes_def)

lemma completes_and_then [completes_intros]:
  "completes r \<Longrightarrow> (\<And>x. r = Ok x \<Longrightarrow> completes (f x)) \<Longrightarrow> completes (and_then r f)"
  by (cases r) (auto simp: completes_def)

lemma completes_if [completes_intros]:
  "(b \<Longrightarrow> completes r) \<Longrightarrow> (\<not> b \<Longrightarrow> completes q) \<Longrightarrow> completes (if b then r else q)"
  by simp

lemma completes_ok_or [completes_intros, simp]: "completes (ok_or x e)"
  by (cases x) simp_all

lemma completes_unwrap [completes_intros]: "completes r \<Longrightarrow> completes (unwrap r)"
  by (simp add: completes_def unwrap_def split: sum.splits fault.splits)

lemma completes_amounts [completes_intros]:
  "completes (get_amount_delta_a p q L up)" "completes (get_amount_delta_b p q L up)"
  "completes (get_next_sqrt_price_from_a_round_up p L m up)"
  "completes (get_next_sqrt_price_from_b_round_down p L m up)"
  "completes (checked_mul_div a b c)" "completes (checked_mul_div_round_up a b c)" "completes (try_into_u64 w)"
  by (simp_all add: get_amount_delta_a_spec get_amount_delta_b_spec get_next_sqrt_price_from_a_round_up_spec
      get_next_sqrt_price_from_b_round_down_spec checked_mul_div_def checked_mul_div_round_up_def
      checked_mul_div_round_up_if_spec try_into_u64_def Let_def)

lemma completes_compute_swap [completes_intros]: "completes (compute_swap m fee L cur tgt inp atb)"
  unfolding compute_swap_def get_amount_fixed_delta_def get_amount_unfixed_delta_def get_next_sqrt_price_def Let_def split_def
  by (intro completes_intros) (auto intro!: completes_intros)

lemma completes_positive_steps [completes_intros]: "completes (positive_steps fs t r)"
  by (induction fs t r rule: positive_steps.induct) (auto intro!: completes_intros simp: mul_shift_96_eq Let_def)

lemma completes_sqrt_price [completes_intros]: "completes (sqrt_price_from_tick_index t)"
  unfolding sqrt_price_from_tick_index_def get_sqrt_price_positive_tick_def Let_def
  by (intro completes_intros) simp_all

lemma completes_tick_index [completes_intros]: "completes (tick_index_from_sqrt_price q)"
  unfolding tick_index_from_sqrt_price_def Let_def try_into_i32_def
  by (intro completes_intros) simp_all

lemma completes_tick_offset [completes_intros]: "completes (tick_offset ta i sp)"
  by (simp add: tick_offset_def get_offset_def Let_def)

lemma completes_tick_position [completes_intros]: "completes (tick_position ta i sp)"
  unfolding tick_position_def check_is_usable_tick_def checked_rem_def
  by (intro completes_intros) simp_all

lemma completes_init_tick_loop [completes_intros]: "completes (init_tick_loop ta sp atb c)"
  by (induction ta sp atb c rule: init_tick_loop.induct) (subst init_tick_loop.simps, simp add: Let_def)

lemma completes_get_next [completes_intros]: "completes (get_next_init_tick_index ta s sp atb)"
  unfolding get_next_init_tick_index_def by (intro completes_intros) simp_all

lemma completes_seq_next_loop [completes_intros]: "completes (seq_next_loop arrays sp atb s k)"
  by (induction arrays sp atb s k rule: seq_next_loop.induct)
    (subst seq_next_loop.simps, auto simp: Let_def intro!: completes_intros split: option.splits)

lemma completes_ticks [completes_intros]:
  "completes (seq_get_tick arrays k i sp)" "completes (seq_update_tick arrays k i sp u)"
  "completes (seq_get_tick_offset arrays k i sp)"
  unfolding seq_get_tick_def seq_update_tick_def seq_get_tick_offset_def get_tick_def update_tick_def
  by (auto intro!: completes_intros split: option.splits)

lemma completes_swap_cross [completes_intros]: "completes (swap_cross p infos atb k i st)"
proof (cases "seq_get_tick (swap_arrays st) k i (tick_spacing p)")
  case (Inl f)
  then have "f \<noteq> Diverge" using completes_ticks(1) [of "swap_arrays st" k i "tick_spacing p"] by (simp add: completes_def)
  then show ?thesis using Inl by (cases f) (simp_all add: swap_cross_def)
next
  case (Inr t)
  have "completes (calculate_update t atb L a b infos)" for L a b
    unfolding calculate_update_def next_tick_cross_update_def add_liquidity_delta_def Let_def
    by (intro completes_intros) simp_all
  then show ?thesis using Inr by (auto simp: swap_cross_def Let_def split: prod.splits intro!: completes_intros)
qed

lemma completes_swap_iteration [completes_intros]: "completes (swap_iteration p infos lmt inp atb st)"
  unfolding swap_iteration_def seq_get_next_initialized_tick_index_def get_next_sqrt_prices_def swap_amounts_def
    calculate_fees_def calculate_protocol_fee_def swap_advance_def Let_def split_def
  by (intro completes_intros) simp_all

text \<open>The ticks ahead of the current one, over all the arrays.\<close>

definition ahead :: "bool \<Rightarrow> i32 \<Rightarrow> i32 \<Rightarrow> bool" where
  "ahead a_to_b t i \<longleftrightarrow> (if a_to_b then i \<le> t else t < i)"

definition slots_ahead :: "tick_array list \<Rightarrow> u16 \<Rightarrow> bool \<Rightarrow> i32 \<Rightarrow> (nat \<times> nat) set" where
  "slots_ahead arrays spacing a_to_b t = {(j, n). j < length arrays \<and> n < 88 \<and>
     ahead a_to_b t (start_tick_index (arrays ! j) + int n * i32_of_u16 spacing)}"

lemma slots_ahead_bound: "finite (slots_ahead arrays sp atb t)" "card (slots_ahead arrays sp atb t) \<le> 88 * length arrays"
proof -
  have sub: "slots_ahead arrays sp atb t \<subseteq> {..<length arrays} \<times> {..<88}" by (auto simp: slots_ahead_def)
  show "finite (slots_ahead arrays sp atb t)" by (rule finite_subset [OF sub]) simp
  show "card (slots_ahead arrays sp atb t) \<le> 88 * length arrays" using card_mono [OF _ sub] by simp
qed

lemma same_arrays_start:
  assumes "same_arrays xs ys" "j < length xs"
  shows "start_tick_index (xs ! j) = start_tick_index (ys ! j)"
proof -
  have "map start_tick_index xs ! j = map start_tick_index ys ! j" using assms(1) by (simp add: same_arrays_def)
  then show ?thesis using assms(2) same_arrays_length [OF assms(1)] by simp
qed

lemma slots_ahead_same:
  assumes "same_arrays xs ys"
  shows "slots_ahead xs sp atb t = slots_ahead ys sp atb t"
proof -
  have "j < length ys \<Longrightarrow> start_tick_index (xs ! j) = start_tick_index (ys ! j)" for j
    using same_arrays_start [OF assms, of j] same_arrays_length [OF assms] by simp
  then show ?thesis unfolding slots_ahead_def same_arrays_length [OF assms] by (intro Collect_cong) auto
qed

lemma slots_ahead_mono: "if atb then t' \<le> t else t \<le> t' \<Longrightarrow> slots_ahead xs sp atb t' \<subseteq> slots_ahead xs sp atb t"
  by (auto simp: slots_ahead_def ahead_def split: if_splits)

text \<open>Moving past a tick that an array holds leaves fewer ticks ahead.\<close>

lemma slots_ahead_less:
  assumes "k < length xs" "n < 88" "i = start_tick_index (xs ! k) + int n * i32_of_u16 sp" "ahead atb t i"
  shows "card (slots_ahead xs sp atb (if atb then i - 1 else i)) < card (slots_ahead xs sp atb t)"
proof (rule psubset_card_mono [OF slots_ahead_bound(1)])
  have "(k, n) \<in> slots_ahead xs sp atb t" "(k, n) \<notin> slots_ahead xs sp atb (if atb then i - 1 else i)"
    using assms by (auto simp: slots_ahead_def ahead_def split: if_splits)
  moreover have "slots_ahead xs sp atb (if atb then i - 1 else i) \<subseteq> slots_ahead xs sp atb t"
    using assms(4) by (intro slots_ahead_mono) (auto simp: ahead_def)
  ultimately show "slots_ahead xs sp atb (if atb then i - 1 else i) \<subset> slots_ahead xs sp atb t" by blast
qed

definition rounds_left :: "pool \<Rightarrow> bool \<Rightarrow> swap_state \<Rightarrow> nat" where
  "rounds_left p a_to_b st =
     card (slots_ahead (swap_arrays st) (tick_spacing p) a_to_b (curr_tick_index st)) +
     (if curr_array_index st < length (swap_arrays st) then 1 else 0)"

lemma rounds_left_bound: "rounds_left p atb st \<le> 88 * length (swap_arrays st) + 1"
  using slots_ahead_bound(2) [of "swap_arrays st" "tick_spacing p" atb "curr_tick_index st"] by (simp add: rounds_left_def)

text \<open>A round that does not reach its target uses up the amount.\<close>

lemma round_reaches_target:
  assumes "compute_swap (amount_remaining st) fee L cur target inp atb = Ok step" "beyond atb cur target"
    and "swap_amounts inp step st = Ok st1" "amount_remaining st1 \<noteq> 0"
  shows "next_price step = target"
proof (rule ccontr)
  assume "next_price step \<noteq> target"
  moreover have "toward atb cur cur target" using assms(2) by (simp add: toward_beyond)
  ultimately have "if inp then unat (amount_in step) + unat (fee_amount step) = unat (amount_remaining st)
      else amount_out step = amount_remaining st"
    using compute_swap_step_amounts(2) [OF assms(1)] by blast
  then have "unat (amount_remaining st1) = 0"
    using assms(3) by (auto simp: swap_amounts_def and_then_Inr_iff checked_sub_Some_iff unat_sub word_le_nat_alt split: if_splits)
  then show False using assms(4) unat_gt_0 [of "amount_remaining st1"] by simp
qed

text \<open>The tick that the search returned is held by an array, or is the end of the last array going
  up, or the end of the range of ticks.\<close>

lemma found_tick_held:
  assumes v: "seq_valid arrays sp" and n: "seq_next_loop arrays sp atb t k0 = Ok (k, i)"
    and t: "if atb then -443636 \<le> t else t < 443636" and i: "i \<noteq> (if atb then -443636 else 443636)"
  obtains m where "m < 88" "i = start_tick_index (arrays ! k) + int m * i32_of_u16 sp"
  | "\<not> atb" "k = length arrays - 1" "i = start_tick_index (arrays ! k) + 88 * i32_of_u16 sp - 1"
proof -
  have va: "\<forall>ta\<in>set arrays. tick_array_valid ta sp" using v by (simp add: seq_valid_def list_all_iff)
  have vk: "tick_array_valid (arrays ! k) sp" using seq_next_loop_index [OF n] by (intro seq_validD [OF v]) simp
  consider "initialized_at (arrays ! k) sp i" | "atb" "i = start_tick_index (arrays ! k)"
    | "\<not> atb" "k = length arrays - 1" "i = start_tick_index (arrays ! k) + 88 * i32_of_u16 sp - 1"
    using seq_next_loop_down [OF va, of t k0 k i] seq_next_loop_up [OF va, of t k0 k i] n t i by (cases atb) auto
  then show ?thesis
  proof cases
    case 1
    then show ?thesis using that(1) tick_array_validD(1) [OF vk] by (auto simp: initialized_at_iff)
  next
    case 2
    then show ?thesis using that(1) [of 0] by simp
  qed (rule that(2))
qed

text \<open>The end of an array has the last offset, so the loop leaves the array there.\<close>

lemma offset_of_end:
  assumes "tick_array_valid ta sp" "i = start_tick_index ta + 88 * i32_of_u16 sp - 1"
  shows "tick_offset ta i sp = Ok 87"
proof -
  have r: "0 < i32_of_u16 sp" "i32_of_u16 sp \<le> 65535" using tick_array_validD [OF assms(1)] by simp_all
  have "(88 * i32_of_u16 sp - 1) div i32_of_u16 sp = 87"
    using r by (intro int_div_pos_eq [of _ _ _ "i32_of_u16 sp - 1"]) simp_all
  moreover have "tick_offset ta i sp = Ok ((i - start_tick_index ta) div i32_of_u16 sp)"
    by (rule tick_offset_eq) (use assms(2) r tick_array_validD(4) [OF assms(1)] in \<open>simp_all add: in_signed_def\<close>)
  ultimately show ?thesis using assms(2) by simp
qed

text \<open>A round after which the loop goes on has crossed the tick it found.\<close>

lemma round_crosses:
  assumes c: "on_course p lmt atb st" and ne: "lmt \<noteq> curr_sqrt_price st"
    and l: "MIN_SQRT_PRICE_X64 \<le> lmt" "lmt \<le> MAX_SQRT_PRICE_X64"
    and it: "swap_iteration p infos lmt inp atb st = Ok st'"
    and go: "amount_remaining st' \<noteq> 0" "lmt \<noteq> curr_sqrt_price st'"
  obtains k i offset where
    "seq_next_loop (swap_arrays st) (tick_spacing p) atb (curr_tick_index st) (curr_array_index st) = Ok (k, i)"
    "if atb then i \<le> curr_tick_index st else curr_tick_index st < i" "i \<noteq> (if atb then -443636 else 443636)"
    "if atb then -443636 \<le> curr_tick_index st else curr_tick_index st < 443636"
    "seq_get_tick_offset (swap_arrays st') k i (tick_spacing p) = Ok offset"
    "curr_array_index st' = (if atb \<and> offset = 0 \<or> \<not> atb \<and> offset = 87 then k + 1 else k)"
    "curr_tick_index st' = (if atb then i - 1 else i)"
proof (rule swap_iteration_OkE [OF it])
  fix k i tp target step st1 pf g
  assume n: "seq_get_next_initialized_tick_index (swap_arrays st) (curr_tick_index st) (tick_spacing p) atb
       (curr_array_index st) = Ok (k, i)"
    and gp: "get_next_sqrt_prices i lmt atb = Ok (tp, target)"
    and cs: "compute_swap (amount_remaining st) (fee_rate p) (curr_liquidity st) (curr_sqrt_price st) target
       inp atb = Ok step"
    and am: "swap_amounts inp step st = Ok st1" "amount_remaining st' = amount_remaining st1"
    and q': "curr_sqrt_price st' = next_price step"
    and br: "if next_price step = tp then
       \<exists>st2. swap_cross p infos atb k i (st1\<lparr>curr_protocol_fee := pf, curr_fee_growth_global_input := g\<rparr>) = Ok st2 \<and>
         (\<exists>offset. seq_get_tick_offset (swap_arrays st2) k i (tick_spacing p) = Ok offset \<and>
           curr_liquidity st' = curr_liquidity st2 \<and> swap_arrays st' = swap_arrays st2 \<and>
           curr_array_index st' = (if atb \<and> offset = 0 \<or> \<not> atb \<and> offset = 87 then k + 1 else k) \<and>
           curr_tick_index st' = (if atb then wrap_i32 (i - 1) else i))
     else curr_liquidity st' = curr_liquidity st \<and> swap_arrays st' = swap_arrays st \<and>
       curr_array_index st' = curr_array_index st \<and>
       (if next_price step \<noteq> curr_sqrt_price st
        then tick_index_from_sqrt_price (next_price step) = Ok (curr_tick_index st')
        else curr_tick_index st' = curr_tick_index st)"
  note t = course_target [OF c ne l n gp]
  have s: "next_price step = target" by (rule round_reaches_target [OF cs t(4) am(1)]) (use go(1) am(2) in simp)
  then have tp: "next_price step = tp" "tp \<noteq> lmt" using t(6) go(2) q' by auto
  then obtain offset where
    o: "seq_get_tick_offset (swap_arrays st') k i (tick_spacing p) = Ok offset"
      "curr_array_index st' = (if atb \<and> offset = 0 \<or> \<not> atb \<and> offset = 87 then k + 1 else k)"
      "curr_tick_index st' = (if atb then i - 1 else i)"
    using br t(1) by (auto simp: abs_le_iff)
  have inner: "i \<noteq> (if atb then -443636 else 443636)"
  proof
    assume "i = (if atb then -443636 else 443636)"
    then have "beyond atb lmt tp" using l [unfolded price_in_range_iff] t(3) by (simp add: beyond_def word_le_nat_alt)
    moreover have "beyond atb tp lmt" using t(5) tp s by simp
    ultimately show False using tp(2) by (auto simp: beyond_def split: if_splits)
  qed
  show thesis
    by (rule that [OF _ t(2) inner _ o]) (use n t(7) in \<open>auto simp: seq_get_next_initialized_tick_index_def split: if_splits\<close>)
qed

lemma round_progress:
  assumes c: "on_course p lmt atb st" and ne: "lmt \<noteq> curr_sqrt_price st"
    and l: "MIN_SQRT_PRICE_X64 \<le> lmt" "lmt \<le> MAX_SQRT_PRICE_X64"
    and it: "swap_iteration p infos lmt inp atb st = Ok st'"
    and go: "amount_remaining st' \<noteq> 0" "lmt \<noteq> curr_sqrt_price st'"
  shows "rounds_left p atb st' < rounds_left p atb st"
proof (rule round_crosses [OF assms])
  let ?sp = "tick_spacing p" and ?t = "curr_tick_index st" and ?xs = "swap_arrays st" and ?xs' = "swap_arrays st'"
  fix k i offset
  assume n: "seq_next_loop ?xs ?sp atb ?t (curr_array_index st) = Ok (k, i)"
    and ord: "if atb then i \<le> ?t else ?t < i" and i: "i \<noteq> (if atb then -443636 else 443636)"
    and t: "if atb then -443636 \<le> ?t else ?t < 443636"
    and o: "seq_get_tick_offset ?xs' k i ?sp = Ok offset"
      "curr_array_index st' = (if atb \<and> offset = 0 \<or> \<not> atb \<and> offset = 87 then k + 1 else k)"
      "curr_tick_index st' = (if atb then i - 1 else i)"
  have same: "same_arrays ?xs ?xs'" by (rule swap_iteration_arrays(1) [OF it])
  have v: "seq_valid ?xs ?sp" "seq_valid ?xs' ?sp" using c swap_iteration_arrays(2) [OF it] by (auto simp: on_course_def)
  note k = seq_next_loop_index [OF n]
  have slots': "slots_ahead ?xs' ?sp atb u = slots_ahead ?xs ?sp atb u" for u using slots_ahead_same [OF same] by simp
  have len: "length ?xs' = length ?xs" using same_arrays_length [OF same] by simp
  show ?thesis
  proof (rule found_tick_held [OF v(1) n t i])
    fix m assume m: "m < 88" "i = start_tick_index (?xs ! k) + int m * i32_of_u16 ?sp"
    have "card (slots_ahead ?xs' ?sp atb (curr_tick_index st')) < card (slots_ahead ?xs ?sp atb ?t)"
      unfolding slots' o(3) by (rule slots_ahead_less [OF conjunct2 [OF k] m]) (use ord in \<open>simp add: ahead_def\<close>)
    then show ?thesis using k by (simp add: rounds_left_def)
  next
    assume up: "\<not> atb" "k = length ?xs - 1" "i = start_tick_index (?xs ! k) + 88 * i32_of_u16 ?sp - 1"
    have k': "k < length ?xs'" using k len by simp
    have "i = start_tick_index (?xs' ! k) + 88 * i32_of_u16 ?sp - 1" using up(3) same_arrays_start [OF same, of k] k by simp
    then have "offset = 87" using offset_of_end [OF seq_validD [OF v(2) k']] o(1) k' by (simp add: seq_get_tick_offset_def seq_array_def)
    moreover have "card (slots_ahead ?xs' ?sp atb (curr_tick_index st')) \<le> card (slots_ahead ?xs ?sp atb ?t)"
      unfolding slots' by (intro card_mono slots_ahead_bound slots_ahead_mono) (use ord o(3) up(1) in simp)
    ultimately show ?thesis using up k o(2) len by (auto simp: rounds_left_def)
  qed
qed

lemma swap_loop_completes:
  assumes "on_course p lmt atb st" "MIN_SQRT_PRICE_X64 \<le> lmt" "lmt \<le> MAX_SQRT_PRICE_X64" "rounds_left p atb st < fuel"
  shows "completes (swap_loop fuel p infos lmt inp atb st)"
  using assms(1,4)
proof (induction fuel arbitrary: st)
  case (Suc fuel)
  have stop: "completes (swap_loop f p infos lmt inp atb st)"
    if "\<not> (amount_remaining st > 0 \<and> lmt \<noteq> curr_sqrt_price st)" for f st
    using that by (subst swap_loop.simps) auto
  show ?case
  proof (cases "amount_remaining st > 0 \<and> lmt \<noteq> curr_sqrt_price st")
    case True
    have "completes (swap_loop fuel p infos lmt inp atb st')" if it: "swap_iteration p infos lmt inp atb st = Ok st'" for st'
    proof (cases "amount_remaining st' > 0 \<and> lmt \<noteq> curr_sqrt_price st'")
      case go: True
      then have "rounds_left p atb st' < rounds_left p atb st"
        using True by (intro round_progress [OF Suc.prems(1) _ assms(2,3) it]) auto
      then show ?thesis
        using Suc.IH [of st'] swap_iteration_course(1) [OF Suc.prems(1) _ assms(2,3) it] True Suc.prems(2) by simp
    qed (rule stop)
    then show ?thesis using True by (subst swap_loop.simps) (simp add: completes_and_then completes_swap_iteration)
  qed (rule stop)
qed simp

section \<open>Properties\<close>

text \<open>C16: The loop of a swap always ends: on valid tick arrays and with a price that matches the
  current tick, the bound of \<open>90\<close> rounds per array plus two is never used up, because every round
  that does not finish the swap crosses a tick of the arrays or leaves them.\<close>

theorem swap_terminates:
  assumes "seq_valid arrays (tick_spacing p)" "price_matches_tick (sqrt_price p) (tick_current_index p)"
  shows "swap p arrays amount sqrt_price_limit is_input a_to_b timestamp \<noteq> Inl Diverge"
proof -
  let ?l = sqrt_price_limit and ?st = "swap_start p arrays amount a_to_b"
  have loop: "completes (swap_loop (swap_fuel arrays) p infos ?l is_input a_to_b ?st)"
    if "MIN_SQRT_PRICE_X64 \<le> ?l" "?l \<le> MAX_SQRT_PRICE_X64" "beyond a_to_b (sqrt_price p) ?l" for infos
  proof (rule swap_loop_completes [OF _ that(1,2)])
    show "on_course p ?l a_to_b ?st" using assms that(3) by (simp add: on_course_def swap_start_def)
    show "rounds_left p a_to_b ?st < swap_fuel arrays"
      using rounds_left_bound [of p a_to_b ?st] by (simp add: swap_start_def swap_fuel_def)
  qed
  have "completes (swap p arrays amount ?l is_input a_to_b timestamp)"
    unfolding swap_def next_pool_reward_infos_def Let_def split_def
    by (intro completes_intros loop) (auto simp: beyond_def not_less)
  then show ?thesis by (simp add: completes_def)
qed

lemma swap_terminates_witness:
  "swap sample_swap_pool [sample_swap_array] 18446744073709551615 MAX_SQRT_PRICE_X64 True False 0 \<noteq> Inl Diverge"
  by (rule swap_terminates [OF sample_seq_valid sample_pool_matches])

end
