(* ===== verification/Prices.thy ===== *)
theory Prices
  imports Invariants Swap_Termination
begin

text \<open>
  The price of every pool matches its current tick in every reachable state, so that every swap
  of a reachable market ends.
\<close>

section \<open>Prices of pools\<close>

definition pool_priced :: "pool \<Rightarrow> bool" where
  "pool_priced p \<longleftrightarrow> price_matches_tick (sqrt_price p) (tick_current_index p)"

definition prices_ok :: "chain_state \<Rightarrow> bool" where
  "prices_ok s \<longleftrightarrow> (\<forall>k p. pools s k = Some p \<longrightarrow> pool_priced p)"

text \<open>A pool that keeps its price, for the handlers that do not swap.\<close>

definition price_kept :: "pool \<Rightarrow> pool \<Rightarrow> bool" where
  "price_kept p p' \<longleftrightarrow> sqrt_price p' = sqrt_price p \<and> tick_current_index p' = tick_current_index p"

definition prices_kept :: "chain_state \<Rightarrow> chain_state \<Rightarrow> bool" where
  "prices_kept s s' \<longleftrightarrow> (\<forall>k p'. pools s' k = Some p' \<longrightarrow> (\<exists>p. pools s k = Some p \<and> price_kept p p'))"

lemma prices_kept_ok: "prices_kept s s' \<Longrightarrow> prices_ok s \<Longrightarrow> prices_ok s'"
  unfolding prices_kept_def price_kept_def prices_ok_def pool_priced_def by metis

lemma prices_kept_frame: "pools s' = pools s \<Longrightarrow> prices_kept s s'"
  by (simp add: prices_kept_def price_kept_def)

lemma prices_kept_upd: "pools s k = Some p \<Longrightarrow> price_kept p p' \<Longrightarrow> pools s' = (pools s)(k \<mapsto> p') \<Longrightarrow> prices_kept s s'"
  by (auto simp: prices_kept_def price_kept_def)

lemma price_kept_intros:
  "update_fee_rate rate p = Ok p' \<Longrightarrow> price_kept p p'"
  "update_protocol_fee_rate rate p = Ok p' \<Longrightarrow> price_kept p p'"
  "initialize_reward j mint vault p = Ok p' \<Longrightarrow> price_kept p p'"
  "update_reward_authority j auth p = Ok p' \<Longrightarrow> price_kept p p'"
  "update_emissions j infos ts emissions p = Ok p' \<Longrightarrow> price_kept p p'"
  "sync_modify_liquidity_values p pos arrays lk uk upd ts = Ok (p', pos', arrays') \<Longrightarrow> price_kept p p'"
  "price_kept p (reset_protocol_fees_owed p)" "price_kept p (update_rewards infos ts p)"
  by (auto simp: price_kept_def update_fee_rate_Ok_iff update_protocol_fee_rate_Ok_iff initialize_reward_eq Let_def
      update_reward_authority_Ok_iff update_emissions_def update_rewards_def and_then_Inr_iff
      update_rewards_and_liquidity_def reset_protocol_fees_owed_def dest!: sync_OkD(1) split: if_splits)

lemma handlers_keep_prices:
  "set_fee_rate e ck pk auth rate s = Ok s' \<Longrightarrow> prices_kept s s'"
  "set_protocol_fee_rate e ck pk auth rate s = Ok s' \<Longrightarrow> prices_kept s s'"
  "collect_protocol_fees e ca s = Ok s' \<Longrightarrow> prices_kept s s'"
  "initialize_reward_instr e auth funder pk mk vk tp j s = Ok s' \<Longrightarrow> prices_kept s s'"
  "set_reward_authority e pk auth new_auth j s = Ok s' \<Longrightarrow> prices_kept s s'"
  "set_reward_authority_by_super_authority e ck pk auth new_auth j s = Ok s' \<Longrightarrow> prices_kept s s'"
  "set_reward_emissions e pk auth vk j emissions s = Ok s' \<Longrightarrow> prices_kept s s'"
  "update_fees_and_rewards e pk qk lk uk s = Ok s' \<Longrightarrow> prices_kept s s'"
  by (erule set_fee_rate_OkE set_protocol_fee_rate_OkE collect_protocol_fees_OkE initialize_reward_instr_OkE
      set_reward_authority_OkE set_reward_authority_by_super_authority_OkE set_reward_emissions_OkE
      update_fees_and_rewards_OkE,
    rule prices_kept_upd, assumption, (rule price_kept_intros; assumption), simp)+

lemma liquidity_keeps_prices:
  "increase_liquidity e ma amount x y s = Ok s' \<Longrightarrow> prices_kept s s'"
  "decrease_liquidity e ma amount x y s = Ok s' \<Longrightarrow> prices_kept s s'"
  by (erule increase_liquidity_OkE decrease_liquidity_OkE, drule modify_liquidity_accounts_OkD, elim conjE,
    rule prices_kept_upd, assumption, rule price_kept_intros, assumption, simp)+

lemma initialize_pool_priced:
  assumes "initialize_pool e a spacing price s = Ok s'" "prices_ok s"
  shows "prices_ok s'"
proof -
  have "pool_priced p" if "pool_initialize ck c bump sp q rate ma va mb vb r = Ok p" for ck c bump sp q rate ma va mb vb r p
    using that price_matches_converted [of q]
    by (auto simp: pool_initialize_def and_then_Inr_iff pool_priced_def not_less split: if_splits)
  then show ?thesis
    using assms by (auto elim!: initialize_pool_OkE simp: prices_ok_def split: if_splits)
qed

lemma swapped_pool_priced:
  assumes "swap p arrays amount lmt inp atb ts = Ok (upd, arrays')" "seq_valid arrays (tick_spacing p)" "pool_priced p"
  shows "pool_priced (update_after_swap (next_liquidity upd) (next_tick_index upd) (next_sqrt_price upd)
     (next_fee_growth_global upd) (next_reward_infos upd) (next_protocol_fee upd) b ts' p)"
  using swap_course(3) [OF assms(1,2)] assms(3) by (simp add: pool_priced_def update_after_swap_def Let_def)

lemma swap_instr_priced:
  assumes "swap_instr e a amount threshold lmt is_input a_to_b s = Ok s'"
    and ok: "arrays_ok (pools s) (tick_arrays s)" "prices_ok s"
  shows "prices_ok s'"
proof (rule swap_instr_OkE [OF assms(1)])
  fix p timestamp keys arrays upd arrays' l l'
  assume p: "pools s (sw_pool a) = Some p"
    and own: "\<forall>k \<in> {sw_tick_array_0 a, sw_tick_array_1 a, sw_tick_array_2 a}.
       \<exists>ta. tick_arrays s k = Some ta \<and> tick_array_pool ta = sw_pool a"
    and load: "load_sequence (tick_arrays s) [] (sw_tick_array_0 a) (sw_tick_array_1 a) (sw_tick_array_2 a)
       = Ok (keys, arrays)"
    and sw: "swap p arrays amount lmt is_input a_to_b timestamp = Ok (upd, arrays')"
    and s': "s' = s\<lparr>pools := (pools s)(sw_pool a \<mapsto>
            update_after_swap (next_liquidity upd) (next_tick_index upd) (next_sqrt_price upd)
              (next_fee_growth_global upd) (next_reward_infos upd) (next_protocol_fee upd)
              a_to_b timestamp p),
           tick_arrays := store_sequence keys arrays' (tick_arrays s), tokens := l'\<rparr>"
  have "pool_priced p" using ok(2) p by (simp add: prices_ok_def)
  from swapped_pool_priced [OF sw loaded_sequence_ok(2) [OF load ok(1) own p] this]
  show ?thesis using ok(2) by (simp add: s' prices_ok_def)
qed

lemma two_hop_swap_priced:
  assumes "two_hop_swap e a amount threshold is_input one two limit1 limit2 s = Ok s'"
    and ok: "arrays_ok (pools s) (tick_arrays s)" "prices_ok s"
  shows "prices_ok s'"
proof (rule two_hop_swap_OkE [OF assms(1)])
  fix p1 p2 timestamp keys1 keys2 arrays1 arrays2 upd1 upd2 arrays1' arrays2' p1' p2' l l'
  assume acc: "two_hop_accounts_ok e a s = Ok (p1, p2)"
    and k1: "load_sequence (tick_arrays s) [] (th_tick_array_one_0 a) (th_tick_array_one_1 a)
       (th_tick_array_one_2 a) = Ok (keys1, arrays1)"
    and k2: "load_sequence (tick_arrays s) keys1 (th_tick_array_two_0 a) (th_tick_array_two_1 a)
       (th_tick_array_two_2 a) = Ok (keys2, arrays2)"
    and c: "two_hop_calculation p1 p2 arrays1 arrays2 amount limit1 limit2 is_input one two timestamp =
       Ok ((upd1, arrays1'), (upd2, arrays2'))"
    and u1: "update_and_swap_pool e (th_pool_one a) p1 (th_token_authority a)
       (th_token_owner_account_one_a a) (th_token_owner_account_one_b a)
       (th_token_vault_one_a a) (th_token_vault_one_b a) upd1 one timestamp (tokens s) = Ok (p1', l)"
    and u2: "update_and_swap_pool e (th_pool_two a) p2 (th_token_authority a)
       (th_token_owner_account_two_a a) (th_token_owner_account_two_b a)
       (th_token_vault_two_a a) (th_token_vault_two_b a) upd2 two timestamp l = Ok (p2', l')"
    and s': "s' = s\<lparr>pools := (pools s)(th_pool_one a \<mapsto> p1', th_pool_two a \<mapsto> p2'),
           tick_arrays := store_sequence keys2 arrays2' (store_sequence keys1 arrays1' (tick_arrays s)),
           tokens := l'\<rparr>"
  note p = two_hop_accounts_OkD [OF acc]
  have v: "seq_valid arrays1 (tick_spacing p1)" "seq_valid arrays2 (tick_spacing p2)"
    using loaded_sequence_ok(2) [OF k1 ok(1) p(2)] loaded_sequence_ok(2) [OF k2 ok(1) p(3)] p(1) by simp_all
  have q: "pool_priced p1" "pool_priced p2" using ok(2) p(1) by (auto simp: prices_ok_def)
  have "pool_priced p1'"
    by (rule two_hop_calculation_OkE [OF c], rule update_and_swap_pool_OkE [OF u1])
      (use swapped_pool_priced [OF _ v(1) q(1)] in simp)
  moreover have "pool_priced p2'"
    by (rule two_hop_calculation_OkE [OF c], rule update_and_swap_pool_OkE [OF u2])
      (use swapped_pool_priced [OF _ v(2) q(2)] in simp)
  ultimately show ?thesis using ok(2) by (simp add: s' prices_ok_def)
qed

lemma prices_step:
  assumes "process e i s = Ok s'" "arrays_ok (pools s) (tick_arrays s)" "prices_ok s"
  shows "prices_ok s'"
  by (insert assms, cases i; simp; (erule (2) swap_instr_priced two_hop_swap_priced | erule (1) initialize_pool_priced |
      (drule handlers_keep_prices liquidity_keeps_prices, erule (1) prices_kept_ok) |
      (erule pool_frame_OkE, rule prices_kept_ok [OF prices_kept_frame _], simp, assumption)))

lemma reachable_prices: "reachable s \<Longrightarrow> market_ok s \<and> prices_ok s"
proof (induction rule: reachable.induct)
  case (start l)
  show ?case by (simp add: market_ok_empty) (simp add: prices_ok_def empty_chain_def)
next
  case (step s s')
  from step(2) obtain e i where "process e i s = Ok s'" by cases
  with step show ?case using market_ok_step prices_step unfolding market_ok_def by blast
qed

section \<open>Property\<close>

text \<open>C7: In every reachable state, the price of every pool is in the supported range and matches
  the pool's current tick: it is at least the price of that tick and at most the price of the next
  one. So the assumptions under which swaps are analysed hold whenever an instruction swaps.\<close>

theorem reachable_price_matches:
  assumes "reachable s" "pools s k = Some p"
  shows "price_matches_tick (sqrt_price p) (tick_current_index p)"
  using reachable_prices [OF assms(1)] assms(2) by (simp add: prices_ok_def pool_priced_def)

lemma reachable_price_matches_witness:
  "\<exists>s p. reachable s \<and> pools s 1046 = Some p \<and> price_matches_tick (sqrt_price p) (tick_current_index p)"
proof -
  obtain s2 s3 :: chain_state where
    i: "process sample_env (IncreaseLiquidity sample_liquidity_accounts 1000000 10000 10000) s2 = Ok s3"
    and r: "reachable s3" by (rule sample_states)
  obtain p and pos :: position where p: "pools s3 1046 = Some p" by (rule sample_accounts [OF i])
  from reachable_price_matches [OF r p] r p show ?thesis by blast
qed

end
