(* ===== verification/Swap_Ledger.thy ===== *)
theory Swap_Ledger
  imports Tick_Ledger Prices
begin

text \<open>
  The liquidity of a pool during a swap: the loop visits every tick at which a position begins
  or ends, so the liquidity it computes is that of the positions around the current tick.
\<close>

section \<open>Ticks that keep their liquidity\<close>

definition tick_kept :: "tick \<Rightarrow> tick \<Rightarrow> bool" where
  "tick_kept t t' \<longleftrightarrow> tick_initialized t' = tick_initialized t \<and> liquidity_net t' = liquidity_net t \<and>
     liquidity_gross t' = liquidity_gross t"

definition array_kept :: "tick_array \<Rightarrow> tick_array \<Rightarrow> bool" where
  "array_kept ta ta' \<longleftrightarrow> tick_array_pool ta' = tick_array_pool ta \<and> start_tick_index ta' = start_tick_index ta \<and>
     list_all2 tick_kept (ticks ta) (ticks ta')"

lemma tick_kept_refl [simp]: "tick_kept t t"
  by (simp add: tick_kept_def)

lemma array_kept_refl [simp]: "array_kept ta ta"
  by (simp add: array_kept_def list_all2_refl)

lemma array_kept_trans: "array_kept ta tb \<Longrightarrow> array_kept tb tc \<Longrightarrow> array_kept ta tc"
  unfolding array_kept_def
  by (auto intro: list_all2_trans [of tick_kept tick_kept tick_kept] simp: tick_kept_def)

lemma update_tick_kept:
  assumes "get_tick ta i sp = Ok t" "update_tick ta i sp u = Ok ta'" "tick_kept t u"
  shows "array_kept ta ta'"
proof -
  obtain n where n: "t = ticks ta ! n" "ta' = ta\<lparr>ticks := (ticks ta)[n := u]\<rparr>"
    using assms(1,2) by (auto simp: get_tick_def update_tick_Ok_iff and_then_Inr_iff)
  have "tick_kept (ticks ta ! m) ((ticks ta)[n := u] ! m)" if "m < length (ticks ta)" for m
    using assms(3) n(1) that by (cases "m = n") simp_all
  then show ?thesis by (simp add: array_kept_def n(2) list_all2_conv_all_nth)
qed

lemma tick_accounts_kept: "tick_kept t t' \<Longrightarrow> tick_accounts ps pk i t' = tick_accounts ps pk i t"
  by (simp add: tick_kept_def tick_accounts_def)

lemma seq_kept_trans:
  "list_all2 array_kept xs ys \<Longrightarrow> list_all2 array_kept ys zs \<Longrightarrow> list_all2 array_kept xs zs"
  by (rule list_all2_trans [of array_kept array_kept array_kept]) (rule array_kept_trans)

lemma seq_update_kept:
  assumes "seq_get_tick arrays k i sp = Ok t" "seq_update_tick arrays k i sp u = Ok arrays'" "tick_kept t u"
  shows "list_all2 array_kept arrays arrays'"
proof -
  obtain ta where ta: "update_tick (arrays ! k) i sp u = Ok ta" "arrays' = arrays[k := ta]"
    and t: "get_tick (arrays ! k) i sp = Ok t"
    using assms(1,2) by (auto simp: seq_get_tick_Ok_iff seq_update_tick_Ok_iff)
  have "array_kept (arrays ! j) (arrays[k := ta] ! j)" if "j < length arrays" for j
    using update_tick_kept [OF t ta(1) assms(3)] that by (cases "j = k") simp_all
  then show ?thesis by (simp add: ta(2) list_all2_conv_all_nth)
qed

section \<open>A sequence of arrays that accounts for the positions\<close>

definition slots_account :: "(pubkey \<rightharpoonup> position) \<Rightarrow> pubkey \<Rightarrow> u16 \<Rightarrow> tick_array list \<Rightarrow> bool" where
  "slots_account ps pk sp arrays \<longleftrightarrow> (\<forall>j < length arrays. \<forall>n < length (ticks (arrays ! j)).
     tick_accounts ps pk (start_tick_index (arrays ! j) + int n * i32_of_u16 sp) (ticks (arrays ! j) ! n))"

lemma slots_accountD:
  "slots_account ps pk sp arrays \<Longrightarrow> j < length arrays \<Longrightarrow> n < length (ticks (arrays ! j)) \<Longrightarrow>
   tick_accounts ps pk (start_tick_index (arrays ! j) + int n * i32_of_u16 sp) (ticks (arrays ! j) ! n)"
  by (simp add: slots_account_def)

lemma slots_account_kept:
  assumes "list_all2 array_kept xs ys" "slots_account ps pk sp xs"
  shows "slots_account ps pk sp ys"
  unfolding slots_account_def
proof (intro allI impI)
  fix j n assume j: "j < length ys" "n < length (ticks (ys ! j))"
  then have "array_kept (xs ! j) (ys ! j)" "length xs = length ys" using assms(1) by (auto simp: list_all2_conv_all_nth)
  then have "tick_kept (ticks (xs ! j) ! n) (ticks (ys ! j) ! n)" "start_tick_index (ys ! j) = start_tick_index (xs ! j)"
    "n < length (ticks (xs ! j))" "j < length xs" using j by (auto simp: array_kept_def list_all2_conv_all_nth)
  then show "tick_accounts ps pk (start_tick_index (ys ! j) + int n * i32_of_u16 sp) (ticks (ys ! j) ! n)"
    using slots_accountD [OF assms(2), of j n] by (simp add: tick_accounts_kept)
qed

text \<open>The ranges of a pool's positions.\<close>

definition ranges_ok :: "(pubkey \<rightharpoonup> position) \<Rightarrow> pubkey \<Rightarrow> pool \<Rightarrow> bool" where
  "ranges_ok ps pk p \<longleftrightarrow> (\<forall>k pos. ps k = Some pos \<and> position_pool pos = pk \<longrightarrow> position_range_ok p pos)"

lemma ranges_okD:
  assumes "ranges_ok ps pk p" "ps k = Some pos" "position_pool pos = pk"
  shows "tick_lower_index pos < tick_upper_index pos"
  using assms unfolding ranges_ok_def position_range_ok_def by blast

lemma live_boundary_usable:
  assumes "ranges_ok ps pk p" "live_boundary ps pk b"
  shows "\<bar>b\<bar> \<le> 443636" "i32_of_u16 (tick_spacing p) dvd b"
  using assms unfolding ranges_ok_def live_boundary_def position_range_ok_def by blast+

text \<open>An array that covers a boundary holds it as an initialised tick.\<close>

lemma live_boundary_initialized:
  assumes fin: "finite (dom ps)" and r: "ranges_ok ps pk p" and b: "live_boundary ps pk b"
    and acc: "slots_account ps pk (tick_spacing p) arrays" and v: "seq_valid arrays (tick_spacing p)"
    and j: "j < length arrays" "start_tick_index (arrays ! j) \<le> b" "b < start_tick_index (arrays ! j) + 88 * i32_of_u16 (tick_spacing p)"
  obtains n where "n < 88" "b = start_tick_index (arrays ! j) + int n * i32_of_u16 (tick_spacing p)"
    "tick_initialized (ticks (arrays ! j) ! n)"
proof -
  let ?r = "i32_of_u16 (tick_spacing p)" and ?s = "start_tick_index (arrays ! j)"
  note va = tick_array_validD [OF seq_validD [OF v j(1)]]
  obtain m where n: "m < 88" "b = ?s + int m * ?r"
    by (rule covered_slot [OF seq_validD [OF v j(1)] live_boundary_usable(2) [OF r b] j(2,3)])
  have "tick_accounts ps pk b (ticks (arrays ! j) ! m)"
    using slots_accountD [OF acc j(1), of m] n va(1) by simp
  moreover have "0 < sum_of ps pk (gross_part b)" by (rule live_gross [OF fin b])
  ultimately have "tick_initialized (ticks (arrays ! j) ! m)" by (auto simp: tick_accounts_def)
  with n show thesis by (rule that)
qed

section \<open>The search visits every boundary\<close>

text \<open>
  The arrays that the search visits cover the ticks it passes over, and the array where it ends
  covers the tick it returns. Going up, the first array may begin up to one tick spacing above
  the start, where there is no usable tick.
\<close>

definition covered :: "tick_array list \<Rightarrow> u16 \<Rightarrow> nat \<Rightarrow> nat \<Rightarrow> i32 \<Rightarrow> bool" where
  "covered arrays sp k k' u \<longleftrightarrow> (\<exists>j. k \<le> j \<and> j \<le> k' \<and> start_tick_index (arrays ! j) \<le> u \<and>
     u < start_tick_index (arrays ! j) + 88 * i32_of_u16 sp)"

lemma coveredI:
  "start_tick_index (arrays ! k) \<le> u \<Longrightarrow> u < start_tick_index (arrays ! k) + 88 * i32_of_u16 sp \<Longrightarrow> k \<le> k' \<Longrightarrow>
   covered arrays sp k k' u"
  by (auto simp: covered_def)

lemma covered_Suc: "covered arrays sp (k + 1) k' u \<Longrightarrow> covered arrays sp k k' u"
  unfolding covered_def by (meson add_leD1)

text \<open>The search loop unfolded once, in an array that is valid.\<close>

lemma seq_next_loop_step:
  assumes "tick_array_valid (arrays ! k) sp" "seq_next_loop arrays sp atb s k = Ok (k', t)"
  shows "\<exists>r. k < length arrays \<and> get_next_init_tick_index (arrays ! k) s sp atb = Ok r \<and>
    (case r of
       Some i \<Rightarrow> k' = k \<and> t = i
     | None \<Rightarrow>
         if atb \<and> start_tick_index (arrays ! k) \<le> -443636 then k' = k \<and> t = -443636
         else if \<not> atb \<and> 443636 < start_tick_index (arrays ! k) + 88 * i32_of_u16 sp then k' = k \<and> t = 443636
         else if k + 1 = length arrays then k' = k \<and> t = (if atb then start_tick_index (arrays ! k)
           else start_tick_index (arrays ! k) + 88 * i32_of_u16 sp - 1)
         else seq_next_loop arrays sp atb (if atb then start_tick_index (arrays ! k) - 1
           else start_tick_index (arrays ! k) + 88 * i32_of_u16 sp - 1) (k + 1) = Ok (k', t))"
proof -
  note u = assms(2) [unfolded seq_next_loop.simps [of arrays sp atb s k] Let_def array_end [OF assms(1)]]
  then have k: "k < length arrays" by (simp split: if_splits)
  then obtain r where r: "get_next_init_tick_index (arrays ! k) s sp atb = Ok r"
    using u by (auto simp: and_then_Inr_iff)
  have "case r of
       Some i \<Rightarrow> k' = k \<and> t = i
     | None \<Rightarrow>
         if atb \<and> start_tick_index (arrays ! k) \<le> -443636 then k' = k \<and> t = -443636
         else if \<not> atb \<and> 443636 < start_tick_index (arrays ! k) + 88 * i32_of_u16 sp then k' = k \<and> t = 443636
         else if k + 1 = length arrays then k' = k \<and> t = (if atb then start_tick_index (arrays ! k)
           else start_tick_index (arrays ! k) + 88 * i32_of_u16 sp - 1)
         else seq_next_loop arrays sp atb (if atb then start_tick_index (arrays ! k) - 1
           else start_tick_index (arrays ! k) + 88 * i32_of_u16 sp - 1) (k + 1) = Ok (k', t)"
    using u k unfolding r MIN_TICK_INDEX_def MAX_TICK_INDEX_def by (cases r) (auto split: if_splits)
  with k r show ?thesis by blast
qed

lemma seq_next_loop_covers_down:
  assumes v: "seq_valid arrays sp"
    and "seq_next_loop arrays sp True s k = Ok (k', t)" "-443636 \<le> s"
  shows "start_tick_index (arrays ! k') \<le> t \<and> t < start_tick_index (arrays ! k') + 88 * i32_of_u16 sp \<and>
    (\<forall>u. t \<le> u \<and> u \<le> s \<longrightarrow> covered arrays sp k k' u)"
  using assms(2,3)
proof (induction "length arrays - k" arbitrary: s k)
  case 0
  then show ?case by (subst (asm) seq_next_loop.simps) simp
next
  case (Suc m)
  let ?ta = "arrays ! k"
  have k: "k < length arrays" using Suc.hyps(2) by simp
  then have va: "tick_array_valid ?ta sp" by (rule seq_validD [OF v])
  obtain r where r: "get_next_init_tick_index ?ta s sp True = Ok r"
    and c: "case r of Some i \<Rightarrow> k' = k \<and> t = i
      | None \<Rightarrow> if start_tick_index ?ta \<le> -443636 then k' = k \<and> t = -443636
          else if k + 1 = length arrays then k' = k \<and> t = start_tick_index ?ta
          else seq_next_loop arrays sp True (start_tick_index ?ta - 1) (k + 1) = Ok (k', t)"
    using seq_next_loop_step [OF va Suc.prems(1), simplified simp_thms if_True if_False] by blast
  have rng: "start_tick_index ?ta \<le> s" "s < start_tick_index ?ta + 88 * i32_of_u16 sp"
    using get_next_range [OF r] by (simp_all add: in_search_range_iff [OF va])
  have "t \<le> s" using seq_next_loop_down [of arrays sp s k k' t] v Suc.prems by (simp add: seq_valid_def list_all_iff)
  have here: ?case if "k' = k" "start_tick_index ?ta \<le> t"
    using that rng \<open>t \<le> s\<close> by (intro conjI allI impI) (simp_all, rule coveredI, simp_all)
  consider (found) "k' = k" "r = Some t" | (last) "k' = k" "t = -443636 \<and> start_tick_index ?ta \<le> -443636 \<or> t = start_tick_index ?ta"
    | (rec) "seq_next_loop arrays sp True (start_tick_index ?ta - 1) (k + 1) = Ok (k', t)" "\<not> start_tick_index ?ta \<le> -443636"
    using c by (auto split: option.splits if_splits)
  then show ?case
  proof cases
    case found
    then have "initialized_at ?ta sp t" using get_next_init_tick_index_down [OF va, of s] get_next_range [OF r] r by auto
    then show ?thesis using here found initialized_at_range(1) [OF va] by blast
  next
    case last
    then show ?thesis using here by auto
  next
    case rec
    have "m = length arrays - (k + 1)" "-443636 \<le> start_tick_index ?ta - 1" using Suc.hyps(2) rec(2) by arith+
    note ih = Suc.hyps(1) [OF this(1) rec(1) this(2)]
    have kk: "k + 1 \<le> k'" using seq_next_loop_index [OF rec(1)] by simp
    have "covered arrays sp k k' u" if "t \<le> u" "u \<le> s" for u
    proof (cases "start_tick_index ?ta \<le> u")
      case True
      show ?thesis by (rule coveredI) (use True that rng kk in simp_all)
    next
      case False
      show ?thesis by (rule covered_Suc) (use ih that False in simp)
    qed
    then show ?thesis using ih by blast
  qed
qed

lemma seq_next_loop_covers_up:
  assumes v: "seq_valid arrays sp"
    and "seq_next_loop arrays sp False s k = Ok (k', t)" "s < 443636"
  shows "t < start_tick_index (arrays ! k') + 88 * i32_of_u16 sp \<and>
    (\<forall>u. s < u \<and> u \<le> t \<and> i32_of_u16 sp dvd u \<longrightarrow> covered arrays sp k k' u) \<and>
    (i32_of_u16 sp dvd t \<longrightarrow> start_tick_index (arrays ! k') \<le> t)"
  using assms(2,3)
proof (induction "length arrays - k" arbitrary: s k)
  case 0
  then show ?case by (subst (asm) seq_next_loop.simps) simp
next
  case (Suc m)
  let ?ta = "arrays ! k" and ?r = "i32_of_u16 sp"
  have k: "k < length arrays" using Suc.hyps(2) by simp
  then have va: "tick_array_valid ?ta sp" by (rule seq_validD [OF v])
  obtain r where r: "get_next_init_tick_index ?ta s sp False = Ok r"
    and c: "case r of Some i \<Rightarrow> k' = k \<and> t = i
      | None \<Rightarrow> if 443636 < start_tick_index ?ta + 88 * ?r then k' = k \<and> t = 443636
          else if k + 1 = length arrays then k' = k \<and> t = start_tick_index ?ta + 88 * ?r - 1
          else seq_next_loop arrays sp False (start_tick_index ?ta + 88 * ?r - 1) (k + 1) = Ok (k', t)"
    using seq_next_loop_step [OF va Suc.prems(1), simplified simp_thms if_True if_False] by blast
  have rng: "start_tick_index ?ta - ?r \<le> s" "s < start_tick_index ?ta + 88 * ?r - ?r"
    using get_next_range [OF r] by (simp_all add: in_search_range_iff [OF va])
  have first: "start_tick_index ?ta \<le> u" if "s < u" "?r dvd u" for u
  proof (rule ccontr)
    assume "\<not> start_tick_index ?ta \<le> u"
    moreover have "?r dvd start_tick_index ?ta - u" using tick_array_validD(5) [OF va] that(2) by (rule dvd_diff)
    ultimately have "?r \<le> start_tick_index ?ta - u" by (intro zdvd_imp_le) simp_all
    then show False using rng(1) that(1) by linarith
  qed
  have "s < t" using seq_next_loop_up [of arrays sp s k k' t] v Suc.prems by (simp add: seq_valid_def list_all_iff)
  have here: ?case if "k' = k" "t < start_tick_index ?ta + 88 * ?r"
  proof (intro conjI allI impI)
    fix u assume u: "s < u \<and> u \<le> t \<and> ?r dvd u"
    show "covered arrays sp k k' u" by (rule coveredI) (use u first [of u] that in simp_all)
  qed (use that first [of t] \<open>s < t\<close> in simp_all)
  consider (found) "k' = k" "r = Some t"
    | (last) "k' = k" "t = 443636 \<and> 443636 < start_tick_index ?ta + 88 * ?r \<or> t = start_tick_index ?ta + 88 * ?r - 1"
    | (rec) "seq_next_loop arrays sp False (start_tick_index ?ta + 88 * ?r - 1) (k + 1) = Ok (k', t)"
        "\<not> 443636 < start_tick_index ?ta + 88 * ?r"
    using c by (auto split: option.splits if_splits)
  then show ?case
  proof cases
    case found
    then have "initialized_at ?ta sp t" using get_next_init_tick_index_up [OF va, of s] get_next_range [OF r] r by auto
    then show ?thesis using here found initialized_at_range(2) [OF va] by blast
  next
    case last
    then show ?thesis using here by auto
  next
    case rec
    have "m = length arrays - (k + 1)" "start_tick_index ?ta + 88 * ?r - 1 < 443636" using Suc.hyps(2) rec(2) by arith+
    note ih = Suc.hyps(1) [OF this(1) rec(1) this(2)]
    have kk: "k + 1 \<le> k'" using seq_next_loop_index [OF rec(1)] by simp
    have "covered arrays sp k k' u" if "s < u" "u \<le> t" "?r dvd u" for u
    proof (cases "u < start_tick_index ?ta + 88 * ?r")
      case True
      show ?thesis by (rule coveredI) (use True that first [of u] kk in simp_all)
    next
      case False
      show ?thesis by (rule covered_Suc) (use ih that False in simp)
    qed
    then show ?thesis using ih by blast
  qed
qed

text \<open>No position with liquidity begins or ends between the start of the search and the tick it
  returns.\<close>

lemma search_skips_no_boundary:
  assumes fin: "finite (dom ps)" and r: "ranges_ok ps pk p" and b: "live_boundary ps pk b"
    and acc: "slots_account ps pk (tick_spacing p) arrays" and v: "seq_valid arrays (tick_spacing p)"
    and n: "seq_next_loop arrays (tick_spacing p) atb s k = Ok (k', i)" "if atb then -443636 \<le> s else s < 443636"
  shows "\<not> (if atb then i < b \<and> b \<le> s else s < b \<and> b < i)"
proof
  assume between: "if atb then i < b \<and> b \<le> s else s < b \<and> b < i"
  have va: "\<forall>ta\<in>set arrays. tick_array_valid ta (tick_spacing p)" using v by (simp add: seq_valid_def list_all_iff)
  have "covered arrays (tick_spacing p) k k' b"
    using seq_next_loop_covers_down [OF v, of s k k' i] seq_next_loop_covers_up [OF v, of s k k' i] n between
      live_boundary_usable(2) [OF r b] by (cases atb) auto
  then obtain j where j: "k \<le> j" "j \<le> k'" "start_tick_index (arrays ! j) \<le> b"
    "b < start_tick_index (arrays ! j) + 88 * i32_of_u16 (tick_spacing p)" unfolding covered_def by blast
  have len: "j < length arrays" using seq_next_loop_index [OF n(1)] j(2) by simp
  obtain m where "m < 88" "b = start_tick_index (arrays ! j) + int m * i32_of_u16 (tick_spacing p)"
    "tick_initialized (ticks (arrays ! j) ! m)"
    by (rule live_boundary_initialized [OF fin r b acc v len j(3,4)])
  then have init: "initialized_at (arrays ! j) (tick_spacing p) b"
    using tick_array_validD(1) [OF seq_validD [OF v len]] by (auto simp: initialized_at_iff)
  show False
  proof (cases atb)
    case True
    then have "b \<le> i" using seq_next_loop_down [OF va, of s k k' i] n between init j(1,2) by auto
    then show False using between True by simp
  next
    case False
    then have "i \<le> b" using seq_next_loop_up [OF va, of s k k' i] n between init j(1,2) by auto
    then show False using between False by simp
  qed
qed

section \<open>Crossing a tick\<close>

lemma seq_tick_account:
  assumes "slots_account ps pk sp arrays" "seq_valid arrays sp" "seq_get_tick arrays k i sp = Ok t"
  shows "tick_accounts ps pk i t"
proof -
  have k: "k < length arrays" "get_tick (arrays ! k) i sp = Ok t" using assms(3) by (simp_all add: seq_get_tick_Ok_iff)
  note va = seq_validD [OF assms(2) k(1)]
  obtain n where "n < 88" "i = start_tick_index (arrays ! k) + int n * i32_of_u16 sp" "t = ticks (arrays ! k) ! n"
    using k(2) tick_position_iff [OF va] by (auto simp: get_tick_def and_then_Inr_iff)
  then show ?thesis using slots_accountD [OF assms(1) k(1), of n] tick_array_validD(1) [OF va] by simp
qed

lemma swap_cross_OkE:
  assumes "swap_cross p infos atb k i st = Ok st'"
  obtains (skip) "st' = st" "\<And>t. seq_get_tick (swap_arrays st) k i (tick_spacing p) = Ok t \<Longrightarrow> \<not> tick_initialized t"
  | (cross) t u ga gb where "seq_get_tick (swap_arrays st) k i (tick_spacing p) = Ok t"
      "next_tick_cross_update t ga gb infos = Ok u"
      "add_liquidity_delta (curr_liquidity st) (if atb then wrap_i128 (- liquidity_net t) else liquidity_net t) = Ok (curr_liquidity st')"
      "seq_update_tick (swap_arrays st) k i (tick_spacing p) u = Ok (swap_arrays st')"
  using assms
  by (auto simp: swap_cross_def calculate_update_def and_then_Inr_iff Let_def split: sum.splits fault.splits if_splits)

lemma cross_accounts:
  assumes fin: "finite (dom ps)" and r: "ranges_ok ps pk p"
    and acc: "slots_account ps pk (tick_spacing p) (swap_arrays st)" and v: "seq_valid (swap_arrays st) (tick_spacing p)"
    and k: "k < length (swap_arrays st)"
    and i: "i32_of_u16 (tick_spacing p) dvd i \<Longrightarrow> start_tick_index (swap_arrays st ! k) \<le> i"
      "i < start_tick_index (swap_arrays st ! k) + 88 * i32_of_u16 (tick_spacing p)"
    and bound: "sum_of ps pk liquidity_of < 2 ^ 127"
    and x: "swap_cross p infos atb k i st = Ok st'"
  shows "int (unat (curr_liquidity st')) = int (unat (curr_liquidity st)) +
      (if atb then - sum_of ps pk (net_part i) else sum_of ps pk (net_part i))"
    "list_all2 array_kept (swap_arrays st) (swap_arrays st')"
proof -
  let ?N = "sum_of ps pk (net_part i)"
  have N: "in_signed 128 ?N" "in_signed 128 (- ?N)"
    using net_bound [of ps pk i] ranges_okD [OF r] bound by (simp_all add: abs_le_iff)
  have "int (unat (curr_liquidity st')) = int (unat (curr_liquidity st)) + (if atb then - ?N else ?N) \<and>
    list_all2 array_kept (swap_arrays st) (swap_arrays st')"
    using x
  proof (cases rule: swap_cross_OkE)
    case skip
    have "\<not> live_boundary ps pk i"
    proof
      assume b: "live_boundary ps pk i"
      obtain n where n: "n < 88" "i = start_tick_index (swap_arrays st ! k) + int n * i32_of_u16 (tick_spacing p)"
        "tick_initialized (ticks (swap_arrays st ! k) ! n)"
        by (rule live_boundary_initialized [OF fin r b acc v k]) (use i live_boundary_usable(2) [OF r b] in blast)+
      then have "tick_position (swap_arrays st ! k) i (tick_spacing p) = Ok n"
        using tick_position_iff [OF seq_validD [OF v k]] live_boundary_usable(1) [OF r b] by blast
      then show False using skip(2) [of "ticks (swap_arrays st ! k) ! n"] n k
        by (simp add: seq_get_tick_Ok_iff get_tick_def)
    qed
    then have "?N = 0" by (rule dead_net)
    then show ?thesis using skip by (simp add: list_all2_refl)
  next
    case (cross t u ga gb)
    have net: "liquidity_net t = ?N" using seq_tick_account [OF acc v cross(1)] by (simp add: tick_accounts_def)
    have "tick_kept t u" using cross_keeps_liquidity [OF cross(2)] by (simp add: tick_kept_def)
    moreover have "wrap_i128 (- ?N) = - ?N" by (rule wrap_signed_id) (use N in simp_all)
    ultimately show ?thesis
      using seq_update_kept [OF cross(1,4)] add_liquidity_delta_Ok [OF cross(3)] N by (cases atb) (simp_all add: net)
  qed
  then show "int (unat (curr_liquidity st')) = int (unat (curr_liquidity st)) + (if atb then - ?N else ?N)"
    "list_all2 array_kept (swap_arrays st) (swap_arrays st')" by blast+
qed

section \<open>The loop\<close>

text \<open>The ledger of a swap in progress: its liquidity is that of the positions around its tick.\<close>

definition loop_accounts :: "(pubkey \<rightharpoonup> position) \<Rightarrow> pubkey \<Rightarrow> pool \<Rightarrow> swap_state \<Rightarrow> bool" where
  "loop_accounts ps pk p st \<longleftrightarrow> int (unat (curr_liquidity st)) = sum_of ps pk (active_part (curr_tick_index st)) \<and>
     slots_account ps pk (tick_spacing p) (swap_arrays st)"

text \<open>A price strictly between the current one and that of the tick ahead belongs to a tick between
  the two.\<close>

lemma converted_tick_between:
  assumes m: "price_matches_tick q c" and b: "beyond atb q q'" "beyond atb q' tp" "q' \<noteq> q" "q' \<noteq> tp"
    and i: "\<bar>i\<bar> \<le> 443636" "if atb then i \<le> c else c < i" "unat tp = tick_price i"
    and bounds: "MIN_SQRT_PRICE_X64 \<le> q'" "q' \<le> MAX_SQRT_PRICE_X64"
    and t: "tick_index_from_sqrt_price q' = Ok c'"
  shows "if atb then i \<le> c' \<and> c' \<le> c else c \<le> c' \<and> c' < i"
proof (rule tick_index_bracket [OF bounds])
  fix u assume "tick_index_from_sqrt_price q' = Ok u" and r: "-443636 \<le> u" "u \<le> 443636" "tick_price u \<le> unat q'"
    "u < 443636 \<Longrightarrow> unat q' < tick_price (u + 1)"
  then have u: "u = c'" using t by simp
  note m' = m [unfolded price_matches_tick_iff]
  have strict: "if atb then unat tp < unat q' \<and> unat q' < unat q else unat q < unat q' \<and> unat q' < unat tp"
    using b unfolding beyond_def by (auto simp flip: word_less_nat_alt)
  show ?thesis
  proof (cases atb)
    case True
    have "i \<le> u"
    proof (rule ccontr)
      assume "\<not> i \<le> u"
      then have "tick_price (u + 1) \<le> tick_price i" "u < 443636" using r i by (auto intro!: tick_price_mono)
      then show False using r(4) strict True i(3) by simp
    qed
    moreover have "u \<le> c"
    proof (rule ccontr)
      assume "\<not> u \<le> c"
      then have "tick_price (c + 1) \<le> tick_price u" "c < 443636" using r m' by (auto intro!: tick_price_mono)
      then show False using r(3) strict True m' by simp
    qed
    ultimately show ?thesis using True u by simp
  next
    case False
    have "u < i"
    proof (rule ccontr)
      assume "\<not> u < i"
      then have "tick_price i \<le> tick_price u" using r i by (intro tick_price_mono) auto
      then show False using r(3) strict False i(3) by simp
    qed
    moreover have "c \<le> u"
    proof (rule ccontr)
      assume "\<not> c \<le> u"
      then have "tick_price (u + 1) \<le> tick_price c" "u < 443636" "-443636 \<le> c" using r m' by (auto intro!: tick_price_mono)
      then show False using r(4) strict False m' by simp
    qed
    ultimately show ?thesis using False u by simp
  qed
qed

lemma swap_iteration_accounts:
  assumes c: "on_course p lmt atb st" and ne: "lmt \<noteq> curr_sqrt_price st"
    and l: "MIN_SQRT_PRICE_X64 \<le> lmt" "lmt \<le> MAX_SQRT_PRICE_X64"
    and it: "swap_iteration p infos lmt inp atb st = Ok st'"
    and fin: "finite (dom ps)" and rg: "ranges_ok ps pk p" and bound: "sum_of ps pk liquidity_of < 2 ^ 127"
    and acc: "loop_accounts ps pk p st"
  shows "loop_accounts ps pk p st' \<and> list_all2 array_kept (swap_arrays st) (swap_arrays st')"
proof (rule swap_iteration_OkE [OF it])
  let ?q = "curr_sqrt_price st" and ?c = "curr_tick_index st" and ?xs = "swap_arrays st"
  let ?active = "\<lambda>c. sum_of ps pk (active_part c)"
  fix k i tp target step st1 pf g
  assume n: "seq_get_next_initialized_tick_index ?xs ?c (tick_spacing p) atb (curr_array_index st) = Ok (k, i)"
    and gp: "get_next_sqrt_prices i lmt atb = Ok (tp, target)"
    and cs: "compute_swap (amount_remaining st) (fee_rate p) (curr_liquidity st) (curr_sqrt_price st) target
       inp atb = Ok step"
    and am: "swap_amounts inp step st = Ok st1"
    and br: "if next_price step = tp then
       \<exists>st2. swap_cross p infos atb k i (st1\<lparr>curr_protocol_fee := pf, curr_fee_growth_global_input := g\<rparr>) = Ok st2 \<and>
         (\<exists>offset. seq_get_tick_offset (swap_arrays st2) k i (tick_spacing p) = Ok offset \<and>
           curr_liquidity st' = curr_liquidity st2 \<and> swap_arrays st' = swap_arrays st2 \<and>
           curr_array_index st' = (if atb \<and> offset = 0 \<or> \<not> atb \<and> offset = 87 then k + 1 else k) \<and>
           curr_tick_index st' = (if atb then wrap_i32 (i - 1) else i))
     else curr_liquidity st' = curr_liquidity st \<and> swap_arrays st' = swap_arrays st \<and>
       curr_array_index st' = curr_array_index st \<and>
       (if next_price step \<noteq> curr_sqrt_price st
        then tick_index_from_sqrt_price (next_price step) = Ok (curr_tick_index st')
        else curr_tick_index st' = curr_tick_index st)"
  note t = course_target [OF c ne l n gp]
  have n': "seq_next_loop ?xs (tick_spacing p) atb ?c (curr_array_index st) = Ok (k, i)"
    using n by (simp add: seq_get_next_initialized_tick_index_def)
  have st1: "curr_liquidity st1 = curr_liquidity st" "swap_arrays st1 = ?xs"
    using am by (auto simp: swap_amounts_def and_then_Inr_iff split: if_splits)
  have v: "seq_valid ?xs (tick_spacing p)" using c by (simp add: on_course_def)
  have books: "int (unat (curr_liquidity st)) = ?active ?c" "slots_account ps pk (tick_spacing p) ?xs"
    using acc by (simp_all add: loop_accounts_def)
  have start: "if atb then -443636 \<le> ?c else ?c < 443636" using t(7) by (auto split: if_splits)
  have free: "\<not> live_boundary ps pk b" if "if atb then i < b \<and> b \<le> ?c else ?c < b \<and> b < i" for b
    using search_skips_no_boundary [OF fin rg _ books(2) v n' start] that by blast
  show ?thesis
  proof (cases "next_price step = tp")
    case True
    then obtain st2 where x: "swap_cross p infos atb k i (st1\<lparr>curr_protocol_fee := pf, curr_fee_growth_global_input := g\<rparr>) = Ok st2"
      and st': "curr_liquidity st' = curr_liquidity st2" "swap_arrays st' = swap_arrays st2"
        "curr_tick_index st' = (if atb then i - 1 else i)" using br t(1) by (auto simp: abs_le_iff)
    have inside: "i32_of_u16 (tick_spacing p) dvd i \<Longrightarrow> start_tick_index (?xs ! k) \<le> i"
      "i < start_tick_index (?xs ! k) + 88 * i32_of_u16 (tick_spacing p)"
      using seq_next_loop_covers_down [OF v, of ?c "curr_array_index st" k i] n' start
        seq_next_loop_covers_up [OF v, of ?c "curr_array_index st" k i] by (cases atb; auto)+
    have xs: "slots_account ps pk (tick_spacing p) (swap_arrays (st1\<lparr>curr_protocol_fee := pf, curr_fee_growth_global_input := g\<rparr>))"
      "seq_valid (swap_arrays (st1\<lparr>curr_protocol_fee := pf, curr_fee_growth_global_input := g\<rparr>)) (tick_spacing p)"
      using books(2) v by (simp_all add: st1)
    note y = cross_accounts [OF fin rg xs _ _ _ bound x, simplified, unfolded st1, OF _ inside]
    have kept: "list_all2 array_kept ?xs (swap_arrays st')"
      and liq: "int (unat (curr_liquidity st')) = ?active ?c + (if atb then - sum_of ps pk (net_part i) else sum_of ps pk (net_part i))"
      using y seq_next_loop_index [OF n'] st' books(1) by simp_all
    have cross: "?active i = ?active (i - 1) + sum_of ps pk (net_part i)"
      by (rule active_cross) (rule ranges_okD [OF rg])
    have "int (unat (curr_liquidity st')) = ?active (curr_tick_index st')"
    proof (cases atb)
      case True
      then have "?active i = ?active ?c" using free t(2) by (intro active_same) auto
      then show ?thesis using liq cross True st' by simp
    next
      case False
      then have "?active ?c = ?active (i - 1)" using free t(2) by (intro active_same) auto
      then show ?thesis using liq cross False st' by simp
    qed
    then show ?thesis using kept slots_account_kept [OF kept books(2)] by (simp add: loop_accounts_def)
  next
    case False
    then have st': "curr_liquidity st' = curr_liquidity st" "swap_arrays st' = ?xs"
      "if next_price step \<noteq> ?q then tick_index_from_sqrt_price (next_price step) = Ok (curr_tick_index st')
        else curr_tick_index st' = ?c" using br by simp_all
    have "?active (curr_tick_index st') = ?active ?c"
    proof (cases "next_price step = ?q")
      case True
      then show ?thesis using st'(3) by simp
    next
      case moved: False
      have "toward atb ?q ?q target" using t(4) by (simp add: toward_beyond)
      from compute_swap_toward [OF cs this] have q: "beyond atb ?q (next_price step)" "beyond atb (next_price step) target"
        unfolding toward_beyond by blast+
      have "beyond atb target tp" using gp by (auto simp: get_next_sqrt_prices_def and_then_Inr_iff beyond_def)
      with q(2) have tp: "beyond atb (next_price step) tp" by (rule beyond_trans)
      have "beyond atb (next_price step) lmt" by (rule beyond_trans [OF q(2) t(5)])
      then have bounds: "MIN_SQRT_PRICE_X64 \<le> next_price step" "next_price step \<le> MAX_SQRT_PRICE_X64"
        using q l c unfolding on_course_def price_matches_tick_def beyond_def by (auto split: if_splits)
      have m: "price_matches_tick ?q ?c" using c by (simp add: on_course_def)
      have "if atb then i \<le> curr_tick_index st' \<and> curr_tick_index st' \<le> ?c else ?c \<le> curr_tick_index st' \<and> curr_tick_index st' < i"
        by (rule converted_tick_between [OF m q(1) tp moved False t(1-3) bounds]) (use st'(3) moved in simp)
      then show ?thesis
        using free active_same [of "curr_tick_index st'" ?c ps pk] active_same [of ?c "curr_tick_index st'" ps pk]
        by (cases atb) auto
    qed
    then show ?thesis using books st' by (simp add: loop_accounts_def list_all2_refl)
  qed
qed

lemma swap_accounts:
  assumes sw: "swap p arrays amount lmt inp atb ts = Ok (upd, arrays')"
    and v: "seq_valid arrays (tick_spacing p)" and m: "price_matches_tick (sqrt_price p) (tick_current_index p)"
    and fin: "finite (dom ps)" and rg: "ranges_ok ps pk p" and bound: "sum_of ps pk liquidity_of < 2 ^ 127"
    and acc: "slots_account ps pk (tick_spacing p) arrays"
      "int (unat (pool_liquidity p)) = sum_of ps pk (active_part (tick_current_index p))"
  shows "int (unat (next_liquidity upd)) = sum_of ps pk (active_part (next_tick_index upd))"
    "list_all2 array_kept arrays arrays'"
proof -
  obtain infos st where s: "MIN_SQRT_PRICE_X64 \<le> lmt" "lmt \<le> MAX_SQRT_PRICE_X64"
    "if atb then lmt \<le> sqrt_price p else sqrt_price p \<le> lmt"
    "swap_loop (swap_fuel arrays) p infos lmt inp atb (swap_start p arrays amount atb) = Ok st"
    "next_liquidity upd = curr_liquidity st" "next_tick_index upd = curr_tick_index st" "arrays' = swap_arrays st"
    by (rule swap_OkE [OF sw])
  let ?P = "\<lambda>st. on_course p lmt atb st \<and> loop_accounts ps pk p st \<and> list_all2 array_kept arrays (swap_arrays st)"
  have "?P (swap_start p arrays amount atb)"
    using v m s(3) acc by (simp add: on_course_def swap_start_def beyond_def loop_accounts_def list_all2_refl)
  moreover have "?P st''"
    if "?P st'" "lmt \<noteq> curr_sqrt_price st'" "swap_iteration p infos lmt inp atb st' = Ok st''" for st' st''
    using swap_iteration_course(1) [OF _ that(2) s(1,2) that(3)]
      swap_iteration_accounts [OF _ that(2) s(1,2) that(3) fin rg bound] that(1) seq_kept_trans by blast
  ultimately have "?P st \<and> (amount_remaining st = 0 \<or> curr_sqrt_price st = lmt)"
    by (intro swap_loop_invariant [where P = ?P, OF s(4)])
  then show "int (unat (next_liquidity upd)) = sum_of ps pk (active_part (next_tick_index upd))"
    "list_all2 array_kept arrays arrays'"
    using s(5-7) by (simp_all add: loop_accounts_def)
qed

end
