(* ===== verification/Liquidity_Ledger.thy ===== *)
theory Liquidity_Ledger
  imports Swap_Ledger
begin

text \<open>
  The books of the market: in every state of a run, the liquidity of a pool and the entries of
  its ticks are those of its positions.
\<close>

section \<open>Positions with the same stakes\<close>

text \<open>What a position holds of its pool; a position without liquidity holds nothing.\<close>

definition stake :: "position option \<Rightarrow> (pubkey \<times> i32 \<times> i32 \<times> u128) option" where
  "stake x = (case x of None \<Rightarrow> None | Some pos \<Rightarrow> if position_liquidity pos = 0 then None
     else Some (position_pool pos, tick_lower_index pos, tick_upper_index pos, position_liquidity pos))"

definition same_stakes :: "(pubkey \<rightharpoonup> position) \<Rightarrow> (pubkey \<rightharpoonup> position) \<Rightarrow> bool" where
  "same_stakes ps ps' \<longleftrightarrow> finite (dom ps) \<and> finite (dom ps') \<and> (\<forall>k. stake (ps' k) = stake (ps k))"

lemma stake_simps [simp]:
  "stake None = None"
  "position_liquidity pos = 0 \<Longrightarrow> stake (Some pos) = None"
  "position_liquidity pos \<noteq> 0 \<Longrightarrow> stake (Some pos) =
     Some (position_pool pos, tick_lower_index pos, tick_upper_index pos, position_liquidity pos)"
  by (simp_all add: stake_def)

lemma same_stakes_refl: "finite (dom ps) \<Longrightarrow> same_stakes ps ps"
  by (simp add: same_stakes_def)

lemma same_stakes_upd:
  "finite (dom ps) \<Longrightarrow> stake (ps k) = stake (Some pos') \<Longrightarrow> same_stakes ps (ps(k \<mapsto> pos'))"
  "finite (dom ps) \<Longrightarrow> stake (ps k) = None \<Longrightarrow> same_stakes ps (ps(k := None))"
  by (simp_all add: same_stakes_def)

text \<open>
  A weight of positions that only depends on the stake: positions with the same stakes have the
  same sums of it. The four parts of the ledger are such weights.
\<close>

locale stake_weight =
  fixes weight :: "position \<Rightarrow> int"
  assumes weight_none: "position_liquidity pos = 0 \<Longrightarrow> weight pos = 0"
    and weight_same: "stake (Some pos) = stake (Some pos') \<Longrightarrow> weight pos = weight pos'"
begin

lemma weight_of_stake:
  "(case x of None \<Rightarrow> 0 | Some pos \<Rightarrow> if position_pool pos = pk then weight pos else 0) =
   (case stake x of None \<Rightarrow> 0 | Some (q, _) \<Rightarrow> if q = pk then weight (the x) else 0)"
  by (cases x) (simp_all add: stake_def weight_none)

lemma sum_over:
  assumes "finite A" "dom ps \<subseteq> A"
  shows "sum_of ps pk weight = (\<Sum>k\<in>A. case ps k of None \<Rightarrow> 0 | Some pos \<Rightarrow> if position_pool pos = pk then weight pos else 0)"
  unfolding sum_of_def using assms by (intro sum.mono_neutral_cong_left) (auto split: option.splits)

lemma sum_of_stakes:
  assumes s: "same_stakes ps ps'"
  shows "sum_of ps' pk weight = sum_of ps pk weight"
proof -
  let ?A = "dom ps \<union> dom ps'"
  let ?g = "\<lambda>x. case x of None \<Rightarrow> 0 | Some pos \<Rightarrow> if position_pool pos = pk then weight pos else 0"
  have fin: "finite ?A" using s by (simp add: same_stakes_def)
  have "?g (ps' k) = ?g (ps k)" for k
  proof -
    have eq: "stake (ps' k) = stake (ps k)" using s by (simp add: same_stakes_def)
    have "weight (the (ps' k)) = weight (the (ps k))" if some: "stake (ps k) \<noteq> None"
    proof -
      obtain pos pos' where "ps k = Some pos" "ps' k = Some pos'" using some eq by (cases "ps k"; cases "ps' k") auto
      then show ?thesis using weight_same [of pos' pos] eq by simp
    qed
    then show ?thesis unfolding weight_of_stake eq by (auto split: option.splits)
  qed
  then show ?thesis by (simp add: sum_over [OF fin])
qed

end

lemma stake_weightI:
  assumes g: "\<And>l u. g l u 0 = 0" and f: "\<And>pos. f pos = g (tick_lower_index pos) (tick_upper_index pos) (liquidity_of pos)"
  shows "stake_weight f"
proof
  fix pos pos' :: position
  show none: "f pos = 0" if "position_liquidity pos = 0" for pos using that g by (simp add: f liquidity_of_def)
  assume eq: "stake (Some pos) = stake (Some pos')"
  show "f pos = f pos'"
  proof (cases "position_liquidity pos = 0 \<or> position_liquidity pos' = 0")
    case True
    then have "position_liquidity pos = 0 \<and> position_liquidity pos' = 0" using eq by (auto simp: stake_def split: if_splits)
    then show ?thesis using none by simp
  next
    case False
    then show ?thesis using eq by (simp add: f liquidity_of_def)
  qed
qed

interpretation liquidity_weight: stake_weight liquidity_of
  by (rule stake_weightI [of "\<lambda>l u q. q"]) simp_all

interpretation active_weight: stake_weight "active_part c" for c
  by (rule stake_weightI [of "\<lambda>l u q. if l \<le> c \<and> c < u then q else 0"]) (simp_all add: active_part_def)

interpretation gross_weight: stake_weight "gross_part i" for i
  by (rule stake_weightI [of "\<lambda>l u q. (if l = i then q else 0) + (if u = i then q else 0)"]) (simp_all add: gross_part_def)

interpretation net_weight: stake_weight "net_part i" for i
  by (rule stake_weightI [of "\<lambda>l u q. (if l = i then q else 0) - (if u = i then q else 0)"]) (simp_all add: net_part_def)

lemma live_boundary_stake:
  "live_boundary ps pk i \<longleftrightarrow> (\<exists>k l u q. stake (ps k) = Some (pk, l, u, q) \<and> (l = i \<or> u = i))"
proof
  assume "live_boundary ps pk i"
  then obtain k pos where "ps k = Some pos" "position_pool pos = pk" "position_liquidity pos \<noteq> 0"
     "tick_lower_index pos = i \<or> tick_upper_index pos = i" unfolding live_boundary_def by blast
  then show "\<exists>k l u q. stake (ps k) = Some (pk, l, u, q) \<and> (l = i \<or> u = i)" by (intro exI [of _ k]) simp
next
  assume "\<exists>k l u q. stake (ps k) = Some (pk, l, u, q) \<and> (l = i \<or> u = i)"
  then show "live_boundary ps pk i" by (auto simp: stake_def split: option.splits if_splits intro: live_boundaryI)
qed

lemma live_boundary_same: "same_stakes ps ps' \<Longrightarrow> live_boundary ps' pk i = live_boundary ps pk i"
  by (simp add: live_boundary_stake same_stakes_def)

lemma boundaries_stored_iff:
  "boundaries_stored ps arrays pk sp \<longleftrightarrow> (\<forall>i. live_boundary ps pk i \<longrightarrow> has_tick arrays pk sp i)"
  unfolding boundaries_stored_def live_boundary_def by blast

section \<open>Arrays that keep their liquidity\<close>

definition store_kept :: "tick_array_store \<Rightarrow> tick_array_store \<Rightarrow> bool" where
  "store_kept arrays arrays' \<longleftrightarrow> (\<forall>k. rel_option array_kept (arrays k) (arrays' k))"

lemma store_kept_refl: "store_kept arrays arrays"
  by (simp add: store_kept_def option.rel_refl)

lemma array_kept_sym: "array_kept ta ta' \<Longrightarrow> array_kept ta' ta"
  by (auto simp: array_kept_def tick_kept_def list_all2_conv_all_nth)

lemma store_kept_sym: "store_kept arrays arrays' \<Longrightarrow> store_kept arrays' arrays"
  unfolding store_kept_def
  by (metis array_kept_sym option.rel_cases option.rel_inject(2))

lemma tick_stored_kept:
  assumes "store_kept arrays arrays'" "tick_stored arrays' pk sp i t'"
  obtains t where "tick_stored arrays pk sp i t" "tick_kept t t'"
proof -
  obtain ak ta' where a: "arrays' ak = Some ta'" "tick_in ta' pk sp i t'" using assms(2) by (auto simp: tick_stored_def)
  then obtain ta where ta: "arrays ak = Some ta" "array_kept ta ta'"
    using assms(1) by (auto simp: store_kept_def option_rel_Some2 dest!: spec [of _ ak])
  moreover obtain n where n: "n < length (ticks ta')" "i = start_tick_index ta' + int n * i32_of_u16 sp"
    "t' = ticks ta' ! n" "tick_array_pool ta' = pk" using a(2) by (auto simp: tick_in_def)
  ultimately have "tick_in ta pk sp i (ticks ta ! n)" "tick_kept (ticks ta ! n) t'"
    by (auto simp: tick_in_def array_kept_def list_all2_conv_all_nth)
  then show thesis using ta(1) that by (auto simp: tick_stored_def)
qed

lemma has_tick_kept: "store_kept arrays arrays' \<Longrightarrow> has_tick arrays' pk sp i = has_tick arrays pk sp i"
  unfolding has_tick_def by (metis store_kept_sym tick_stored_kept)

lemma addresses_kept:
  assumes "store_kept arrays arrays'" "addresses_ok addr arrays"
  shows "addresses_ok addr arrays'"
  unfolding addresses_ok_def
proof (intro allI impI)
  fix ak ta' assume "arrays' ak = Some ta'"
  then obtain ta where "arrays ak = Some ta" "array_kept ta ta'"
    using assms(1) by (auto simp: store_kept_def option_rel_Some2 dest!: spec [of _ ak])
  then show "ak = addr (tick_array_pool ta') (start_tick_index ta')"
    using addresses_okD [OF assms(2)] by (simp add: array_kept_def)
qed

section \<open>The books of a pool\<close>

definition ticks_account :: "(pubkey \<rightharpoonup> position) \<Rightarrow> tick_array_store \<Rightarrow> pubkey \<Rightarrow> u16 \<Rightarrow> bool" where
  "ticks_account ps arrays pk sp \<longleftrightarrow> (\<forall>i t. tick_stored arrays pk sp i t \<longrightarrow> tick_accounts ps pk i t) \<and>
     boundaries_stored ps arrays pk sp"

lemma pool_accounts_iff:
  "pool_accounts ps arrays pk p \<longleftrightarrow>
     int (unat (pool_liquidity p)) = sum_of ps pk (active_part (tick_current_index p)) \<and> ticks_account ps arrays pk (tick_spacing p)"
  by (simp add: pool_accounts_def ticks_account_def)

lemma ticks_account_kept:
  assumes "same_stakes ps ps'" "store_kept arrays arrays'" "ticks_account ps arrays pk sp"
  shows "ticks_account ps' arrays' pk sp"
  unfolding ticks_account_def
proof (intro conjI allI impI)
  fix i t' assume "tick_stored arrays' pk sp i t'"
  then obtain t where "tick_stored arrays pk sp i t" "tick_kept t t'" by (rule tick_stored_kept [OF assms(2)])
  then show "tick_accounts ps' pk i t'"
    using assms(3) gross_weight.sum_of_stakes [OF assms(1)] net_weight.sum_of_stakes [OF assms(1)]
    by (auto simp: ticks_account_def tick_accounts_def tick_kept_def)
next
  show "boundaries_stored ps' arrays' pk sp"
    using assms(3) by (simp add: ticks_account_def boundaries_stored_iff live_boundary_same [OF assms(1)] has_tick_kept [OF assms(2)])
qed

section \<open>The books of the market\<close>

definition array_address :: "env \<Rightarrow> pubkey \<Rightarrow> i32 \<Rightarrow> pubkey" where
  "array_address e pk start =
     fst (find_program_address e [Seed_Text ''tick_array'', Seed_Key pk, Seed_Text (int_to_string e start)])"

definition books_ok :: "(pubkey \<Rightarrow> i32 \<Rightarrow> pubkey) \<Rightarrow> nat \<Rightarrow> chain_state \<Rightarrow> bool" where
  "books_ok addr cap s \<longleftrightarrow> finite (dom (positions s)) \<and> addresses_ok addr (tick_arrays s) \<and>
     (\<forall>pk p. pools s pk = Some p \<longrightarrow> pool_accounts (positions s) (tick_arrays s) pk p) \<and>
     (\<forall>pk. sum_of (positions s) pk liquidity_of \<le> int cap)"

lemma books_okD:
  assumes "books_ok addr cap s"
  shows "finite (dom (positions s))" "addresses_ok addr (tick_arrays s)"
    "pools s pk = Some p \<Longrightarrow> pool_accounts (positions s) (tick_arrays s) pk p"
    "sum_of (positions s) pk liquidity_of \<le> int cap"
  using assms unfolding books_ok_def by blast+

lemma market_ranges: "market_ok s \<Longrightarrow> pools s pk = Some p \<Longrightarrow> ranges_ok (positions s) pk p"
  unfolding market_ok_def positions_ok_def ranges_ok_def by fastforce

lemma market_arrays: "market_ok s \<Longrightarrow> pools s pk = Some p \<Longrightarrow> pool_arrays_valid (tick_arrays s) pk (tick_spacing p)"
  unfolding market_ok_def pool_arrays_valid_def by (blast intro: arrays_ok_validD)

text \<open>Steps that change no stake, no liquidity of a tick and no liquidity or tick of a pool.\<close>

definition liquidity_kept :: "pool \<Rightarrow> pool \<Rightarrow> bool" where
  "liquidity_kept p p' \<longleftrightarrow> pool_liquidity p' = pool_liquidity p \<and> tick_current_index p' = tick_current_index p \<and>
     tick_spacing p' = tick_spacing p"

definition liquidities_kept :: "chain_state \<Rightarrow> chain_state \<Rightarrow> bool" where
  "liquidities_kept s s' \<longleftrightarrow> (\<forall>k p'. pools s' k = Some p' \<longrightarrow> (\<exists>p. pools s k = Some p \<and> liquidity_kept p p'))"

lemma liquidities_kept_frame: "pools s' = pools s \<Longrightarrow> liquidities_kept s s'"
  by (simp add: liquidities_kept_def liquidity_kept_def)

lemma liquidities_kept_upd:
  "pools s k = Some p \<Longrightarrow> liquidity_kept p p' \<Longrightarrow> pools s' = (pools s)(k \<mapsto> p') \<Longrightarrow> liquidities_kept s s'"
  by (auto simp: liquidities_kept_def liquidity_kept_def)

lemma liquidity_kept_intros:
  "update_fee_rate rate p = Ok p' \<Longrightarrow> liquidity_kept p p'"
  "update_protocol_fee_rate rate p = Ok p' \<Longrightarrow> liquidity_kept p p'"
  "initialize_reward j mint vault p = Ok p' \<Longrightarrow> liquidity_kept p p'"
  "update_reward_authority j auth p = Ok p' \<Longrightarrow> liquidity_kept p p'"
  "update_emissions j infos ts emissions p = Ok p' \<Longrightarrow> liquidity_kept p p'"
  "liquidity_kept p (reset_protocol_fees_owed p)" "liquidity_kept p (update_rewards infos ts p)"
  by (auto simp: liquidity_kept_def update_fee_rate_Ok_iff update_protocol_fee_rate_Ok_iff initialize_reward_eq Let_def
      update_reward_authority_Ok_iff update_emissions_def update_rewards_def and_then_Inr_iff
      reset_protocol_fees_owed_def split: if_splits)

lemma handlers_keep_liquidities:
  "set_fee_rate e ck pk auth rate s = Ok s' \<Longrightarrow> liquidities_kept s s'"
  "set_protocol_fee_rate e ck pk auth rate s = Ok s' \<Longrightarrow> liquidities_kept s s'"
  "collect_protocol_fees e ca s = Ok s' \<Longrightarrow> liquidities_kept s s'"
  "initialize_reward_instr e auth funder pk mk vk tp j s = Ok s' \<Longrightarrow> liquidities_kept s s'"
  "set_reward_authority e pk auth new_auth j s = Ok s' \<Longrightarrow> liquidities_kept s s'"
  "set_reward_authority_by_super_authority e ck pk auth new_auth j s = Ok s' \<Longrightarrow> liquidities_kept s s'"
  "set_reward_emissions e pk auth vk j emissions s = Ok s' \<Longrightarrow> liquidities_kept s s'"
  "update_fees_and_rewards e pk qk lk uk s = Ok s' \<Longrightarrow> liquidities_kept s s'"
  by (erule set_fee_rate_OkE set_protocol_fee_rate_OkE collect_protocol_fees_OkE initialize_reward_instr_OkE
      set_reward_authority_OkE set_reward_authority_by_super_authority_OkE set_reward_emissions_OkE
      update_fees_and_rewards_OkE,
    rule liquidities_kept_upd, assumption, (rule liquidity_kept_intros; assumption), simp)+

lemma books_kept:
  assumes "books_ok addr cap s" "same_stakes (positions s) (positions s')" "store_kept (tick_arrays s) (tick_arrays s')"
    and "liquidities_kept s s'"
  shows "books_ok addr cap s'"
  unfolding books_ok_def
proof (intro conjI allI impI)
  note b = books_okD [OF assms(1)]
  show "finite (dom (positions s'))" using assms(2) by (simp add: same_stakes_def)
  show "addresses_ok addr (tick_arrays s')" by (rule addresses_kept [OF assms(3) b(2)])
  show "sum_of (positions s') pk liquidity_of \<le> int cap" for pk
    using b(4) by (simp add: liquidity_weight.sum_of_stakes [OF assms(2)])
  fix pk p' assume "pools s' pk = Some p'"
  then obtain p where p: "pools s pk = Some p" "liquidity_kept p p'" using assms(4) unfolding liquidities_kept_def by blast
  then show "pool_accounts (positions s') (tick_arrays s') pk p'"
    using b(3) [OF p(1)] ticks_account_kept [OF assms(2,3)]
    by (simp add: pool_accounts_iff liquidity_kept_def active_weight.sum_of_stakes [OF assms(2)])
qed

section \<open>Instructions that keep the books as they are\<close>

lemma update_growths_stake:
  assumes "calculate_fee_and_reward_growths p pos arrays lk uk ts = Ok (pu, infos)"
  shows "stake (Some (position_apply_update pu pos)) = stake (Some pos)"
proof (rule calculate_growths_OkE [OF assms])
  fix lower upper upd
  assume i: "inner_calculate_modify_liquidity p pos lower upper (tick_lower_index pos) (tick_upper_index pos) 0 ts = Ok upd"
    and pu: "pu = mod_position_update upd"
  have "int (unat (upd_position_liquidity pu)) = int (unat (position_liquidity pos)) + 0"
    using add_liquidity_delta_Ok [OF inner_calculate_OkD(5) [OF i]] by (simp add: pu)
  then have "upd_position_liquidity pu = position_liquidity pos" by (simp add: word_uint_eq_iff)
  then show ?thesis by (simp add: stake_def position_apply_update_def)
qed

lemma position_ops_stake:
  "stake (Some (reset_fees_owed pos)) = stake (Some pos)"
  "update_reward_owed n owed pos = Ok pos' \<Longrightarrow> stake (Some pos') = stake (Some pos)"
  "open_position pk p mint lower upper default_position = Ok pos' \<Longrightarrow> stake (Some pos') = None"
  "is_position_empty pos \<Longrightarrow> stake (Some pos) = None"
  by (auto simp: stake_def reset_fees_owed_def update_reward_owed_def and_then_Inr_iff is_position_empty_def
      default_position_def dest: open_position_OkD(4))

text \<open>The handlers that leave pools and tick arrays alone.\<close>

lemma books_positions:
  assumes "books_ok addr cap s" "pools s' = pools s" "tick_arrays s' = tick_arrays s"
    and "positions s' = (positions s)(k := x)" "stake x = stake (positions s k)"
  shows "books_ok addr cap s'"
proof (rule books_kept [OF assms(1) _ _ liquidities_kept_frame [OF assms(2)]])
  show "same_stakes (positions s) (positions s')"
    using books_okD(1) [OF assms(1)] assms(5) by (cases x) (simp_all add: assms(4) same_stakes_def)
  show "store_kept (tick_arrays s) (tick_arrays s')" by (simp add: assms(3) store_kept_refl)
qed

lemma books_frame:
  "pools s' = pools s \<Longrightarrow> tick_arrays s' = tick_arrays s \<Longrightarrow> positions s' = positions s \<Longrightarrow> books_ok addr cap s \<Longrightarrow>
   books_ok addr cap s'"
  by (simp add: books_ok_def)

lemma position_handlers_books:
  "open_position_instr e oa lower upper s = Ok s' \<Longrightarrow> books_ok addr cap s \<Longrightarrow> books_ok addr cap s'"
  "open_position_with_metadata e oa mk mp ua lower upper s = Ok s' \<Longrightarrow> books_ok addr cap s \<Longrightarrow> books_ok addr cap s'"
  "open_bundled_position_instr e ba pk funder n lower upper s = Ok s' \<Longrightarrow> books_ok addr cap s \<Longrightarrow> books_ok addr cap s'"
  "close_position e auth receiver qk m tk program s = Ok s' \<Longrightarrow> books_ok addr cap s \<Longrightarrow> books_ok addr cap s'"
  "close_bundled_position_instr e ba receiver n s = Ok s' \<Longrightarrow> books_ok addr cap s \<Longrightarrow> books_ok addr cap s'"
  "collect_fees e fa s = Ok s' \<Longrightarrow> books_ok addr cap s \<Longrightarrow> books_ok addr cap s'"
  "collect_reward e ra j s = Ok s' \<Longrightarrow> books_ok addr cap s \<Longrightarrow> books_ok addr cap s'"
  by (erule open_position_instr_OkE open_position_with_metadata_OkE open_bundled_position_instr_OkE close_position_OkE
      close_bundled_position_instr_OkE collect_fees_OkE collect_reward_OkE,
    rule books_positions, assumption, simp, simp, simp,
    simp add: unused_def position_ops_stake(1,4) position_ops_stake(2,3))+

lemma pool_handlers_books:
  assumes "liquidities_kept s s'" "positions s' = positions s" "tick_arrays s' = tick_arrays s" "books_ok addr cap s"
  shows "books_ok addr cap s'"
  by (rule books_kept [OF assms(4) _ _ assms(1)])
    (use assms(2,3) books_okD(1) [OF assms(4)] in \<open>simp_all add: store_kept_refl same_stakes_refl\<close>)

lemma update_fees_and_rewards_books:
  assumes "update_fees_and_rewards e pk qk lk uk s = Ok s'" "books_ok addr cap s"
  shows "books_ok addr cap s'"
proof (rule books_kept [OF assms(2) _ _ handlers_keep_liquidities(8) [OF assms(1)]])
  show "store_kept (tick_arrays s) (tick_arrays s')"
    by (rule update_fees_and_rewards_OkE [OF assms(1)]) (simp add: store_kept_refl)
  show "same_stakes (positions s) (positions s')"
    by (rule update_fees_and_rewards_OkE [OF assms(1)])
      (use update_growths_stake books_okD(1) [OF assms(2)] in \<open>simp add: same_stakes_upd\<close>)
qed

section \<open>New pools and tick arrays\<close>

lemma no_positions_sum: "(\<And>k pos. ps k = Some pos \<Longrightarrow> position_pool pos \<noteq> pk) \<Longrightarrow> sum_of ps pk f = 0"
  unfolding sum_of_def by (rule sum.neutral) (auto simp: dom_def)

lemma initialize_pool_books:
  assumes "initialize_pool e a spacing price s = Ok s'" "market_ok s" "books_ok addr cap s"
  shows "books_ok addr cap s'"
proof (rule initialize_pool_OkE [OF assms(1)])
  fix c p l' bump rate
  assume new: "unused s (ip_pool a)"
    and p: "pool_initialize (ip_pools_config a) c bump spacing price rate (ip_token_mint_a a) (ip_token_vault_a a)
       (ip_token_mint_b a) (ip_token_vault_b a) default_pool = Ok p"
    and s': "s' = s\<lparr>pools := (pools s)(ip_pool a \<mapsto> p), tokens := l'\<rparr>"
  have none: "position_pool pos \<noteq> ip_pool a" if "positions s k = Some pos" for k pos
    using assms(2) that new unfolding market_ok_def positions_ok_def unused_def by fastforce
  have no_array: "tick_array_pool ta \<noteq> ip_pool a" if "tick_arrays s k = Some ta" for k ta
    using assms(2) that new unfolding market_ok_def arrays_ok_def unused_def by fastforce
  have "pool_liquidity p = 0"
    using p by (auto simp: pool_initialize_def and_then_Inr_iff default_pool_def split: if_splits)
  then have "pool_accounts (positions s) (tick_arrays s) (ip_pool a) p"
    using none no_array no_positions_sum [of "positions s" "ip_pool a"]
    by (auto simp: pool_accounts_def boundaries_stored_def tick_stored_def tick_in_def)
  then show ?thesis using assms(3) by (auto simp: s' books_ok_def)
qed

lemma initialize_tick_array_books:
  assumes "initialize_tick_array e pk funder ak start s = Ok s'" "market_ok s" "books_ok (array_address e) cap s"
  shows "books_ok (array_address e) cap s'"
proof -
  note b = books_okD [OF assms(3)]
  obtain p ta where p: "pools s pk = Some p" and new: "unused s ak"
    and ta: "tick_array_initialize pk p start default_tick_array = Ok ta"
    and s': "s' = s\<lparr>tick_arrays := (tick_arrays s)(ak \<mapsto> ta)\<rparr>"
    by (rule initialize_tick_array_OkE [OF assms(1)])
  have address: "array_address e pk start = ak"
    using assms(1) by (auto simp: initialize_tick_array_def and_then_Inr_iff array_address_def)
  have ta_ids: "tick_array_pool ta = pk" "start_tick_index ta = start" "ticks ta = ticks default_tick_array"
    using ta by (auto simp: tick_array_initialize_def and_then_Inr_iff split: if_splits)
  have blank: "t = default_tick" if "tick_in ta qk sp i t" for qk sp i t
    using that by (auto simp: tick_in_def ta_ids default_tick_array_def)
  have va: "tick_array_valid ta (tick_spacing p)" using tick_array_initialize_valid [OF ta] by blast
  have stored: "tick_stored (tick_arrays s') qk sp i t \<longleftrightarrow> tick_in ta qk sp i t \<or> tick_stored (tick_arrays s) qk sp i t" for qk sp i t
  proof -
    have "tick_arrays s ak = None" using new by (simp add: unused_def)
    then have "tick_stored (tick_arrays s) qk sp i t \<longleftrightarrow>
        (\<exists>x tx. x \<noteq> ak \<and> tick_arrays s x = Some tx \<and> tick_in tx qk sp i t)"
      unfolding tick_stored_def by (metis option.distinct(1))
    then show ?thesis by (simp add: s' stored_upd)
  qed
  have dead: "\<not> live_boundary (positions s) pk i" if i: "tick_in ta pk (tick_spacing p) i t" for i t
  proof
    assume "live_boundary (positions s) pk i"
    then have "has_tick (tick_arrays s) pk (tick_spacing p) i"
      using b(3) [OF p] by (simp add: pool_accounts_def boundaries_stored_iff)
    then obtain bk tb m where tb: "tick_arrays s bk = Some tb" "tick_array_pool tb = pk" "m < length (ticks tb)"
      "i = start_tick_index tb + int m * i32_of_u16 (tick_spacing p)"
      unfolding has_tick_def by (blast elim: tick_stored_cases)
    have vb: "tick_array_valid tb (tick_spacing p)" by (rule pool_arrays_validD [OF market_arrays [OF assms(2) p] tb(1,2)])
    obtain n where n: "n < length (ticks ta)" "i = start_tick_index ta + int n * i32_of_u16 (tick_spacing p)"
      using i by (auto simp: tick_in_def)
    have "start_tick_index ta = start_tick_index tb"
      by (rule same_start [OF va vb, of i]) (use slot_range [OF va n(1)] slot_range [OF vb tb(3)] n(2) tb(4) in simp_all)
    then have "bk = ak" using addresses_okD [OF b(2) tb(1)] tb(2) ta_ids address by simp
    then show False using new tb(1) by (simp add: unused_def)
  qed
  show ?thesis
    unfolding books_ok_def
  proof (intro conjI allI impI)
    show "finite (dom (positions s'))" "\<And>pk. sum_of (positions s') pk liquidity_of \<le> int cap" using b by (simp_all add: s')
    show "addresses_ok (array_address e) (tick_arrays s')"
      using b(2) address ta_ids by (auto simp: s' addresses_ok_def)
    fix qk q assume "pools s' qk = Some q"
    then have q: "pools s qk = Some q" by (simp add: s')
    have "tick_accounts (positions s) qk i t" if "tick_in ta qk (tick_spacing q) i t" for i t
    proof -
      have qk: "qk = pk" using that ta_ids by (simp add: tick_in_def)
      then have "\<not> live_boundary (positions s) qk i" using dead that p q by simp
      then have "sum_of (positions s) qk (gross_part i) = 0" "sum_of (positions s) qk (net_part i) = 0"
        using dead_gross dead_net by simp_all
      then show ?thesis using blank [OF that] by (simp add: tick_accounts_def default_tick_def)
    qed
    then show "pool_accounts (positions s') (tick_arrays s') qk q"
      using b(3) [OF q] unfolding pool_accounts_def stored boundaries_stored_iff has_tick_def by (auto simp: s')
  qed
qed

section \<open>Changes of liquidity\<close>

lemma modify_liquidity_books:
  assumes acc: "modify_liquidity_accounts_ok e a s = Ok (p, pos, token)"
    and calc: "calculate_modify_liquidity p pos (tick_arrays s) (ml_tick_array_lower a) (ml_tick_array_upper a) d ts = Ok upd"
      "d \<noteq> 0" "in_signed 128 d"
    and sync: "sync_modify_liquidity_values p pos (tick_arrays s) (ml_tick_array_lower a) (ml_tick_array_upper a)
       upd ts' = Ok (p', pos', arrays)"
    and s': "s' = s\<lparr>pools := (pools s)(ml_pool a \<mapsto> p'), positions := (positions s)(ml_position a \<mapsto> pos'),
           tick_arrays := arrays, tokens := l\<rparr>"
    and m: "market_ok s" and b: "books_ok addr cap s" and cap: "int cap + d \<le> int cap'" "cap \<le> cap'"
  shows "books_ok addr cap' s'"
proof -
  note k = modify_liquidity_accounts_OkD [OF acc] and b' = books_okD [OF b]
  obtain la ua where la: "tick_arrays s (ml_tick_array_lower a) = Some la" "tick_array_pool la = ml_pool a"
    and ua: "tick_arrays s (ml_tick_array_upper a) = Some ua" "tick_array_pool ua = ml_pool a" using k by blast
  have p: "pools s (ml_pool a) = Some p" and pos: "positions s (ml_position a) = Some pos" "position_pool pos = ml_pool a"
    using k by blast+
  have order: "tick_lower_index pos < tick_upper_index pos" by (rule ranges_okD [OF market_ranges [OF m p] pos])
  note y = sync_accounts [OF b'(1) pos order b'(2) market_arrays [OF m p] la ua calc sync b'(3) [OF p]]
  show ?thesis
    unfolding books_ok_def
  proof (intro conjI allI impI)
    show "finite (dom (positions s'))" "addresses_ok addr (tick_arrays s')" using b'(1) y(2) by (simp_all add: s')
    fix qk
    show "sum_of (positions s') qk liquidity_of \<le> int cap'"
      using b'(4) [of qk] cap y(4) sum_of_update [where f = liquidity_of, OF b'(1) pos y(5)]
      by (cases "qk = ml_pool a") (simp_all add: s')
    fix q assume "pools s' qk = Some q"
    then consider "qk = ml_pool a" "q = p'" | "qk \<noteq> ml_pool a" "pools s qk = Some q" by (auto simp: s' split: if_splits)
    then show "pool_accounts (positions s') (tick_arrays s') qk q"
      using y(1) y(3) [OF _ b'(3)] by cases (simp_all add: s')
  qed
qed

lemma liquidity_delta_range:
  assumes "convert_to_liquidity_delta amount positive = Ok d" "amount \<noteq> 0"
  shows "d = (if positive then int (unat amount) else - int (unat amount))" "d \<noteq> 0" "in_signed 128 d"
proof -
  show d: "d = (if positive then int (unat amount) else - int (unat amount))"
    using assms(1) by (simp add: convert_to_liquidity_delta_spec split: if_splits)
  define n where "n = int (unat amount)"
  have "unat amount < 2 ^ 127" using assms(1) by (simp add: convert_to_liquidity_delta_spec split: if_splits)
  then have n: "n < 2 ^ 127" unfolding n_def by (metis of_nat_less_iff of_nat_numeral of_nat_power)
  have n0: "0 < n" unfolding n_def of_nat_0_less_iff using assms(2) by (simp add: unat_gt_0)
  show "d \<noteq> 0" "in_signed 128 d" using n n0 d unfolding n_def [symmetric] by simp_all
qed

lemma increase_liquidity_books:
  assumes "increase_liquidity e a amount x y s = Ok s'" "market_ok s" "books_ok addr cap s"
  shows "books_ok addr (cap + unat amount) s'"
  by (rule increase_liquidity_OkE [OF assms(1)],
    rule modify_liquidity_books [OF _ _ liquidity_delta_range(2,3) _ _ assms(2,3)], assumption+)
    (auto dest!: liquidity_delta_range(1))

lemma decrease_liquidity_books:
  assumes "decrease_liquidity e a amount x y s = Ok s'" "market_ok s" "books_ok addr cap s"
  shows "books_ok addr cap s'"
  by (rule decrease_liquidity_OkE [OF assms(1)],
    rule modify_liquidity_books [OF _ _ liquidity_delta_range(2,3) _ _ assms(2,3)], assumption+)
    (auto dest!: liquidity_delta_range(1))

section \<open>Swaps\<close>

lemma books_swapped:
  assumes b: "books_ok addr cap s" and same: "positions s' = positions s" and kept: "store_kept (tick_arrays s) (tick_arrays s')"
    and p: "\<And>k p'. pools s' k = Some p' \<Longrightarrow> \<exists>p. pools s k = Some p \<and> tick_spacing p' = tick_spacing p \<and>
      int (unat (pool_liquidity p')) = sum_of (positions s) k (active_part (tick_current_index p'))"
  shows "books_ok addr cap s'"
  unfolding books_ok_def
proof (intro conjI allI impI)
  note b' = books_okD [OF b]
  show "finite (dom (positions s'))" "\<And>pk. sum_of (positions s') pk liquidity_of \<le> int cap" using b' by (simp_all add: same)
  show "addresses_ok addr (tick_arrays s')" by (rule addresses_kept [OF kept b'(2)])
  fix k p' assume "pools s' k = Some p'"
  then obtain q where "pools s k = Some q" "tick_spacing p' = tick_spacing q"
    "int (unat (pool_liquidity p')) = sum_of (positions s) k (active_part (tick_current_index p'))" using p by blast
  then show "pool_accounts (positions s') (tick_arrays s') k p'"
    using b'(3) [of k q] ticks_account_kept [OF same_stakes_refl [OF b'(1)] kept] by (simp add: pool_accounts_iff same)
qed

lemma store_sequence_kept:
  assumes "store_kept store store'" "map store keys = map Some arrays" "list_all2 array_kept arrays arrays'"
  shows "store_kept store (store_sequence keys arrays' store')"
  unfolding store_kept_def store_sequence_def
proof
  fix k
  show "rel_option array_kept (store k) ((store' ++ map_of (zip keys arrays')) k)"
  proof (cases "map_of (zip keys arrays') k")
    case None
    then show ?thesis using assms(1) by (simp add: store_kept_def map_add_def)
  next
    case (Some ta')
    then obtain n where n: "n < length keys" "n < length arrays'" "keys ! n = k" "arrays' ! n = ta'"
      by (auto dest!: map_of_SomeD simp: set_zip)
    have "length keys = length arrays" using assms(2) by (metis length_map)
    then have "store k = Some (arrays ! n)" using arg_cong [OF assms(2), of "\<lambda>xs. xs ! n"] n by simp
    moreover have "array_kept (arrays ! n) ta'" using assms(3) n by (auto simp: list_all2_conv_all_nth)
    ultimately show ?thesis using Some by (simp add: map_add_def)
  qed
qed

lemma loaded_swap_accounts:
  assumes load: "load_sequence (tick_arrays s) borrowed k0 k1 k2 = Ok (keys, arrays)"
    and pool: "\<forall>k \<in> {k0, k1, k2}. \<exists>ta. tick_arrays s k = Some ta \<and> tick_array_pool ta = pk" "pools s pk = Some p"
    and sw: "swap p arrays amount lmt inp atb ts = Ok (upd, arrays')"
    and m: "market_ok s" "prices_ok s" and b: "books_ok addr cap s" and cap: "cap < 2 ^ 127"
  shows "int (unat (next_liquidity upd)) = sum_of (positions s) pk (active_part (next_tick_index upd))"
    "list_all2 array_kept arrays arrays'"
proof -
  note b' = books_okD [OF b] and acc = books_okD(3) [OF b pool(2)]
  have ok: "arrays_ok (pools s) (tick_arrays s)" using m(1) by (simp add: market_ok_def)
  note own = loaded_sequence_ok [OF load ok pool]
  have stored: "tick_arrays s (keys ! j) = Some (arrays ! j)" if "j < length arrays" for j
    using arg_cong [OF load_sequence_OkD(5) [OF load], of "\<lambda>xs. xs ! j"] load_sequence_OkD(1) [OF load] that by simp
  have slots: "slots_account (positions s) pk (tick_spacing p) arrays"
    unfolding slots_account_def
  proof (intro allI impI)
    fix j n assume j: "j < length arrays" "n < length (ticks (arrays ! j))"
    have "tick_in (arrays ! j) pk (tick_spacing p) (start_tick_index (arrays ! j) + int n * i32_of_u16 (tick_spacing p)) (ticks (arrays ! j) ! n)"
      unfolding tick_in_def using own(1) [OF j(1)] j(2) by blast
    then show "tick_accounts (positions s) pk (start_tick_index (arrays ! j) + int n * i32_of_u16 (tick_spacing p)) (ticks (arrays ! j) ! n)"
      using acc stored [OF j(1)] unfolding pool_accounts_def tick_stored_def by blast
  qed
  have priced: "price_matches_tick (sqrt_price p) (tick_current_index p)"
    using m(2) pool(2) by (simp add: prices_ok_def pool_priced_def)
  have bound: "sum_of (positions s) pk liquidity_of < 2 ^ 127"
    by (rule le_less_trans [OF b'(4)]) (use cap in \<open>metis of_nat_less_iff of_nat_numeral of_nat_power\<close>)
  have active: "int (unat (pool_liquidity p)) = sum_of (positions s) pk (active_part (tick_current_index p))"
    using acc by (simp add: pool_accounts_def)
  show "int (unat (next_liquidity upd)) = sum_of (positions s) pk (active_part (next_tick_index upd))"
    "list_all2 array_kept arrays arrays'"
    by (rule swap_accounts [OF sw own(2) priced b'(1) market_ranges [OF m(1) pool(2)] bound slots active])+
qed

lemma swap_instr_books:
  assumes "swap_instr e a amount threshold lmt is_input a_to_b s = Ok s'"
    and m: "market_ok s" "prices_ok s" and b: "books_ok addr cap s" and cap: "cap < 2 ^ 127"
  shows "books_ok addr cap s'"
proof (rule swap_instr_OkE [OF assms(1)])
  fix p timestamp keys arrays upd arrays' l'
  assume p: "pools s (sw_pool a) = Some p"
    and own: "\<forall>k \<in> {sw_tick_array_0 a, sw_tick_array_1 a, sw_tick_array_2 a}.
       \<exists>ta. tick_arrays s k = Some ta \<and> tick_array_pool ta = sw_pool a"
    and load: "load_sequence (tick_arrays s) [] (sw_tick_array_0 a) (sw_tick_array_1 a) (sw_tick_array_2 a)
       = Ok (keys, arrays)"
    and sw: "swap p arrays amount lmt is_input a_to_b timestamp = Ok (upd, arrays')"
    and s': "s' = s\<lparr>pools := (pools s)(sw_pool a \<mapsto>
            update_after_swap (next_liquidity upd) (next_tick_index upd) (next_sqrt_price upd)
              (next_fee_growth_global upd) (next_reward_infos upd) (next_protocol_fee upd)
              a_to_b timestamp p),
           tick_arrays := store_sequence keys arrays' (tick_arrays s), tokens := l'\<rparr>"
  note y = loaded_swap_accounts [OF load own p sw m b cap]
  show ?thesis
  proof (rule books_swapped [OF b])
    show "store_kept (tick_arrays s) (tick_arrays s')"
      using store_sequence_kept [OF store_kept_refl load_sequence_OkD(5) [OF load] y(2)] by (simp add: s')
    fix k p' assume "pools s' k = Some p'"
    then show "\<exists>p. pools s k = Some p \<and> tick_spacing p' = tick_spacing p \<and>
      int (unat (pool_liquidity p')) = sum_of (positions s) k (active_part (tick_current_index p'))"
      using y(1) p books_okD(3) [OF b] by (auto simp: s' update_after_swap_def Let_def pool_accounts_def split: if_splits)
  qed (simp add: s')
qed

lemma two_hop_swap_books:
  assumes "two_hop_swap e a amount threshold is_input one two limit1 limit2 s = Ok s'"
    and m: "market_ok s" "prices_ok s" and b: "books_ok addr cap s" and cap: "cap < 2 ^ 127"
  shows "books_ok addr cap s'"
proof (rule two_hop_swap_OkE [OF assms(1)])
  fix p1 p2 timestamp keys1 keys2 arrays1 arrays2 upd1 upd2 arrays1' arrays2' p1' p2' l l'
  assume acc: "two_hop_accounts_ok e a s = Ok (p1, p2)"
    and k1: "load_sequence (tick_arrays s) [] (th_tick_array_one_0 a) (th_tick_array_one_1 a)
       (th_tick_array_one_2 a) = Ok (keys1, arrays1)"
    and k2: "load_sequence (tick_arrays s) keys1 (th_tick_array_two_0 a) (th_tick_array_two_1 a)
       (th_tick_array_two_2 a) = Ok (keys2, arrays2)"
    and c: "two_hop_calculation p1 p2 arrays1 arrays2 amount limit1 limit2 is_input one two timestamp =
       Ok ((upd1, arrays1'), (upd2, arrays2'))"
    and u1: "update_and_swap_pool e (th_pool_one a) p1 (th_token_authority a)
       (th_token_owner_account_one_a a) (th_token_owner_account_one_b a)
       (th_token_vault_one_a a) (th_token_vault_one_b a) upd1 one timestamp (tokens s) = Ok (p1', l)"
    and u2: "update_and_swap_pool e (th_pool_two a) p2 (th_token_authority a)
       (th_token_owner_account_two_a a) (th_token_owner_account_two_b a)
       (th_token_vault_two_a a) (th_token_vault_two_b a) upd2 two timestamp l = Ok (p2', l')"
    and s': "s' = s\<lparr>pools := (pools s)(th_pool_one a \<mapsto> p1', th_pool_two a \<mapsto> p2'),
           tick_arrays := store_sequence keys2 arrays2' (store_sequence keys1 arrays1' (tick_arrays s)),
           tokens := l'\<rparr>"
  note own = two_hop_accounts_OkD [OF acc]
  have p: "pools s (th_pool_one a) = Some p1" "pools s (th_pool_two a) = Some p2" using own(1) by blast+
  have y1: "int (unat (next_liquidity upd1)) = sum_of (positions s) (th_pool_one a) (active_part (next_tick_index upd1))
      \<and> list_all2 array_kept arrays1 arrays1'"
    by (rule two_hop_calculation_OkE [OF c]) (use loaded_swap_accounts [OF k1 own(2) p(1) _ m b cap] in blast)
  have y2: "int (unat (next_liquidity upd2)) = sum_of (positions s) (th_pool_two a) (active_part (next_tick_index upd2))
      \<and> list_all2 array_kept arrays2 arrays2'"
    by (rule two_hop_calculation_OkE [OF c]) (use loaded_swap_accounts [OF k2 own(3) p(2) _ m b cap] in blast)
  have p': "tick_spacing p1' = tick_spacing p1 \<and> pool_liquidity p1' = next_liquidity upd1 \<and> tick_current_index p1' = next_tick_index upd1"
    "tick_spacing p2' = tick_spacing p2 \<and> pool_liquidity p2' = next_liquidity upd2 \<and> tick_current_index p2' = next_tick_index upd2"
    by (rule update_and_swap_pool_OkE [OF u1], simp add: update_after_swap_def Let_def)
      (rule update_and_swap_pool_OkE [OF u2], simp add: update_after_swap_def Let_def)
  show ?thesis
  proof (rule books_swapped [OF b])
    have "store_kept (tick_arrays s) (store_sequence keys1 arrays1' (tick_arrays s))"
      by (rule store_sequence_kept [OF store_kept_refl load_sequence_OkD(5) [OF k1] conjunct2 [OF y1]])
    then show "store_kept (tick_arrays s) (tick_arrays s')"
      using store_sequence_kept [OF _ load_sequence_OkD(5) [OF k2] conjunct2 [OF y2]] by (simp add: s')
    fix k p' assume "pools s' k = Some p'"
    then show "\<exists>p. pools s k = Some p \<and> tick_spacing p' = tick_spacing p \<and>
      int (unat (pool_liquidity p')) = sum_of (positions s) k (active_part (tick_current_index p'))"
      using y1 y2 p p' books_okD(3) [OF b] by (auto simp: s' pool_accounts_def split: if_splits)
  qed (simp add: s')
qed

end
