(* ===== verification/Market_Books.thy ===== *)
theory Market_Books
  imports Liquidity_Ledger Sample_Chain
begin

text \<open>
  The books of every state that a run of instructions reaches, and what follows for a position:
  its liquidity can always be taken out again.
\<close>

section \<open>Runs\<close>

text \<open>
  A run of successful instructions on one platform: the derivation of addresses and the decimal
  text of an integer are the same for all of them; the clock, the signatures and the token
  programs are each instruction's own. The number is the liquidity that the run has added to positions.
\<close>

definition same_platform :: "env \<Rightarrow> env \<Rightarrow> bool" where
  "same_platform e0 e \<longleftrightarrow> find_program_address e = find_program_address e0 \<and> int_to_string e = int_to_string e0"

definition added_liquidity :: "instruction \<Rightarrow> nat" where
  "added_liquidity i = (case i of IncreaseLiquidity a amount max_a max_b \<Rightarrow> unat amount | _ \<Rightarrow> 0)"

inductive market_run :: "env \<Rightarrow> nat \<Rightarrow> chain_state \<Rightarrow> bool" for e0 where
  start: "market_run e0 0 (empty_chain l)"
| step: "market_run e0 n s \<Longrightarrow> same_platform e0 e \<Longrightarrow> process e i s = Ok s' \<Longrightarrow>
    market_run e0 (n + added_liquidity i) s'"

lemma market_run_reachable: "market_run e0 n s \<Longrightarrow> reachable s"
  by (induction rule: market_run.induct) (auto intro: reachable.intros chain_step.intros)

lemma market_run_run:
  "market_run e n s \<Longrightarrow> run e is s = Ok s' \<Longrightarrow> market_run e (n + sum_list (map added_liquidity is)) s'"
proof (induction "is" arbitrary: n s)
  case (Cons i "is")
  then obtain s1 where s1: "process e i s = Ok s1" "run e is s1 = Ok s'" by (auto simp: and_then_Inr_iff simp del: process.simps)
  have "market_run e (n + added_liquidity i) s1"
    by (rule market_run.step [OF Cons.prems(1) _ s1(1)]) (simp add: same_platform_def)
  from Cons.IH [OF this s1(2)] show ?case by (simp add: add.assoc)
qed simp

lemma array_address_platform: "same_platform e0 e \<Longrightarrow> array_address e = array_address e0"
  by (intro ext) (simp add: array_address_def same_platform_def)

lemma books_empty: "books_ok addr 0 (empty_chain l)"
  by (simp add: books_ok_def empty_chain_def addresses_ok_def)

lemmas books_frame_OkE =
  initialize_config_OkE initialize_fee_tier_OkE set_default_fee_rate_OkE set_fee_authority_OkE
  set_collect_protocol_fees_authority_OkE set_reward_emissions_super_authority_OkE
  set_default_protocol_fee_rate_OkE initialize_position_bundle_OkE
  initialize_position_bundle_with_metadata_OkE delete_position_bundle_OkE

lemmas pool_only_OkE =
  set_fee_rate_OkE set_protocol_fee_rate_OkE collect_protocol_fees_OkE initialize_reward_instr_OkE
  set_reward_authority_OkE set_reward_authority_by_super_authority_OkE set_reward_emissions_OkE

lemma pool_only_books:
  "set_fee_rate e ck pk auth rate s = Ok s' \<Longrightarrow> books_ok addr cap s \<Longrightarrow> books_ok addr cap s'"
  "set_protocol_fee_rate e ck pk auth rate s = Ok s' \<Longrightarrow> books_ok addr cap s \<Longrightarrow> books_ok addr cap s'"
  "collect_protocol_fees e ca s = Ok s' \<Longrightarrow> books_ok addr cap s \<Longrightarrow> books_ok addr cap s'"
  "initialize_reward_instr e auth funder pk mk vk tp j s = Ok s' \<Longrightarrow> books_ok addr cap s \<Longrightarrow> books_ok addr cap s'"
  "set_reward_authority e pk auth new_auth j s = Ok s' \<Longrightarrow> books_ok addr cap s \<Longrightarrow> books_ok addr cap s'"
  "set_reward_authority_by_super_authority e ck pk auth new_auth j s = Ok s' \<Longrightarrow> books_ok addr cap s \<Longrightarrow> books_ok addr cap s'"
  "set_reward_emissions e pk auth vk j emissions s = Ok s' \<Longrightarrow> books_ok addr cap s \<Longrightarrow> books_ok addr cap s'"
  by (frule handlers_keep_liquidities, erule pool_only_OkE, erule pool_handlers_books, simp, simp, assumption)+

lemma books_step:
  assumes i: "process e i s = Ok s'" and plat: "same_platform e0 e" and m: "market_ok s" "prices_ok s"
    and b: "books_ok (array_address e0) n s" and n: "n < 2 ^ 127"
  shows "books_ok (array_address e0) (n + added_liquidity i) s'"
proof -
  note b' = b [folded array_address_platform [OF plat]]
  show ?thesis
    unfolding array_address_platform [OF plat, symmetric]
    by (insert i, cases i; simp add: added_liquidity_def;
      (erule swap_instr_books [OF _ m b' n] two_hop_swap_books [OF _ m b' n] initialize_pool_books [OF _ m(1) b']
         initialize_tick_array_books [OF _ m(1) b'] increase_liquidity_books [OF _ m(1) b']
         decrease_liquidity_books [OF _ m(1) b'] update_fees_and_rewards_books [OF _ b']
         position_handlers_books [OF _ b'] pool_only_books [OF _ b'] |
       (erule books_frame_OkE, rule books_frame [OF _ _ _ b'], simp, simp, simp)))
qed

lemma market_run_books: "market_run e0 n s \<Longrightarrow> n < 2 ^ 127 \<Longrightarrow> books_ok (array_address e0) n s"
proof (induction rule: market_run.induct)
  case (start l)
  show ?case by (rule books_empty)
next
  case (step n s e i s')
  have n: "n < 2 ^ 127" using step.prems by simp
  have r: "market_ok s \<and> prices_ok s" by (rule reachable_prices [OF market_run_reachable [OF step.hyps(1)]])
  show ?case by (rule books_step [OF step.hyps(3,2) _ _ step.IH [OF n] n]) (use r in blast)+
qed

section \<open>Taking liquidity out\<close>

lemma add_withdrawal:
  assumes "in_signed 128 d" "d \<le> 0" "0 \<le> int (unat x) + d"
  obtains y where "add_liquidity_delta x d = Ok y"
proof -
  have "int (unat x) < 2 ^ 128" using unat_less_size [of x] by (simp flip: of_nat_less_iff [where 'a = int])
  then have "add_liquidity_delta x d = Ok (of_int (int (unat x) + d))"
    unfolding add_liquidity_delta_spec [OF assms(1)] Let_def using assms(2,3) by simp
  then show thesis by (rule that)
qed

lemma tick_withdrawal:
  assumes acc: "tick_accounts ps pk i t" and d: "in_signed 128 d" "d \<le> 0" "0 \<le> sum_of ps pk (gross_part i) + d"
    and net: "in_signed 128 (sum_of ps pk (net_part i) + (if upper then - d else d))"
  obtains u where "next_tick_modify_liquidity_update t i c ga gb infos d upper = Ok u"
proof -
  obtain g where "add_liquidity_delta (liquidity_gross t) d = Ok g"
    by (rule add_withdrawal [of d "liquidity_gross t", OF d(1,2)]) (use d(3) acc in \<open>unfold tick_accounts_def, linarith\<close>)
  note g = this
  have "checked_signed 128 (if upper then liquidity_net t - d else liquidity_net t + d) =
      Some (if upper then liquidity_net t - d else liquidity_net t + d)"
    using acc net by (simp add: tick_accounts_def checked_signed_def split: if_splits del: in_signed_numerals)
  then have "\<exists>u. next_tick_modify_liquidity_update t i c ga gb infos d upper = Ok u"
    by (cases "g = 0"; cases upper) (simp_all add: next_tick_modify_liquidity_update_def g case_prod_beta Let_def)
  then show thesis using that by blast
qed

text \<open>Every part of the change can be computed: nothing underflows, and the net liquidity of both
  ticks stays in range.\<close>

lemma withdrawal_calculated:
  assumes m: "market_ok s" and b: "books_ok addr cap s" and cap: "cap < 2 ^ 127"
    and p: "pools s pk = Some p" and pos: "positions s k = Some pos" "position_pool pos = pk"
    and la: "tick_arrays s lk = Some la" "tick_array_pool la = pk" "start_tick_index la \<le> tick_lower_index pos"
      "tick_lower_index pos < start_tick_index la + 88 * i32_of_u16 (tick_spacing p)"
    and ua: "tick_arrays s uk = Some ua" "tick_array_pool ua = pk" "start_tick_index ua \<le> tick_upper_index pos"
      "tick_upper_index pos < start_tick_index ua + 88 * i32_of_u16 (tick_spacing p)"
    and d: "0 < a" "int a \<le> liquidity_of pos" and ts: "reward_last_updated_timestamp p \<le> ts"
  obtains upd p' pos' arrays' where
    "calculate_modify_liquidity p pos (tick_arrays s) lk uk (- int a) ts = Ok upd"
    "sync_modify_liquidity_values p pos (tick_arrays s) lk uk upd ts = Ok (p', pos', arrays')"
proof -
  let ?sp = "tick_spacing p" and ?l = "tick_lower_index pos" and ?u = "tick_upper_index pos" and ?d = "- int a"
  let ?ps = "positions s"
  note b' = books_okD [OF b] and acc = books_okD(3) [OF b p]
  have range: "position_range_ok p pos" using market_ranges [OF m p] pos by (auto simp: ranges_ok_def)
  then have usable: "i32_of_u16 ?sp dvd ?l" "\<bar>?l\<bar> \<le> 443636" "i32_of_u16 ?sp dvd ?u" "\<bar>?u\<bar> \<le> 443636" "?l < ?u"
    by (simp_all add: position_range_ok_def)
  note va = pool_arrays_validD [OF market_arrays [OF m p]]
  obtain n where n: "tick_position la ?l ?sp = Ok n"
    by (rule usable_tick_position [OF va [OF la(1,2)] usable(1,2) la(3,4)])
  obtain n' where n': "tick_position ua ?u ?sp = Ok n'"
    by (rule usable_tick_position [OF va [OF ua(1,2)] usable(3,4) ua(3,4)])
  have lt: "get_tick la ?l ?sp = Ok (ticks la ! n)" and ut: "get_tick ua ?u ?sp = Ok (ticks ua ! n')"
    using n n' by (simp_all add: get_tick_def)
  have accl: "tick_accounts ?ps pk ?l (ticks la ! n)" and accu: "tick_accounts ?ps pk ?u (ticks ua ! n')"
    using acc get_tick_stored [of "tick_arrays s" lk la pk ?sp, OF la(1,2) va [OF la(1,2)] lt]
      get_tick_stored [of "tick_arrays s" uk ua pk ?sp, OF ua(1,2) va [OF ua(1,2)] ut]
    by (auto simp: pool_accounts_def)
  have total: "sum_of ?ps pk liquidity_of < 2 ^ 127"
    by (rule le_less_trans [OF b'(4)]) (use cap in \<open>metis of_nat_less_iff of_nat_numeral of_nat_power\<close>)
  have "liquidity_of pos \<le> sum_of ?ps pk liquidity_of" by (rule sum_of_ge_part [OF b'(1) pos]) simp
  then have d': "in_signed 128 ?d" "?d \<le> 0" using total d by simp_all
  obtain ql where ql: "add_liquidity_delta (position_liquidity pos) ?d = Ok ql"
    by (rule add_withdrawal [of ?d "position_liquidity pos", OF d']) (use d(2) in \<open>unfold liquidity_of_def, linarith\<close>)
  define rest where "rest = pos\<lparr>position_liquidity := ql\<rparr>"
  have rest: "liquidity_of rest = liquidity_of pos + ?d" "position_pool rest = pk"
      "tick_lower_index rest = ?l" "tick_upper_index rest = ?u"
    using add_liquidity_delta_Ok [OF ql d'(1)] pos(2) by (simp_all add: rest_def liquidity_of_def)
  have net: "in_signed 128 (sum_of ?ps pk (net_part i) + (net_part i rest - net_part i pos))" for i
  proof -
    have "\<bar>sum_of (?ps(k \<mapsto> rest)) pk (net_part i)\<bar> \<le> sum_of (?ps(k \<mapsto> rest)) pk liquidity_of"
      by (rule net_bound) (use ranges_okD [OF market_ranges [OF m p]] usable(5) rest in \<open>auto split: if_splits\<close>)
    then have "\<bar>sum_of ?ps pk (net_part i) + (net_part i rest - net_part i pos)\<bar> < 2 ^ 127"
      using total rest(1) d(1) unfolding sum_of_update(1) [OF b'(1) pos rest(2)] by linarith
    then show ?thesis by (simp add: abs_less_iff)
  qed
  have part: "f pos \<le> sum_of ?ps pk f" if "\<And>pos. 0 \<le> f pos" for f by (rule sum_of_ge_part [OF b'(1) pos]) (rule that)
  have "liquidity_of pos \<le> sum_of ?ps pk (gross_part ?l)" "liquidity_of pos \<le> sum_of ?ps pk (gross_part ?u)"
    using part [of "gross_part ?l", OF gross_nonneg] part [of "gross_part ?u", OF gross_nonneg] usable(5) by (simp_all add: gross_part_def)
  then have gross: "0 \<le> sum_of ?ps pk (gross_part ?l) + ?d" "0 \<le> sum_of ?ps pk (gross_part ?u) + ?d"
    using d(2) by linarith+
  obtain infos where infos: "next_pool_reward_infos p ts = Ok infos"
    using ts by (cases "pool_liquidity p = 0 \<or> ts = reward_last_updated_timestamp p")
      (simp_all add: next_pool_reward_infos_def Let_def not_less [THEN iffD2])
  have sides: "in_signed 128 (sum_of ?ps pk (net_part ?l) + (if False then - ?d else ?d))"
    "in_signed 128 (sum_of ?ps pk (net_part ?u) + (if True then - ?d else ?d))"
    using net [of ?l] net [of ?u] usable(5) by (simp_all add: net_part_def rest del: in_signed_numerals)
  obtain lu where lu: "next_tick_modify_liquidity_update (ticks la ! n) ?l (tick_current_index p) (fee_growth_global_a p)
      (fee_growth_global_b p) infos ?d False = Ok lu"
    by (rule tick_withdrawal [OF accl d' gross(1) sides(1)])
  obtain uu where uu: "next_tick_modify_liquidity_update (ticks ua ! n') ?u (tick_current_index p) (fee_growth_global_a p)
      (fee_growth_global_b p) infos ?d True = Ok uu"
    by (rule tick_withdrawal [OF accu d' gross(2) sides(2)])
  have "active_part (tick_current_index p) pos \<le> sum_of ?ps pk (active_part (tick_current_index p))"
    by (rule part) (simp add: active_part_def)
  then have "?l \<le> tick_current_index p \<and> tick_current_index p < ?u \<Longrightarrow> 0 \<le> int (unat (pool_liquidity p)) + ?d"
    using acc d(2) unfolding pool_accounts_def active_part_def by auto
  then obtain pl where pl: "next_pool_liquidity p ?u ?l ?d = Ok pl"
    using add_withdrawal [of ?d "pool_liquidity p", OF d'] unfolding next_pool_liquidity_def by metis
  have "position_liquidity pos \<noteq> 0" using d liquidity_of_0_iff [of pos] by auto
  then obtain upd where calc: "calculate_modify_liquidity p pos (tick_arrays s) lk uk ?d ts = Ok upd"
    using infos pl lu uu ql d(1) lt ut la(1) ua(1)
    by (simp add: calculate_modify_liquidity_def load_tick_array_def inner_calculate_modify_liquidity_def
        next_position_modify_liquidity_update_def case_prod_beta Let_def)
  define la' where "la' = la\<lparr>ticks := (ticks la)[n := mod_tick_lower_update upd]\<rparr>"
  have la': "update_tick la ?l ?sp (mod_tick_lower_update upd) = Ok la'"
    unfolding update_tick_Ok_iff la'_def using n by blast
  have "tick_position la' ?u ?sp = tick_position la ?u ?sp" by (rule tick_position_same_shape) (simp_all add: la'_def)
  then obtain ua' where "update_tick (the (((tick_arrays s)(lk \<mapsto> la')) uk)) ?u ?sp (mod_tick_upper_update upd) = Ok ua'"
    using n' la(1) ua(1) by (cases "uk = lk") (auto simp: update_tick_def)
  then obtain q where "sync_modify_liquidity_values p pos (tick_arrays s) lk uk upd ts = Ok q"
    using la(1) ua(1) la' by (cases "uk = lk")
      (auto simp: sync_modify_liquidity_values_def Let_def load_tick_array_def position_apply_update_def)
  then show thesis using that [OF calc] by (cases q) auto
qed

section \<open>Sums over positions, spelled out\<close>

definition liquidity_where :: "chain_state \<Rightarrow> pubkey \<Rightarrow> (position \<Rightarrow> bool) \<Rightarrow> nat" where
  "liquidity_where s pool_key P = (\<Sum>k | \<exists>pos. positions s k = Some pos \<and> position_pool pos = pool_key \<and> P pos.
     unat (position_liquidity (the (positions s k))))"

lemma sum_of_where:
  assumes "finite (dom (positions s))"
  shows "sum_of (positions s) pk (\<lambda>pos. if P pos then liquidity_of pos else 0) = int (liquidity_where s pk P)"
proof -
  let ?Q = "\<lambda>k. position_pool (the (positions s k)) = pk \<and> P (the (positions s k))"
  have set: "{k. \<exists>pos. positions s k = Some pos \<and> position_pool pos = pk \<and> P pos} = {k \<in> dom (positions s). ?Q k}"
    by auto
  have "int (liquidity_where s pk P) = (\<Sum>k\<in>dom (positions s). if ?Q k then liquidity_of (the (positions s k)) else 0)"
    unfolding liquidity_where_def set liquidity_of_def of_nat_sum by (rule sum.inter_filter [OF assms])
  also have "\<dots> = sum_of (positions s) pk (\<lambda>pos. if P pos then liquidity_of pos else 0)"
    unfolding sum_of_def by (rule sum.cong) auto
  finally show ?thesis by simp
qed

text \<open>The liquidity of a pool is that of the positions around its current tick.\<close>

lemma active_liquidity:
  assumes "market_run e n s" "n < 2 ^ 127" "pools s k = Some p"
  shows "unat (pool_liquidity p) = liquidity_where s k
     (\<lambda>pos. tick_lower_index pos \<le> tick_current_index p \<and> tick_current_index p < tick_upper_index pos)"
proof -
  note b = market_run_books [OF assms(1,2)]
  have "int (unat (pool_liquidity p)) = sum_of (positions s) k (active_part (tick_current_index p))"
    using books_okD(3) [OF b assms(3)] by (simp add: pool_accounts_def)
  then show ?thesis unfolding active_part_def sum_of_where [OF books_okD(1) [OF b]] of_nat_eq_iff .
qed

section \<open>A sample run\<close>

lemma sample_market_run:
  obtains s4 s5 :: chain_state and p :: pool and ta :: tick_array where "market_run sample_env 1000000 s4"
    "decrease_liquidity sample_env sample_liquidity_accounts 1000000 1 1 s4 = Ok s5"
    "pools s4 1046 = Some p" "tick_arrays s4 2056 = Some ta" "tick_array_pool ta = 1046"
proof -
  obtain s1 s2 s3 s4 s5 :: chain_state where r: "run sample_env sample_market (empty_chain sample_ledger) = Ok s1"
    "process sample_env sample_open s1 = Ok s2"
    "process sample_env (IncreaseLiquidity sample_liquidity_accounts 1000000 10000 10000) s2 = Ok s3"
    "process sample_env (Swap sample_swap_accounts 1000 0 19599665578316398592 True False) s3 = Ok s4"
    "process sample_env (DecreaseLiquidity sample_liquidity_accounts 1000000 1 1) s4 = Ok s5"
    by (rule sample_states)
  have plat: "same_platform sample_env sample_env" by (simp add: same_platform_def)
  have "market_run sample_env (0 + sum_list (map added_liquidity sample_market)) s1"
    by (rule market_run_run [OF market_run.start r(1)])
  note run = market_run.step [OF market_run.step [OF market_run.step [OF this plat r(2)] plat r(3)] plat r(4)]
  have "0 + sum_list (map added_liquidity sample_market) + added_liquidity sample_open +
      added_liquidity (IncreaseLiquidity sample_liquidity_accounts 1000000 10000 10000) +
      added_liquidity (Swap sample_swap_accounts 1000 0 19599665578316398592 True False) = 1000000"
    by (simp add: sample_market_def sample_open_def added_liquidity_def)
  with run have m: "market_run sample_env 1000000 s4" by metis
  have d: "decrease_liquidity sample_env sample_liquidity_accounts 1000000 1 1 s4 = Ok s5" using r(5) by simp
  show thesis
    by (rule decrease_liquidity_OkE [OF d], drule modify_liquidity_accounts_OkD, elim conjE exE, rule that [OF m d])
      (simp_all add: sample_liquidity_accounts_def)
qed

section \<open>Properties\<close>

text \<open>C2: In every state of a run that has added less than \<open>2 ^ 127\<close> of liquidity, the liquidity of a pool
  is the sum of the liquidity of exactly those of its positions whose range holds the current tick.\<close>

theorem pool_liquidity_is_active:
  assumes "market_run e n s" "n < 2 ^ 127" "pools s k = Some p"
  shows "unat (pool_liquidity p) = liquidity_where s k
     (\<lambda>pos. tick_lower_index pos \<le> tick_current_index p \<and> tick_current_index p < tick_upper_index pos)"
  by (rule active_liquidity [OF assms])

lemma pool_liquidity_is_active_witness:
  "\<exists>s p. market_run sample_env 1000000 s \<and> pools s 1046 = Some p \<and> unat (pool_liquidity p) = liquidity_where s 1046
     (\<lambda>pos. tick_lower_index pos \<le> tick_current_index p \<and> tick_current_index p < tick_upper_index pos)"
proof -
  obtain s s5 :: chain_state and p and ta :: tick_array where r: "market_run sample_env 1000000 s" "pools s 1046 = Some p"
    by (rule sample_market_run)
  show ?thesis using r pool_liquidity_is_active [OF r(1) _ r(2)] by auto
qed

text \<open>C3: In every such state, each tick that an array holds counts the positions that begin or end at it:
  its gross liquidity is the liquidity of all of them, its net liquidity that of the positions that
  begin at it less that of the positions that end at it, and it is initialised exactly
  when its gross liquidity is not zero.\<close>

theorem tick_entries_account_for_positions:
  assumes "market_run e n s" "n < 2 ^ 127" "pools s k = Some p"
    and "tick_arrays s ak = Some ta" "tick_array_pool ta = k" "m < 88"
  shows "let i = start_tick_index ta + int m * i32_of_u16 (tick_spacing p); t = ticks ta ! m;
      begins = liquidity_where s k (\<lambda>pos. tick_lower_index pos = i);
      ends = liquidity_where s k (\<lambda>pos. tick_upper_index pos = i)
    in unat (liquidity_gross t) = begins + ends \<and> liquidity_net t = int begins - int ends \<and>
       (tick_initialized t \<longleftrightarrow> 0 < begins + ends)"
proof -
  let ?i = "start_tick_index ta + int m * i32_of_u16 (tick_spacing p)" and ?t = "ticks ta ! m"
  note b = market_run_books [OF assms(1,2)]
  note fin = books_okD(1) [OF b]
  have v: "tick_array_valid ta (tick_spacing p)"
    using reachable_prices [OF market_run_reachable [OF assms(1)]] market_arrays [OF _ assms(3)] pool_arrays_validD assms(4,5) by blast
  have "tick_in ta k (tick_spacing p) ?i ?t" unfolding tick_in_def using assms(5,6) tick_array_validD(1) [OF v] by auto
  then have a: "tick_accounts (positions s) k ?i ?t"
    using books_okD(3) [OF b assms(3)] assms(4) unfolding pool_accounts_def tick_stored_def by blast
  have g: "int (unat (liquidity_gross ?t)) = int (liquidity_where s k (\<lambda>pos. tick_lower_index pos = ?i)) +
      int (liquidity_where s k (\<lambda>pos. tick_upper_index pos = ?i))"
    using a unfolding tick_accounts_def gross_part_def sum_of_add sum_of_where [OF fin] by blast
  have n: "liquidity_net ?t = int (liquidity_where s k (\<lambda>pos. tick_lower_index pos = ?i)) -
      int (liquidity_where s k (\<lambda>pos. tick_upper_index pos = ?i))"
    using a unfolding tick_accounts_def net_part_def sum_of_diff sum_of_where [OF fin] by blast
  have "tick_initialized ?t \<longleftrightarrow> 0 < unat (liquidity_gross ?t)" using a by (simp add: tick_accounts_def unat_gt_0)
  then show ?thesis using g n unfolding Let_def of_nat_add [symmetric] of_nat_eq_iff by simp
qed

lemma tick_entries_account_for_positions_witness:
  "\<exists>s p ta. market_run sample_env 1000000 s \<and> pools s 1046 = Some p \<and> tick_arrays s 2056 = Some ta \<and>
     (let i = start_tick_index ta + int 2 * i32_of_u16 (tick_spacing p);
          begins = liquidity_where s 1046 (\<lambda>pos. tick_lower_index pos = i);
          ends = liquidity_where s 1046 (\<lambda>pos. tick_upper_index pos = i)
      in unat (liquidity_gross (ticks ta ! 2)) = begins + ends \<and> liquidity_net (ticks ta ! 2) = int begins - int ends)"
proof -
  obtain s s5 :: chain_state and p ta where r: "market_run sample_env 1000000 s" "pools s 1046 = Some p"
    "tick_arrays s 2056 = Some ta" "tick_array_pool ta = 1046" by (rule sample_market_run)
  show ?thesis using r tick_entries_account_for_positions [OF r(1) _ r(2-4), of 2] unfolding Let_def by auto
qed

text \<open>The conditions of the last property are met by every withdrawal that succeeds.\<close>

lemma withdrawal_conditions:
  assumes "decrease_liquidity e a amount min_a min_b s = Ok s'"
  obtains p pos token la ua timestamp delta_a delta_b l l' where
    "modify_liquidity_accounts_ok e a s = Ok (p, pos, token)"
    "verify_position_authority e token (ml_position_authority a) = Ok ()"
    "amount \<noteq> 0" "amount \<le> position_liquidity pos"
    "tick_arrays s (ml_tick_array_lower a) = Some la" "check_in_array_bounds la (tick_lower_index pos) (tick_spacing p)"
    "tick_arrays s (ml_tick_array_upper a) = Some ua" "check_in_array_bounds ua (tick_upper_index pos) (tick_spacing p)"
    "to_timestamp_u64 (unix_timestamp e) = Ok timestamp" "reward_last_updated_timestamp p \<le> timestamp"
    "calculate_liquidity_token_deltas (tick_current_index p) (sqrt_price p) pos (- int (unat amount)) = Ok (delta_a, delta_b)"
    "min_a \<le> delta_a" "min_b \<le> delta_b"
    "transfer_from_vault_to_owner e (ml_pool a) p (ml_token_vault_a a) (ml_token_owner_account_a a) delta_a (tokens s) = Ok l"
    "transfer_from_vault_to_owner e (ml_pool a) p (ml_token_vault_b a) (ml_token_owner_account_b a) delta_b l = Ok l'"
proof -
  obtain p pos token d ts upd p' pos' arrays da db l l' where
    r: "modify_liquidity_accounts_ok e a s = Ok (p, pos, token)"
      "verify_position_authority e token (ml_position_authority a) = Ok ()" "amount \<noteq> 0"
    and d: "convert_to_liquidity_delta amount False = Ok d" and ts: "to_timestamp_u64 (unix_timestamp e) = Ok ts"
    and calc: "calculate_modify_liquidity p pos (tick_arrays s) (ml_tick_array_lower a) (ml_tick_array_upper a) d ts = Ok upd"
    and sync: "sync_modify_liquidity_values p pos (tick_arrays s) (ml_tick_array_lower a) (ml_tick_array_upper a) upd ts = Ok (p', pos', arrays)"
    and deltas: "calculate_liquidity_token_deltas (tick_current_index p') (sqrt_price p') pos' d = Ok (da, db)"
    and mins: "min_a \<le> da" "min_b \<le> db"
    and t: "transfer_from_vault_to_owner e (ml_pool a) p' (ml_token_vault_a a) (ml_token_owner_account_a a) da (tokens s) = Ok l"
      "transfer_from_vault_to_owner e (ml_pool a) p' (ml_token_vault_b a) (ml_token_owner_account_b a) db l = Ok l'"
    using assms by (auto simp: decrease_liquidity_def and_then_Inr_iff not_less split: if_splits)
  have d': "d = - int (unat amount)" using liquidity_delta_range(1) [OF d r(3)] by simp
  have p': "tick_current_index p' = tick_current_index p" "sqrt_price p' = sqrt_price p" "pool_seeds p' = pool_seeds p"
    by (simp_all add: sync_OkD(1) [OF sync] update_rewards_and_liquidity_def update_rewards_def pool_seeds_def)
  have pos': "tick_lower_index pos' = tick_lower_index pos" "tick_upper_index pos' = tick_upper_index pos"
    by (simp_all add: sync_OkD(2) [OF sync] position_apply_update_def)
  obtain la lt ua ut where la: "tick_arrays s (ml_tick_array_lower a) = Some la" "get_tick la (tick_lower_index pos) (tick_spacing p) = Ok lt"
    and ua: "tick_arrays s (ml_tick_array_upper a) = Some ua" "get_tick ua (tick_upper_index pos) (tick_spacing p) = Ok ut"
    and i: "inner_calculate_modify_liquidity p pos lt ut (tick_lower_index pos) (tick_upper_index pos) d ts = Ok upd"
    by (rule calculate_modify_liquidity_OkE [OF calc])
  have bounds: "check_in_array_bounds la (tick_lower_index pos) (tick_spacing p)" "check_in_array_bounds ua (tick_upper_index pos) (tick_spacing p)"
    using la(2) ua(2) by (auto simp: get_tick_def tick_position_def and_then_Inr_iff split: if_splits)
  have "0 \<le> int (unat (position_liquidity pos)) + d"
    using add_liquidity_delta_Ok [OF inner_calculate_OkD(5) [OF i] liquidity_delta_range(3) [OF d r(3)]] by (metis of_nat_0_le_iff)
  then have "amount \<le> position_liquidity pos" unfolding d' word_le_nat_alt by linarith
  then show thesis
    using that [OF r _ la(1) bounds(1) ua(1) bounds(2) ts next_pool_reward_infos_Ok(1) [OF inner_calculate_OkD(1) [OF i]] _ mins, of l l']
      deltas t unfolding calculate_liquidity_token_deltas_def transfer_from_vault_to_owner_def p' pos' d' by blast
qed

text \<open>C6: The liquidity of a position can always be taken out: in every such state, a withdrawal of at
  most the position's liquidity succeeds when the accounts are the right ones and cover the range, the
  authority signs, the clock has not gone back, the token amounts can be computed and are not
  below the minimum, and the token program carries out the two transfers. No counter of the
  pool or of a tick is in the way.\<close>

theorem withdrawal_succeeds:
  assumes "market_run e0 n s" "n < 2 ^ 127"
    and "modify_liquidity_accounts_ok e a s = Ok (p, pos, token)"
    and "verify_position_authority e token (ml_position_authority a) = Ok ()"
    and "amount \<noteq> 0" "amount \<le> position_liquidity pos"
    and "tick_arrays s (ml_tick_array_lower a) = Some la" "check_in_array_bounds la (tick_lower_index pos) (tick_spacing p)"
    and "tick_arrays s (ml_tick_array_upper a) = Some ua" "check_in_array_bounds ua (tick_upper_index pos) (tick_spacing p)"
    and "to_timestamp_u64 (unix_timestamp e) = Ok timestamp" "reward_last_updated_timestamp p \<le> timestamp"
    and "calculate_liquidity_token_deltas (tick_current_index p) (sqrt_price p) pos (- int (unat amount)) = Ok (delta_a, delta_b)"
    and "min_a \<le> delta_a" "min_b \<le> delta_b"
    and "transfer_from_vault_to_owner e (ml_pool a) p (ml_token_vault_a a) (ml_token_owner_account_a a) delta_a (tokens s) = Ok l"
    and "transfer_from_vault_to_owner e (ml_pool a) p (ml_token_vault_b a) (ml_token_owner_account_b a) delta_b l = Ok l'"
  shows "\<exists>s' pos'. decrease_liquidity e a amount min_a min_b s = Ok s' \<and> positions s' (ml_position a) = Some pos' \<and>
    unat (position_liquidity pos') = unat (position_liquidity pos) - unat amount"
proof -
  let ?d = "- int (unat amount)" and ?lk = "ml_tick_array_lower a" and ?uk = "ml_tick_array_upper a"
  note b = market_run_books [OF assms(1,2)] and acc = modify_liquidity_accounts_OkD [OF assms(3)]
  have m: "market_ok s" using reachable_prices [OF market_run_reachable [OF assms(1)]] by blast
  have p: "pools s (ml_pool a) = Some p" and pos: "positions s (ml_position a) = Some pos" "position_pool pos = ml_pool a"
    and own: "tick_array_pool la = ml_pool a" "tick_array_pool ua = ml_pool a" using acc assms(7,9) by auto
  note va = pool_arrays_validD [OF market_arrays [OF m p]]
  have span: "start_tick_index la \<le> tick_lower_index pos" "tick_lower_index pos < start_tick_index la + 88 * i32_of_u16 (tick_spacing p)"
    "start_tick_index ua \<le> tick_upper_index pos" "tick_upper_index pos < start_tick_index ua + 88 * i32_of_u16 (tick_spacing p)"
    using assms(8,10) in_search_range_iff [OF va [OF assms(7) own(1)], of _ False] in_search_range_iff [OF va [OF assms(9) own(2)], of _ False]
    by (simp_all add: check_in_array_bounds_def)
  have le: "unat amount \<le> unat (position_liquidity pos)" using assms(6) by (simp add: word_le_nat_alt)
  then have le': "int (unat amount) \<le> liquidity_of pos" unfolding liquidity_of_def of_nat_le_iff .
  obtain upd p' pos' arrays where calc: "calculate_modify_liquidity p pos (tick_arrays s) ?lk ?uk ?d timestamp = Ok upd"
    and sync: "sync_modify_liquidity_values p pos (tick_arrays s) ?lk ?uk upd timestamp = Ok (p', pos', arrays)"
    by (rule withdrawal_calculated [OF m b assms(2) p pos assms(7) own(1) span(1,2) assms(9) own(2) span(3,4) _ le' assms(12)])
      (use assms(5) in \<open>simp add: unat_gt_0\<close>)
  have "liquidity_of pos \<le> sum_of (positions s) (ml_pool a) liquidity_of"
    by (rule sum_of_ge_part [OF books_okD(1) [OF b] pos]) simp
  also have "\<dots> \<le> int n" by (rule books_okD(4) [OF b])
  finally have "unat amount < 2 ^ 127" using le' assms(2) by linarith
  then have conv: "convert_to_liquidity_delta amount False = Ok ?d" by (simp add: convert_to_liquidity_delta_spec)
  note range = liquidity_delta_range(2,3) [OF conv assms(5)]
  note p' = sync_OkD(1) [OF sync] and pos' = sync_OkD(2) [OF sync]
  have same: "tick_current_index p' = tick_current_index p" "sqrt_price p' = sqrt_price p" "pool_seeds p' = pool_seeds p"
    by (simp_all add: p' update_rewards_and_liquidity_def update_rewards_def pool_seeds_def)
  have ends: "tick_lower_index pos' = tick_lower_index pos" "tick_upper_index pos' = tick_upper_index pos"
    by (simp_all add: pos' position_apply_update_def)
  have deltas: "calculate_liquidity_token_deltas (tick_current_index p') (sqrt_price p') pos' ?d = Ok (delta_a, delta_b)"
    using assms(13) unfolding calculate_liquidity_token_deltas_def same ends .
  define s' where "s' = s\<lparr>pools := (pools s)(ml_pool a \<mapsto> p'), positions := (positions s)(ml_position a \<mapsto> pos'),
     tick_arrays := arrays, tokens := l'\<rparr>"
  have "decrease_liquidity e a amount min_a min_b s = Ok s'"
    unfolding decrease_liquidity_def using assms(3,4,5,11,14-17) conv calc sync deltas
    by (simp add: s'_def not_less [THEN iffD2] transfer_from_vault_to_owner_def same)
  moreover have "unat (position_liquidity pos') = unat (position_liquidity pos) - unat amount"
  proof (rule calculate_modify_liquidity_OkE [OF calc])
    fix lower upper
    assume "inner_calculate_modify_liquidity p pos lower upper (tick_lower_index pos) (tick_upper_index pos) ?d timestamp = Ok upd"
    note i = add_liquidity_delta_Ok [OF inner_calculate_OkD(5) [OF this] range(2)]
    have field: "position_liquidity pos' = upd_position_liquidity (mod_position_update upd)"
      by (simp add: pos' position_apply_update_def)
    show ?thesis unfolding field using i le by linarith
  qed
  ultimately show ?thesis by (auto simp: s'_def)
qed

lemma withdrawal_succeeds_witness:
  "\<exists>s s' pos'. market_run sample_env 1000000 s \<and>
     decrease_liquidity sample_env sample_liquidity_accounts 1000000 1 1 s = Ok s' \<and> positions s' 1058 = Some pos'"
proof -
  obtain s s5 and p :: pool and ta :: tick_array where m: "market_run sample_env 1000000 s"
    and d: "decrease_liquidity sample_env sample_liquidity_accounts 1000000 1 1 s = Ok s5" by (rule sample_market_run)
  obtain p pos token la ua timestamp delta_a delta_b l l' where c:
    "modify_liquidity_accounts_ok sample_env sample_liquidity_accounts s = Ok (p, pos, token)"
    "verify_position_authority sample_env token (ml_position_authority sample_liquidity_accounts) = Ok ()"
    "(1000000 :: u128) \<noteq> 0" "1000000 \<le> position_liquidity pos"
    "tick_arrays s (ml_tick_array_lower sample_liquidity_accounts) = Some la"
    "check_in_array_bounds la (tick_lower_index pos) (tick_spacing p)"
    "tick_arrays s (ml_tick_array_upper sample_liquidity_accounts) = Some ua"
    "check_in_array_bounds ua (tick_upper_index pos) (tick_spacing p)"
    "to_timestamp_u64 (unix_timestamp sample_env) = Ok timestamp" "reward_last_updated_timestamp p \<le> timestamp"
    "calculate_liquidity_token_deltas (tick_current_index p) (sqrt_price p) pos (- int (unat (1000000 :: u128))) = Ok (delta_a, delta_b)"
    "1 \<le> delta_a" "1 \<le> delta_b"
    "transfer_from_vault_to_owner sample_env (ml_pool sample_liquidity_accounts) p (ml_token_vault_a sample_liquidity_accounts)
       (ml_token_owner_account_a sample_liquidity_accounts) delta_a (tokens s) = Ok l"
    "transfer_from_vault_to_owner sample_env (ml_pool sample_liquidity_accounts) p (ml_token_vault_b sample_liquidity_accounts)
       (ml_token_owner_account_b sample_liquidity_accounts) delta_b l = Ok l'"
    by (rule withdrawal_conditions [OF d])
  show ?thesis using withdrawal_succeeds [OF m _ c] m by (auto simp: sample_liquidity_accounts_def)
qed

end
