(* ===== verification/Bundle_Books.thy ===== *)
theory Bundle_Books
  imports Market_Books
begin

text \<open>
  The bitmap of a position bundle tells the truth: in every state of a run a slot is open exactly
  when the bundled position at the slot's address exists, so no bundle with positions is deleted.
\<close>

section \<open>Addresses\<close>

definition position_address :: "env \<Rightarrow> pubkey \<Rightarrow> pubkey" where
  "position_address e mint = fst (find_program_address e [Seed_Text ''position'', Seed_Key mint])"

definition bundle_address :: "env \<Rightarrow> pubkey \<Rightarrow> pubkey" where
  "bundle_address e mint = fst (find_program_address e [Seed_Text ''position_bundle'', Seed_Key mint])"

definition slot_address :: "env \<Rightarrow> pubkey \<Rightarrow> nat \<Rightarrow> pubkey" where
  "slot_address e mint i = fst (find_program_address e (bundled_position_seeds e mint (of_nat i)))"

text \<open>The derivation separates the addresses that belong to one mint.\<close>

definition separate_addresses :: "env \<Rightarrow> bool" where
  "separate_addresses e \<longleftrightarrow> (\<forall>mint. inj_on (slot_address e mint) {..<256} \<and>
     (\<forall>i < 256. slot_address e mint i \<noteq> position_address e mint))"

lemma separate_addressesD:
  assumes "separate_addresses e"
  shows "i < 256 \<Longrightarrow> slot_address e mint i \<noteq> position_address e mint"
    "i < 256 \<Longrightarrow> j < 256 \<Longrightarrow> slot_address e mint i = slot_address e mint j \<longleftrightarrow> i = j"
  using assms unfolding separate_addresses_def by (auto simp: inj_on_def)

lemma addresses_platform:
  assumes "same_platform e0 e"
  shows "position_address e mint = position_address e0 mint" "bundle_address e mint = bundle_address e0 mint"
    "slot_address e mint i = slot_address e0 mint i"
  using assms by (simp_all add: same_platform_def position_address_def bundle_address_def slot_address_def bundled_position_seeds_def)

section \<open>Slots and positions\<close>

definition mint_at :: "chain_state \<Rightarrow> pubkey \<Rightarrow> pubkey option" where
  "mint_at s k = map_option position_mint (positions s k)"

definition slots_held :: "env \<Rightarrow> (pubkey \<Rightarrow> pubkey option) \<Rightarrow> (pubkey \<rightharpoonup> position_bundle) \<Rightarrow> bool" where
  "slots_held e held bs \<longleftrightarrow>
     (\<forall>bk b. bs bk = Some b \<longrightarrow> bk = bundle_address e (position_bundle_mint b)) \<and>
     (\<forall>mint. \<forall>i < 256. held (slot_address e mint i) = Some mint \<longleftrightarrow>
        (\<exists>b. bs (bundle_address e mint) = Some b \<and> position_bundle_mint b = mint \<and> i \<in> open_slots b))"

lemma slots_heldD:
  assumes "slots_held e held bs"
  shows "bs bk = Some b \<Longrightarrow> bk = bundle_address e (position_bundle_mint b)"
    "i < 256 \<Longrightarrow> held (slot_address e mint i) = Some mint \<longleftrightarrow>
        (\<exists>b. bs (bundle_address e mint) = Some b \<and> position_bundle_mint b = mint \<and> i \<in> open_slots b)"
  using assms unfolding slots_held_def by blast+

text \<open>A position of its own opens and closes.\<close>

lemma slots_held_position:
  assumes "slots_held e held bs" "separate_addresses e" "held (position_address e mint) = None \<or> held (position_address e mint) = Some mint"
    and "x = None \<or> x = Some mint"
  shows "slots_held e (held(position_address e mint := x)) bs"
  unfolding slots_held_def
proof (intro conjI allI impI)
  fix bk b assume "bs bk = Some b"
  then show "bk = bundle_address e (position_bundle_mint b)" by (rule slots_heldD(1) [OF assms(1)])
next
  fix m and i :: nat assume i: "i < 256"
  have "(held(position_address e mint := x)) (slot_address e m i) = Some m \<longleftrightarrow> held (slot_address e m i) = Some m"
    using separate_addressesD(1) [OF assms(2) i, of m] assms(3,4) by auto
  then show "(held(position_address e mint := x)) (slot_address e m i) = Some m \<longleftrightarrow>
      (\<exists>b. bs (bundle_address e m) = Some b \<and> position_bundle_mint b = m \<and> i \<in> open_slots b)"
    using slots_heldD(2) [OF assms(1) i] by simp
qed

text \<open>A slot of a bundle opens and closes.\<close>

lemma slots_held_bundled:
  assumes h: "slots_held e held bs" and sep: "separate_addresses e" and b: "bs bk = Some b" and n: "n < 256"
    and mint: "position_bundle_mint b = mint" "position_bundle_mint b' = mint"
    and slots: "open_slots b' = (if opening then insert n (open_slots b) else open_slots b - {n})"
    and was: "held (slot_address e mint n) = (if opening then None else Some mint)"
  shows "slots_held e (held(slot_address e mint n := (if opening then Some mint else None))) (bs(bk \<mapsto> b'))"
  unfolding slots_held_def
proof (intro conjI allI impI)
  have bk: "bk = bundle_address e mint" using slots_heldD(1) [OF h b] mint by simp
  show "k = bundle_address e (position_bundle_mint c)" if "(bs(bk \<mapsto> b')) k = Some c" for k c
    using that slots_heldD(1) [OF h, of k c] bk mint by (auto split: if_splits)
  fix m and i :: nat assume i: "i < 256"
  let ?held = "held(slot_address e mint n := (if opening then Some mint else None))"
  show "?held (slot_address e m i) = Some m \<longleftrightarrow>
      (\<exists>c. (bs(bk \<mapsto> b')) (bundle_address e m) = Some c \<and> position_bundle_mint c = m \<and> i \<in> open_slots c)"
  proof (cases "m = mint")
    case True
    have "?held (slot_address e mint i) = Some mint \<longleftrightarrow> (if i = n then opening else held (slot_address e mint i) = Some mint)"
      using separate_addressesD(2) [OF sep i n, of mint] by simp
    moreover have "held (slot_address e mint i) = Some mint \<longleftrightarrow> i \<in> open_slots b"
      using slots_heldD(2) [OF h i, of mint] b bk mint(1) by auto
    ultimately show ?thesis using True slots bk mint(2) by auto
  next
    case False
    have "?held (slot_address e m i) = Some m \<longleftrightarrow> held (slot_address e m i) = Some m" using False was by auto
    moreover have "(\<exists>c. (bs(bk \<mapsto> b')) (bundle_address e m) = Some c \<and> position_bundle_mint c = m \<and> i \<in> open_slots c) \<longleftrightarrow>
      (\<exists>c. bs (bundle_address e m) = Some c \<and> position_bundle_mint c = m \<and> i \<in> open_slots c)"
      using False mint b by auto
    ultimately show ?thesis using slots_heldD(2) [OF h i] by simp
  qed
qed

text \<open>A bundle without open slots appears or goes.\<close>

lemma slots_held_bundle:
  assumes h: "slots_held e held bs" and was: "\<And>b. bs bk = Some b \<Longrightarrow> open_slots b = {}"
    and new: "\<And>b. x = Some b \<Longrightarrow> open_slots b = {} \<and> bk = bundle_address e (position_bundle_mint b)"
  shows "slots_held e held (bs(bk := x))"
  unfolding slots_held_def
proof (intro conjI allI impI)
  show "k = bundle_address e (position_bundle_mint c)" if "(bs(bk := x)) k = Some c" for k c
    using that slots_heldD(1) [OF h, of k c] new by (auto split: if_splits)
  fix m and i :: nat assume i: "i < 256"
  show "held (slot_address e m i) = Some m \<longleftrightarrow>
      (\<exists>c. (bs(bk := x)) (bundle_address e m) = Some c \<and> position_bundle_mint c = m \<and> i \<in> open_slots c)"
    unfolding slots_heldD(2) [OF h i] using was new by (cases "bundle_address e m = bk") auto
qed

section \<open>Every instruction keeps slots and positions together\<close>

definition slots_ok :: "env \<Rightarrow> chain_state \<Rightarrow> bool" where
  "slots_ok e s \<longleftrightarrow> slots_held e (mint_at s) (bundles s)"

lemma mint_at_upd:
  "positions s' = (positions s)(k \<mapsto> pos) \<Longrightarrow> mint_at s' = (mint_at s)(k := Some (position_mint pos))"
  "positions s' = (positions s)(k := None) \<Longrightarrow> mint_at s' = (mint_at s)(k := None)"
  by (auto simp: mint_at_def)

lemma slots_frame: "positions s' = positions s \<Longrightarrow> bundles s' = bundles s \<Longrightarrow> slots_ok e s \<Longrightarrow> slots_ok e s'"
  by (simp add: slots_ok_def mint_at_def [abs_def])

lemma slots_keep:
  "positions s k = Some pos \<Longrightarrow> position_identity pos' = position_identity pos \<Longrightarrow>
   positions s' = (positions s)(k \<mapsto> pos') \<Longrightarrow> bundles s' = bundles s \<Longrightarrow> slots_ok e s \<Longrightarrow> slots_ok e s'"
  unfolding slots_ok_def by (simp add: mint_at_upd position_identity_def fun_upd_idem mint_at_def)

lemma position_keys:
  "open_position_instr e oa lower upper s = Ok s' \<Longrightarrow> op_position oa = position_address e (op_position_mint oa)"
  "open_position_with_metadata e oa mk mp ua lower upper s = Ok s' \<Longrightarrow> op_position oa = position_address e (op_position_mint oa)"
  "close_position e auth receiver k m tk program s = Ok s' \<Longrightarrow>
     k = position_address e m \<and> (\<exists>pos. positions s k = Some pos \<and> position_mint pos = m)"
  by (auto simp: open_position_instr_def open_position_with_metadata_def open_position_init_def close_position_def
      position_address_def and_then_Inr_iff)

lemma own_position_slots:
  assumes sep: "separate_addresses e" and h: "slots_ok e s"
  shows "open_position_instr e oa lower upper s = Ok s' \<Longrightarrow> slots_ok e s'"
    "open_position_with_metadata e oa mk mp ua lower upper s = Ok s' \<Longrightarrow> slots_ok e s'"
    "close_position e auth receiver k m tk program s = Ok s' \<Longrightarrow> slots_ok e s'"
proof -
  note h' = slots_held_position [OF h [unfolded slots_ok_def] sep]
  show "slots_ok e s'" if i: "open_position_instr e oa lower upper s = Ok s'"
    by (rule open_position_instr_OkE [OF i])
      (use h' [of "op_position_mint oa" "Some (op_position_mint oa)"] position_keys(1) [OF i] in
        \<open>auto simp: slots_ok_def mint_at_upd open_position_OkD(3) unused_def mint_at_def\<close>)
  show "slots_ok e s'" if i: "open_position_with_metadata e oa mk mp ua lower upper s = Ok s'"
    by (rule open_position_with_metadata_OkE [OF i])
      (use h' [of "op_position_mint oa" "Some (op_position_mint oa)"] position_keys(2) [OF i] in
        \<open>auto simp: slots_ok_def mint_at_upd open_position_OkD(3) unused_def mint_at_def\<close>)
  show "slots_ok e s'" if i: "close_position e auth receiver k m tk program s = Ok s'"
    by (rule close_position_OkE [OF i])
      (use h' [of m None] position_keys(3) [OF i] in \<open>auto simp: slots_ok_def mint_at_upd mint_at_def\<close>)
qed

lemma bundled_keys:
  "open_bundled_position_instr e ba pk funder n lower upper s = Ok s' \<Longrightarrow> bundles s (bp_position_bundle ba) = Some b \<Longrightarrow>
     unat n < 256 \<Longrightarrow> bp_bundled_position ba = slot_address e (position_bundle_mint b) (unat n)"
  "close_bundled_position_instr e ba receiver n s = Ok s' \<Longrightarrow> bundles s (bp_position_bundle ba) = Some b \<Longrightarrow>
     unat n < 256 \<Longrightarrow> bp_bundled_position ba = slot_address e (position_bundle_mint b) (unat n)"
  by (auto simp: open_bundled_position_instr_def close_bundled_position_instr_def slot_address_def and_then_Inr_iff)

lemma update_bitmap_index: "bundle_wf b \<Longrightarrow> update_bitmap n opening b = Ok b' \<Longrightarrow> unat n < 256"
  by (simp add: update_bitmap_eq split: if_splits)

lemma bundled_position_slots:
  assumes sep: "separate_addresses e" and h: "slots_ok e s" and wf: "bundles_ok s"
  shows "open_bundled_position_instr e ba pk funder n lower upper s = Ok s' \<Longrightarrow> slots_ok e s'"
    "close_bundled_position_instr e ba receiver n s = Ok s' \<Longrightarrow> slots_ok e s'"
proof -
  note h' = slots_held_bundled [OF h [unfolded slots_ok_def] sep]
  show "slots_ok e s'" if i: "open_bundled_position_instr e ba pk funder n lower upper s = Ok s'"
  proof (rule open_bundled_position_instr_OkE [OF i])
    fix p b b' pos
    assume b: "bundles s (bp_position_bundle ba) = Some b" and new: "unused s (bp_bundled_position ba)"
      and op: "open_bundled_position n b = Ok b'"
      and pos: "open_position pk p (position_bundle_mint b') lower upper default_position = Ok pos"
      and s': "s' = s\<lparr>positions := (positions s)(bp_bundled_position ba \<mapsto> pos),
            bundles := (bundles s)(bp_position_bundle ba \<mapsto> b')\<rparr>"
    have w: "bundle_wf b" using wf b by (simp add: bundles_ok_def)
    note u = op [unfolded open_bundled_position_def]
    note n = update_bitmap_index [OF w u] and sl = update_bitmap_slots [OF w u]
    show ?thesis
      using h' [OF b n refl sl(3), of True] bundled_keys(1) [OF i b n] sl new
      by (simp add: slots_ok_def s' mint_at_upd open_position_OkD(3) [OF pos] unused_def mint_at_def)
  qed
  show "slots_ok e s'" if i: "close_bundled_position_instr e ba receiver n s = Ok s'"
  proof (rule close_bundled_position_instr_OkE [OF i])
    fix pos b b'
    assume b: "bundles s (bp_position_bundle ba) = Some b" and pos: "positions s (bp_bundled_position ba) = Some pos"
      "position_bundle_mint b = position_mint pos" and cl: "close_bundled_position n b = Ok b'"
      and s': "s' = s\<lparr>positions := (positions s)(bp_bundled_position ba := None),
            bundles := (bundles s)(bp_position_bundle ba \<mapsto> b')\<rparr>"
    have w: "bundle_wf b" using wf b by (simp add: bundles_ok_def)
    note u = cl [unfolded close_bundled_position_def]
    note n = update_bitmap_index [OF w u] and sl = update_bitmap_slots [OF w u]
    show ?thesis
      using h' [OF b n refl sl(3), of False] bundled_keys(2) [OF i b n] sl pos
      by (simp add: slots_ok_def s' mint_at_upd mint_at_def)
  qed
qed

lemma bundle_keys:
  "initialize_position_bundle e ia s = Ok s' \<Longrightarrow> ib_position_bundle ia = bundle_address e (ib_position_bundle_mint ia)"
  "initialize_position_bundle_with_metadata e ia mk mp ua s = Ok s' \<Longrightarrow>
     ib_position_bundle ia = bundle_address e (ib_position_bundle_mint ia)"
  by (auto simp: initialize_position_bundle_def initialize_position_bundle_with_metadata_def bundle_init_def
      bundle_address_def and_then_Inr_iff)

lemma bundle_slots_kept:
  assumes h: "slots_ok e s" and wf: "bundles_ok s"
  shows "initialize_position_bundle e ia s = Ok s' \<Longrightarrow> slots_ok e s'"
    "initialize_position_bundle_with_metadata e ia mk mp ua s = Ok s' \<Longrightarrow> slots_ok e s'"
    "delete_position_bundle e bk m tk owner receiver program s = Ok s' \<Longrightarrow> slots_ok e s'"
proof -
  note h' = slots_held_bundle [OF h [unfolded slots_ok_def]]
  have new: "position_bundle_mint (bundle_initialize m default_bundle) = m" for m by (simp add: bundle_initialize_def)
  show "slots_ok e s'" if i: "initialize_position_bundle e ia s = Ok s'"
    by (rule initialize_position_bundle_OkE [OF i])
      (use h' [of "ib_position_bundle ia" "Some (bundle_initialize (ib_position_bundle_mint ia) default_bundle)"] bundle_keys(1) [OF i] in
        \<open>auto simp: slots_ok_def unused_def open_slots_initial new mint_at_def [abs_def]\<close>)
  show "slots_ok e s'" if i: "initialize_position_bundle_with_metadata e ia mk mp ua s = Ok s'"
    by (rule initialize_position_bundle_with_metadata_OkE [OF i])
      (use h' [of "ib_position_bundle ia" "Some (bundle_initialize (ib_position_bundle_mint ia) default_bundle)"] bundle_keys(2) [OF i] in
        \<open>auto simp: slots_ok_def unused_def open_slots_initial new mint_at_def [abs_def]\<close>)
  show "slots_ok e s'" if i: "delete_position_bundle e bk m tk owner receiver program s = Ok s'"
    by (rule delete_position_bundle_OkE [OF i])
      (use h' [of bk None] wf in \<open>auto simp: slots_ok_def bundles_ok_def is_deletable_iff mint_at_def [abs_def]\<close>)
qed

lemma kept_position_slots:
  assumes h: "slots_ok e s"
  shows "increase_liquidity e' la amount x y s = Ok s' \<Longrightarrow> slots_ok e s'"
    "decrease_liquidity e' la amount x y s = Ok s' \<Longrightarrow> slots_ok e s'"
    "update_fees_and_rewards e' pk qk lk uk s = Ok s' \<Longrightarrow> slots_ok e s'"
    "collect_fees e' fa s = Ok s' \<Longrightarrow> slots_ok e s'"
    "collect_reward e' ra j s = Ok s' \<Longrightarrow> slots_ok e s'"
proof -
  note keep = slots_keep [OF _ _ _ _ h]
  show "slots_ok e s'" if i: "increase_liquidity e' la amount x y s = Ok s'"
    by (rule increase_liquidity_OkE [OF i], drule modify_liquidity_accounts_OkD, elim conjE, rule keep, assumption)
      (auto dest: sync_OkD(2) simp: position_ops_identity)
  show "slots_ok e s'" if i: "decrease_liquidity e' la amount x y s = Ok s'"
    by (rule decrease_liquidity_OkE [OF i], drule modify_liquidity_accounts_OkD, elim conjE, rule keep, assumption)
      (auto dest: sync_OkD(2) simp: position_ops_identity)
  show "slots_ok e s'" if i: "update_fees_and_rewards e' pk qk lk uk s = Ok s'"
    by (rule update_fees_and_rewards_OkE [OF i], rule keep, assumption) (simp_all add: position_ops_identity)
  show "slots_ok e s'" if i: "collect_fees e' fa s = Ok s'"
    by (rule collect_fees_OkE [OF i], rule keep, assumption) (simp_all add: position_ops_identity)
  show "slots_ok e s'" if i: "collect_reward e' ra j s = Ok s'"
    by (rule collect_reward_OkE [OF i], rule keep, assumption) (simp_all add: position_ops_identity)
qed

lemmas slots_frame_OkE =
  initialize_config_OkE initialize_fee_tier_OkE set_default_fee_rate_OkE set_fee_authority_OkE
  set_collect_protocol_fees_authority_OkE set_reward_emissions_super_authority_OkE
  set_default_protocol_fee_rate_OkE initialize_pool_OkE set_fee_rate_OkE set_protocol_fee_rate_OkE
  initialize_tick_array_OkE initialize_reward_instr_OkE set_reward_authority_OkE
  set_reward_authority_by_super_authority_OkE set_reward_emissions_OkE collect_protocol_fees_OkE
  swap_instr_OkE two_hop_swap_OkE

lemma slots_step:
  assumes i: "process e i s = Ok s'" and sep: "separate_addresses e" and wf: "bundles_ok s" and h: "slots_ok e s"
  shows "slots_ok e s'"
  by (insert i, cases i; simp; (erule own_position_slots [OF sep h] bundled_position_slots [OF sep h wf] bundle_slots_kept [OF h wf]
        kept_position_slots [OF h] | (erule slots_frame_OkE, rule slots_frame [OF _ _ h], simp, simp)))

lemma slots_platform: "same_platform e0 e \<Longrightarrow> slots_ok e s = slots_ok e0 s"
  by (simp add: slots_ok_def slots_held_def addresses_platform)

lemma separate_platform: "same_platform e0 e \<Longrightarrow> separate_addresses e = separate_addresses e0"
proof -
  assume p: "same_platform e0 e"
  have "slot_address e mint = slot_address e0 mint" for mint by (rule ext) (rule addresses_platform(3) [OF p])
  then show ?thesis by (simp add: separate_addresses_def addresses_platform(1) [OF p])
qed

lemma market_run_slots: "market_run e0 n s \<Longrightarrow> separate_addresses e0 \<Longrightarrow> slots_ok e0 s"
proof (induction rule: market_run.induct)
  case (start l)
  show ?case by (simp add: slots_ok_def slots_held_def empty_chain_def mint_at_def)
next
  case (step n s e i s')
  have "market_ok s" using reachable_prices [OF market_run_reachable [OF step.hyps(1)]] by blast
  then have "bundles_ok s" by (simp add: market_ok_def)
  moreover have "separate_addresses e" "slots_ok e s"
    using step separate_platform [OF step.hyps(2)] slots_platform [OF step.hyps(2)] by simp_all
  ultimately show ?case using slots_step [OF step.hyps(3)] slots_platform [OF step.hyps(2)] by simp
qed

section \<open>A sample run\<close>

text \<open>A bundle of the mint 60 with a position in its slot 3, on the market of \<open>Sample_Chain\<close>.\<close>

definition sample_bundle_script :: "instruction list" where
  "sample_bundle_script = sample_market @ [
     InitializePositionBundle \<lparr>ib_position_bundle = 1075, ib_position_bundle_mint = 60,
       ib_position_bundle_token_account = 61, ib_position_bundle_owner = 5, ib_funder = 5,
       ib_token_program = 7\<rparr>,
     OpenBundledPosition \<lparr>bp_bundled_position = 1079, bp_position_bundle = 1075,
       bp_position_bundle_token_account = 61, bp_position_bundle_authority = 5\<rparr> 1046 5 3 0 128]"

lemma sample_bundle_runs:
  "(case run sample_env sample_bundle_script (empty_chain sample_ledger) of
      Inl _ \<Rightarrow> False
    | Inr s \<Rightarrow> (case bundles s 1075 of None \<Rightarrow> False | Some b \<Rightarrow> \<not> is_deletable b))"
  by code_simp

lemma sample_slot_address: "i < 256 \<Longrightarrow> slot_address sample_env mint i = 1016 + mint + of_nat i"
  by (simp add: slot_address_def bundled_position_seeds_def sample_env_def sample_address_def unsigned_of_nat
      take_bit_nat_eq_self)

lemma sample_position_address: "position_address sample_env mint = 1008 + mint"
  by (simp add: position_address_def sample_env_def sample_address_def)

lemma of_nat_pubkey_eq: "a < 2 ^ 16 \<Longrightarrow> b < 2 ^ 16 \<Longrightarrow> (of_nat a :: pubkey) = of_nat b \<longleftrightarrow> a = b"
  by (simp add: word_of_nat_eq_iff take_bit_nat_eq_self)

lemma sample_separate: "separate_addresses sample_env"
proof -
  have "1016 + mint + of_nat i \<noteq> (1008 + mint :: pubkey)" if "i < 256" for mint and i :: nat
    using of_nat_pubkey_eq [of "1016 + i" 1008] that by (simp add: algebra_simps)
  then show ?thesis
    unfolding separate_addresses_def
    by (auto simp: inj_on_def sample_slot_address sample_position_address of_nat_pubkey_eq)
qed

section \<open>Property\<close>

text \<open>C4: The bitmap of a bundle tells the truth: in every state of a run, on a platform whose addresses for
  one mint do not collide, a slot below 256 is open exactly when a position of the bundle exists at the
  slot's address, and the bundle can be deleted exactly when no such position exists.\<close>

theorem bundle_slots_hold_positions:
  assumes "market_run e n s" "separate_addresses e" "bundles s bk = Some b"
  shows "(\<forall>i < 256. i \<in> open_slots b \<longleftrightarrow>
      map_option position_mint (positions s (slot_address e (position_bundle_mint b) i)) = Some (position_bundle_mint b)) \<and>
    (is_deletable b \<longleftrightarrow> (\<forall>i < 256.
      map_option position_mint (positions s (slot_address e (position_bundle_mint b) i)) \<noteq> Some (position_bundle_mint b)))"
proof -
  have h: "slots_held e (mint_at s) (bundles s)" using market_run_slots [OF assms(1,2)] by (simp add: slots_ok_def)
  have bk: "bk = bundle_address e (position_bundle_mint b)" by (rule slots_heldD(1) [OF h assms(3)])
  have slots: "i \<in> open_slots b \<longleftrightarrow>
      map_option position_mint (positions s (slot_address e (position_bundle_mint b) i)) = Some (position_bundle_mint b)"
    if "i < 256" for i
    using slots_heldD(2) [OF h that, of "position_bundle_mint b"] assms(3) bk unfolding mint_at_def by simp
  have "bundle_wf b"
    using reachable_prices [OF market_run_reachable [OF assms(1)]] assms(3) by (simp add: market_ok_def bundles_ok_def)
  then have "is_deletable b \<longleftrightarrow> (\<forall>i < 256. i \<notin> open_slots b)"
    by (auto simp: is_deletable_iff open_slots_iff slot_open_def)
  then show ?thesis using slots by simp
qed

lemma bundle_slots_hold_positions_witness:
  "\<exists>(s :: chain_state) b. bundles s 1075 = Some b \<and> \<not> is_deletable b \<and>
     (\<exists>i < 256. map_option position_mint (positions s (slot_address sample_env (position_bundle_mint b) i)) =
        Some (position_bundle_mint b))"
proof -
  obtain s b where s: "run sample_env sample_bundle_script (empty_chain sample_ledger) = Ok s"
    and b: "bundles s 1075 = Some b" "\<not> is_deletable b"
    using sample_bundle_runs by (auto split: sum.splits option.splits)
  note run = market_run_run [OF market_run.start s]
  have "\<exists>i < 256. map_option position_mint (positions s (slot_address sample_env (position_bundle_mint b) i)) =
      Some (position_bundle_mint b)"
    using conjunct2 [OF bundle_slots_hold_positions [OF run sample_separate b(1)]] b(2) by simp
  with b show ?thesis by blast
qed

end
