(* ===== verification/Fee_Shares.thy ===== *)
theory Fee_Shares
  imports Market_Books
begin

text \<open>
  The shares of a fee: what the protocol and the positions around the current tick are credited
  for a fee that the pool takes is never more than the fee.
\<close>

section \<open>The share of a position\<close>

lemma checked_mul_shift_right_credit:
  "unat (value_or_zero (checked_mul_shift_right l d)) * 2 ^ 64 \<le> unat l * unat d"
proof (cases "checked_mul_shift_right l d")
  case (Inr x)
  then have "x = of_nat (unat l * unat d div 2 ^ 64)" "unat l * unat d div 2 ^ 64 < 2 ^ 64"
    by (auto simp: checked_mul_shift_right_def checked_mul_shift_right_round_up_if_spec split: if_splits)
  then have "unat x = unat l * unat d div 2 ^ 64" by (simp add: unat_of_nat)
  with Inr show ?thesis using div_times_less_eq_dividend [of "unat l * unat d" "2 ^ 64"] by (simp add: value_or_zero_def)
qed (simp add: value_or_zero_def)

lemma position_credit:
  assumes "next_position_modify_liquidity_update pos delta (fee_growth_checkpoint_a pos + da)
    (fee_growth_checkpoint_b pos + db) rewards = Ok u"
  shows "unat (upd_fee_owed_a u - fee_owed_a pos) * 2 ^ 64 \<le> unat (position_liquidity pos) * unat da"
    "unat (upd_fee_owed_b u - fee_owed_b pos) * 2 ^ 64 \<le> unat (position_liquidity pos) * unat db"
proof -
  have "upd_fee_owed_a u - fee_owed_a pos = value_or_zero (checked_mul_shift_right (position_liquidity pos) da)"
    "upd_fee_owed_b u - fee_owed_b pos = value_or_zero (checked_mul_shift_right (position_liquidity pos) db)"
    using assms by (auto simp: next_position_modify_liquidity_update_def Let_def and_then_Inr_iff)
  then show "unat (upd_fee_owed_a u - fee_owed_a pos) * 2 ^ 64 \<le> unat (position_liquidity pos) * unat da"
    "unat (upd_fee_owed_b u - fee_owed_b pos) * 2 ^ 64 \<le> unat (position_liquidity pos) * unat db"
    using checked_mul_shift_right_credit by simp_all
qed

section \<open>The shares of a fee\<close>

definition active_positions :: "chain_state \<Rightarrow> pubkey \<Rightarrow> i32 \<Rightarrow> pubkey set" where
  "active_positions s pk cur = {k. \<exists>pos. positions s k = Some pos \<and> position_pool pos = pk \<and>
     tick_lower_index pos \<le> cur \<and> cur < tick_upper_index pos}"

lemma fee_split:
  assumes "calculate_fees fee rate L pf g = Ok (pf', g')" "unat rate \<le> 10000"
  shows "unat (pf' - pf) \<le> unat fee" "unat L * unat (g' - g) \<le> (unat fee - unat (pf' - pf)) * 2 ^ 64"
proof -
  define cut where "cut = unat fee * unat rate div 10000"
  have c: "pf' = pf + of_nat cut" "g' = g + (if L = 0 then 0 else of_nat ((unat fee - cut) * 2 ^ 64 div unat L))"
    using assms(1) unfolding calculate_fees_spec [OF assms(2)] Let_def cut_def by simp_all
  have "cut \<le> unat fee * 10000 div 10000"
    unfolding cut_def using assms(2) by (intro div_le_mono mult_le_mono) simp_all
  then have cut: "cut \<le> unat fee" by simp
  then have "cut < 2 ^ 64" using unat_u64_less [of fee] by linarith
  then have u: "unat (pf' - pf) = cut" using c(1) by (simp add: unat_of_nat)
  show "unat (pf' - pf) \<le> unat fee" using u cut by simp
  show "unat L * unat (g' - g) \<le> (unat fee - unat (pf' - pf)) * 2 ^ 64"
  proof (cases "L = 0")
    case False
    let ?q = "(unat fee - cut) * 2 ^ 64 div unat L"
    have "(unat fee - cut) * 2 ^ 64 \<le> unat fee * 2 ^ 64" by simp
    then have "?q < 2 ^ 128"
      using unat_u64_less [of fee] by (intro le_less_trans [OF div_le_dividend]) simp
    then have "unat (g' - g) = ?q" using c(2) False by (simp add: unat_of_nat)
    then show ?thesis unfolding u by simp
  qed simp
qed

lemma shares_sum:
  fixes w :: "'k \<Rightarrow> nat"
  assumes "\<And>k. k \<in> K \<Longrightarrow> c k * 2 ^ 64 \<le> w k * d" and "(\<Sum>k\<in>K. w k) * d \<le> r * 2 ^ 64"
  shows "(\<Sum>k\<in>K. c k) \<le> r"
proof -
  have "(\<Sum>k\<in>K. c k) * 2 ^ 64 \<le> (\<Sum>k\<in>K. w k * d)"
    unfolding sum_distrib_right by (rule sum_mono) (rule assms(1))
  also have "\<dots> \<le> r * 2 ^ 64" using assms(2) by (simp only: sum_distrib_right)
  finally show ?thesis by simp
qed

lemma reachable_fee_rate:
  assumes "market_run e n s" "pools s pk = Some p"
  shows "unat (protocol_fee_rate p) \<le> 10000"
proof -
  have "pool_ok p" using reachable_prices [OF market_run_reachable [OF assms(1)]] assms(2)
    by (simp add: market_ok_def pools_ok_def)
  then show ?thesis by (simp add: pool_ok_def MAX_PROTOCOL_FEE_RATE_def word_le_nat_alt)
qed

lemma active_sum:
  assumes "market_run e n s" "n < 2 ^ 127" "pools s pk = Some p"
  shows "(\<Sum>k\<in>active_positions s pk (tick_current_index p). unat (position_liquidity (the (positions s k)))) =
    unat (pool_liquidity p)"
  unfolding active_liquidity [OF assms] liquidity_where_def active_positions_def by (rule refl)

section \<open>Property\<close>

text \<open>C5: A fee is never handed out twice. In every state of a run that has added less than \<open>2 ^ 127\<close> of
  liquidity, let a pool take a fee in each token and let every position around its current tick be settled
  at a growth inside its range that has risen, since the position's checkpoint, by the growth that the
  fee has caused. Then the credits of all these positions and the share of the protocol add up to at
  most the fee, in each token.\<close>

theorem fee_shares_within_fee:
  assumes "market_run e n s" "n < 2 ^ 127" "pools s pk = Some p"
    and "calculate_fees fa (protocol_fee_rate p) (pool_liquidity p) pa ga = Ok (pa', ga')"
    and "calculate_fees fb (protocol_fee_rate p) (pool_liquidity p) pb gb = Ok (pb', gb')"
    and "\<forall>k\<in>active_positions s pk (tick_current_index p). \<exists>delta rewards.
      next_position_modify_liquidity_update (the (positions s k)) delta
        (fee_growth_checkpoint_a (the (positions s k)) + (ga' - ga))
        (fee_growth_checkpoint_b (the (positions s k)) + (gb' - gb)) rewards = Ok (upd k)"
  shows "unat (pa' - pa) + (\<Sum>k\<in>active_positions s pk (tick_current_index p).
      unat (upd_fee_owed_a (upd k) - fee_owed_a (the (positions s k)))) \<le> unat fa \<and>
    unat (pb' - pb) + (\<Sum>k\<in>active_positions s pk (tick_current_index p).
      unat (upd_fee_owed_b (upd k) - fee_owed_b (the (positions s k)))) \<le> unat fb"
proof -
  note rate = reachable_fee_rate [OF assms(1,3)]
  note a = fee_split [OF assms(4) rate] and b = fee_split [OF assms(5) rate]
  note active = active_sum [OF assms(1-3)]
  have credit: "unat (upd_fee_owed_a (upd k) - fee_owed_a (the (positions s k))) * 2 ^ 64 \<le>
      unat (position_liquidity (the (positions s k))) * unat (ga' - ga)"
    "unat (upd_fee_owed_b (upd k) - fee_owed_b (the (positions s k))) * 2 ^ 64 \<le>
      unat (position_liquidity (the (positions s k))) * unat (gb' - gb)"
    if "k \<in> active_positions s pk (tick_current_index p)" for k
    using assms(6) that position_credit by blast+
  have "(\<Sum>k\<in>active_positions s pk (tick_current_index p).
      unat (upd_fee_owed_a (upd k) - fee_owed_a (the (positions s k)))) \<le> unat fa - unat (pa' - pa)"
    by (rule shares_sum [OF credit(1)]) (simp_all only: active a(2))
  moreover have "(\<Sum>k\<in>active_positions s pk (tick_current_index p).
      unat (upd_fee_owed_b (upd k) - fee_owed_b (the (positions s k)))) \<le> unat fb - unat (pb' - pb)"
    by (rule shares_sum [OF credit(2)]) (simp_all only: active b(2))
  ultimately show ?thesis using a(1) b(1) by linarith
qed

lemma settles:
  "\<exists>u. next_position_modify_liquidity_update pos 0 ia ib rewards = Ok u"
  by (simp add: next_position_modify_liquidity_update_def add_liquidity_delta_def Let_def)

lemma fee_shares_within_fee_witness:
  "\<exists>(s :: chain_state) p pa ga upd. market_run sample_env 1000000 s \<and> pools s 1046 = Some p \<and>
     calculate_fees 1000 (protocol_fee_rate p) (pool_liquidity p) 0 0 = Ok (pa, ga) \<and>
     (\<forall>k\<in>active_positions s 1046 (tick_current_index p).
        next_position_modify_liquidity_update (the (positions s k)) 0
          (fee_growth_checkpoint_a (the (positions s k)) + ga)
          (fee_growth_checkpoint_b (the (positions s k))) (Arr3 0 0 0) = Ok (upd k)) \<and>
     unat pa + (\<Sum>k\<in>active_positions s 1046 (tick_current_index p).
       unat (upd_fee_owed_a (upd k) - fee_owed_a (the (positions s k)))) \<le> 1000"
proof -
  obtain s s5 :: chain_state and p and ta :: tick_array where
    r: "market_run sample_env 1000000 s" "pools s 1046 = Some p" by (rule sample_market_run)
  note rate = reachable_fee_rate [OF r]
  obtain pa ga where a: "calculate_fees 1000 (protocol_fee_rate p) (pool_liquidity p) 0 0 = Ok (pa, ga)"
    unfolding calculate_fees_spec [OF rate] by (simp add: Let_def)
  have b: "calculate_fees 0 (protocol_fee_rate p) (pool_liquidity p) 0 0 = Ok (0, 0)"
    unfolding calculate_fees_spec [OF rate] by (simp add: Let_def)
  define upd where "upd = (\<lambda>k. SOME u. next_position_modify_liquidity_update (the (positions s k)) 0
    (fee_growth_checkpoint_a (the (positions s k)) + ga) (fee_growth_checkpoint_b (the (positions s k))) (Arr3 0 0 0) = Ok u)"
  have u: "next_position_modify_liquidity_update (the (positions s k)) 0
      (fee_growth_checkpoint_a (the (positions s k)) + ga)
      (fee_growth_checkpoint_b (the (positions s k))) (Arr3 0 0 0) = Ok (upd k)" for k
    unfolding upd_def by (rule someI_ex) (rule settles)
  have "\<forall>k\<in>active_positions s 1046 (tick_current_index p). \<exists>delta rewards.
      next_position_modify_liquidity_update (the (positions s k)) delta
        (fee_growth_checkpoint_a (the (positions s k)) + (ga - 0))
        (fee_growth_checkpoint_b (the (positions s k)) + (0 - 0)) rewards = Ok (upd k)"
    using u by auto
  from fee_shares_within_fee [OF r(1) _ r(2) a b this] have
    "unat pa + (\<Sum>k\<in>active_positions s 1046 (tick_current_index p).
       unat (upd_fee_owed_a (upd k) - fee_owed_a (the (positions s k)))) \<le> 1000" by simp
  with r a u show ?thesis by blast
qed

end
