(* ===== verification/Token_Flows.thy ===== *)
theory Token_Flows
  imports Safety
begin

text \<open>
  What the instructions do to the balances of the token accounts, given that a transfer of the
  token program moves exactly its amount: the limits that the user sets are respected, and what
  leaves a vault is what the program has computed.
\<close>

section \<open>Transfers\<close>

definition balance :: "ledger \<Rightarrow> pubkey \<Rightarrow> nat" where
  "balance l key = (case token_accounts l key of None \<Rightarrow> 0 | Some t \<Rightarrow> unat (ta_amount t))"

text \<open>The documented effect of \<open>spl_token::transfer\<close> between two accounts.\<close>

definition transfers_exactly :: "token_ops \<Rightarrow> bool" where
  "transfers_exactly program \<longleftrightarrow>
     (\<forall>l a b authority n l'. op_transfer program l a b authority n = Ok l' \<and> a \<noteq> b \<longrightarrow>
        balance l' a + unat n = balance l a \<and> balance l' b = balance l b + unat n \<and>
        (\<forall>k. k \<noteq> a \<and> k \<noteq> b \<longrightarrow> balance l' k = balance l k))"


lemma transfers_exactlyD:
  assumes "transfers_exactly program" "op_transfer program l a b authority n = Ok l'" "a \<noteq> b"
  shows "balance l' a + unat n = balance l a" "balance l' b = balance l b + unat n"
    "k \<noteq> a \<Longrightarrow> k \<noteq> b \<Longrightarrow> balance l' k = balance l k"
  using assms unfolding transfers_exactly_def by blast+


lemma unat_add_no_overflow: "\<not> x + y < (x :: 'a::len word) \<Longrightarrow> unat (x + y) = unat x + unat y"
  using unat_plus_simple [of x y] by (simp add: not_less)

lemma sample_transfers_exactly: "transfers_exactly sample_ops"
  by (auto simp: transfers_exactly_def sample_ops_def sample_transfer_def balance_def unat_sub
      word_le_nat_alt word_less_nat_alt [symmetric] unat_add_no_overflow not_less
      split: option.splits if_splits)

text \<open>
  The change of each balance, and what a transfer contributes to it. A transfer from an account to
  itself changes nothing, as documented for \<^verbatim>\<open>spl_token::transfer\<close>.
\<close>

definition gain :: "ledger \<Rightarrow> ledger \<Rightarrow> pubkey \<Rightarrow> int" where
  "gain l l' k = int (balance l' k) - int (balance l k)"

definition sent :: "pubkey \<Rightarrow> pubkey \<Rightarrow> nat \<Rightarrow> pubkey \<Rightarrow> int" where
  "sent a b n k = (if k = b then int n else 0) - (if k = a then int n else 0)"

definition transfers_balance :: "token_ops \<Rightarrow> bool" where
  "transfers_balance program \<longleftrightarrow>
     (\<forall>l a b authority n l'. op_transfer program l a b authority n = Ok l' \<longrightarrow>
        (\<forall>k. gain l l' k = sent a b (unat n) k))"

lemma transfers_balance_twice:
  assumes "transfers_balance program" "op_transfer program l a b x n = Ok l1"
    and "op_transfer program l1 c d y m = Ok l2"
  shows "gain l l2 k = sent a b (unat n) k + sent c d (unat m) k"
proof -
  have "gain l l1 k = sent a b (unat n) k" "gain l1 l2 k = sent c d (unat m) k"
    using assms unfolding transfers_balance_def by blast+
  then show ?thesis by (simp add: gain_def)
qed

lemma sample_transfers_balance: "transfers_balance sample_ops"
  unfolding transfers_balance_def
proof (intro allI impI)
  fix l a b authority n l' k
  assume t: "op_transfer sample_ops l a b authority n = Ok l'"
  then have ne: "a \<noteq> b"
    by (auto simp: sample_ops_def sample_transfer_def split: option.splits if_splits)
  note 1 = transfers_exactlyD [OF sample_transfers_exactly t ne]
  have "gain l l' a = - int (unat n)" "gain l l' b = int (unat n)"
    unfolding gain_def using 1(1,2) by linarith+
  with 1(3) [of k] ne show "gain l l' k = sent a b (unat n) k"
    by (cases "k = a"; cases "k = b") (simp_all add: sent_def, simp add: gain_def)
qed

section \<open>Swaps\<close>


lemma swap_step_flow:
  assumes "swap p arrays amount lmt inp atb ts = Ok (upd, arrays')"
  shows "inp \<Longrightarrow> (if atb then amount_a upd else amount_b upd) \<le> amount \<and>
      ((if atb then amount_a upd else amount_b upd) = amount \<or> next_sqrt_price upd = lmt)"
    and "\<not> inp \<Longrightarrow> (if atb then amount_b upd else amount_a upd) \<le> amount \<and>
      ((if atb then amount_b upd else amount_a upd) = amount \<or> next_sqrt_price upd = lmt)"
  using swap_specified_amount [OF assms] by (cases atb; simp)+

section \<open>Fees and rewards\<close>

lemma calculate_collect_reward_pays:
  "unat (fst (calculate_collect_reward r v)) = min (unat (amount_owed r)) (unat v)"
  "unat (snd (calculate_collect_reward r v)) = unat (amount_owed r) - min (unat (amount_owed r)) (unat v)"
  by (auto simp: calculate_collect_reward_def Let_def unat_sub word_le_nat_alt word_less_nat_alt split: if_splits)

lemma collect_fees_gain:
  assumes "transfers_balance (ops e)" "collect_fees e a s = Ok s'"
  obtains p pos where "pools s (cf_pool a) = Some p" "positions s (cf_position a) = Some pos"
    "positions s' (cf_position a) = Some (reset_fees_owed pos)"
    "\<And>k. gain (tokens s) (tokens s') k = sent (token_vault_a p) (cf_token_owner_account_a a) (unat (fee_owed_a pos)) k +
       sent (token_vault_b p) (cf_token_owner_account_b a) (unat (fee_owed_b pos)) k"
  using assms(2)
proof (rule collect_fees_OkE)
  fix p pos l l'
  assume p: "pools s (cf_pool a) = Some p" "positions s (cf_position a) = Some pos"
    and v: "cf_token_vault_a a = token_vault_a p" "cf_token_vault_b a = token_vault_b p"
    and o: "op_transfer (ops e) (tokens s) (cf_token_vault_a a) (cf_token_owner_account_a a) (cf_pool a)
       (fee_owed_a pos) = Ok l"
    "op_transfer (ops e) l (cf_token_vault_b a) (cf_token_owner_account_b a) (cf_pool a)
       (fee_owed_b pos) = Ok l'"
    and s': "s' = s\<lparr>positions := (positions s)(cf_position a \<mapsto> reset_fees_owed pos), tokens := l'\<rparr>"
  show thesis
    by (rule that [OF p]) (simp_all add: s' transfers_balance_twice [OF assms(1) o] v)
qed

lemma collect_reward_gain:
  assumes "transfers_balance (ops e)" "collect_reward e a i s = Ok s'"
  obtains p pos pos' where "pools s (cr_pool a) = Some p" "positions s (cr_position a) = Some pos"
    "positions s' (cr_position a) = Some pos'" "unat i < 3"
    "let vault = reward_vault (arr_list (pool_reward_infos p) ! unat i);
         owed = unat (amount_owed (arr_list (position_reward_infos pos) ! unat i));
         paid = min owed (balance (tokens s) vault)
     in unat (amount_owed (arr_list (position_reward_infos pos') ! unat i)) = owed - paid \<and>
        (\<forall>k. gain (tokens s) (tokens s') k = sent vault (cr_reward_owner_account a) paid k)"
  using assms(2)
proof (rule collect_reward_OkE)
  fix p pos info reward vault pos' l
  assume p: "pools s (cr_pool a) = Some p" "positions s (cr_position a) = Some pos"
    and info: "arr_get (pool_reward_infos p) (unat i) = Ok info" "cr_reward_vault a = reward_vault info"
    and v: "token_accounts (tokens s) (cr_reward_vault a) = Some vault"
    and r: "arr_get (position_reward_infos pos) (unat i) = Ok reward"
    and u: "update_reward_owed (unat i) (snd (calculate_collect_reward reward (ta_amount vault))) pos = Ok pos'"
    and o: "op_transfer (ops e) (tokens s) (cr_reward_vault a) (cr_reward_owner_account a) (cr_pool a)
       (fst (calculate_collect_reward reward (ta_amount vault))) = Ok l"
    and s': "s' = s\<lparr>positions := (positions s)(cr_position a \<mapsto> pos'), tokens := l\<rparr>"
  have i: "unat i < 3" "reward = arr_list (position_reward_infos pos) ! unat i"
    "info = arr_list (pool_reward_infos p) ! unat i" using r info(1) by auto
  have pos': "position_reward_infos pos' = arr_put (position_reward_infos pos) (unat i)
      (reward\<lparr>amount_owed := snd (calculate_collect_reward reward (ta_amount vault))\<rparr>)"
    using u i by (auto simp: update_reward_owed_def and_then_Inr_iff)
  have g: "gain (tokens s) (tokens s') k = sent (reward_vault info) (cr_reward_owner_account a)
      (min (unat (amount_owed reward)) (balance (tokens s) (reward_vault info))) k" for k
    using assms(1) o v unfolding transfers_balance_def info(2)
    by (simp add: s' balance_def calculate_collect_reward_pays)
  have "unat (amount_owed (arr_list (position_reward_infos pos') ! unat i)) = unat (amount_owed reward) -
      min (unat (amount_owed reward)) (balance (tokens s) (reward_vault info))"
    using v i(1) by (simp add: pos' arr_list_put calculate_collect_reward_pays balance_def info(2) [symmetric])
  with g show thesis
    by (intro that [OF p, of pos']) (simp_all add: s' i(1) Let_def flip: i(2,3))
qed

section \<open>Liquidity\<close>

lemma increase_liquidity_gain:
  assumes "transfers_balance (ops e)" "increase_liquidity e a amount max_a max_b s = Ok s'"
  obtains p p' pos' x y where "pools s (ml_pool a) = Some p" "pools s' (ml_pool a) = Some p'"
    "positions s' (ml_position a) = Some pos'"
    "calculate_liquidity_token_deltas (tick_current_index p') (sqrt_price p') pos' (int (unat amount)) = Ok (x, y)"
    "x \<le> max_a" "y \<le> max_b"
    "\<And>k. gain (tokens s) (tokens s') k = sent (ml_token_owner_account_a a) (token_vault_a p) (unat x) k +
       sent (ml_token_owner_account_b a) (token_vault_b p) (unat y) k"
  using assms(2)
proof (rule increase_liquidity_OkE)
  fix p pos token delta p' pos' arrays x y l l'
  assume m: "modify_liquidity_accounts_ok e a s = Ok (p, pos, token)"
    and d: "convert_to_liquidity_delta amount True = Ok delta"
    and c: "calculate_liquidity_token_deltas (tick_current_index p') (sqrt_price p') pos' delta = Ok (x, y)"
    and le: "x \<le> max_a" "y \<le> max_b"
    and o: "op_transfer (ops e) (tokens s) (ml_token_owner_account_a a) (ml_token_vault_a a)
       (ml_position_authority a) x = Ok l"
    "op_transfer (ops e) l (ml_token_owner_account_b a) (ml_token_vault_b a)
       (ml_position_authority a) y = Ok l'"
    and s': "s' = s\<lparr>pools := (pools s)(ml_pool a \<mapsto> p'), positions := (positions s)(ml_position a \<mapsto> pos'),
           tick_arrays := arrays, tokens := l'\<rparr>"
  have "delta = int (unat amount)" using d by (simp add: convert_to_liquidity_delta_spec split: if_splits)
  with c m show thesis
    by (intro that [of p p' pos' x y])
      (simp_all add: s' le transfers_balance_twice [OF assms(1) o] modify_liquidity_accounts_OkD [OF m])
qed

lemma decrease_liquidity_gain:
  assumes "transfers_balance (ops e)" "decrease_liquidity e a amount min_a min_b s = Ok s'"
  obtains p p' pos' x y where "pools s (ml_pool a) = Some p" "pools s' (ml_pool a) = Some p'"
    "positions s' (ml_position a) = Some pos'"
    "calculate_liquidity_token_deltas (tick_current_index p') (sqrt_price p') pos' (- int (unat amount)) = Ok (x, y)"
    "min_a \<le> x" "min_b \<le> y"
    "\<And>k. gain (tokens s) (tokens s') k = sent (token_vault_a p) (ml_token_owner_account_a a) (unat x) k +
       sent (token_vault_b p) (ml_token_owner_account_b a) (unat y) k"
  using assms(2)
proof (rule decrease_liquidity_OkE)
  fix p pos token delta p' pos' arrays x y l l'
  assume m: "modify_liquidity_accounts_ok e a s = Ok (p, pos, token)"
    and d: "convert_to_liquidity_delta amount False = Ok delta"
    and c: "calculate_liquidity_token_deltas (tick_current_index p') (sqrt_price p') pos' delta = Ok (x, y)"
    and le: "min_a \<le> x" "min_b \<le> y"
    and o: "op_transfer (ops e) (tokens s) (ml_token_vault_a a) (ml_token_owner_account_a a) (ml_pool a) x = Ok l"
    "op_transfer (ops e) l (ml_token_vault_b a) (ml_token_owner_account_b a) (ml_pool a) y = Ok l'"
    and s': "s' = s\<lparr>pools := (pools s)(ml_pool a \<mapsto> p'), positions := (positions s)(ml_position a \<mapsto> pos'),
           tick_arrays := arrays, tokens := l'\<rparr>"
  have "delta = - int (unat amount)" using d by (simp add: convert_to_liquidity_delta_spec split: if_splits)
  with c m show thesis
    by (intro that [of p p' pos' x y])
      (simp_all add: s' le transfers_balance_twice [OF assms(1) o] modify_liquidity_accounts_OkD [OF m])
qed

section \<open>Properties\<close>



text \<open>C12: Changing liquidity moves exactly what \<open>calculate_liquidity_token_deltas\<close> computes for the new state of
  pool and position, within the limits of the user: a deposit sends at most the two maxima from the
  accounts that the user names to the pool's vaults, a withdrawal sends at least the two minima from the
  pool's vaults to the accounts that the user names, and no other balance changes. Assumed is that a transfer of the
  token program has its documented effect. The accounts need not be different: the code does not
  exclude that the user names a vault, and then that transfer is one from the vault to itself and
  the user gains nothing.\<close>

theorem liquidity_change_respects_limits:
  assumes "transfers_balance (ops e)"
  shows "(increase_liquidity e a amount max_a max_b s = Ok s' \<longrightarrow>
      (\<exists>p p' pos' x y. pools s (ml_pool a) = Some p \<and> pools s' (ml_pool a) = Some p' \<and>
         positions s' (ml_position a) = Some pos' \<and>
         calculate_liquidity_token_deltas (tick_current_index p') (sqrt_price p') pos' (int (unat amount)) = Ok (x, y) \<and>
         x \<le> max_a \<and> y \<le> max_b \<and>
         (\<forall>k. gain (tokens s) (tokens s') k =
            sent (ml_token_owner_account_a a) (token_vault_a p) (unat x) k +
            sent (ml_token_owner_account_b a) (token_vault_b p) (unat y) k))) \<and>
    (decrease_liquidity e a amount min_a min_b s = Ok s'' \<longrightarrow>
      (\<exists>p p' pos' x y. pools s (ml_pool a) = Some p \<and> pools s'' (ml_pool a) = Some p' \<and>
         positions s'' (ml_position a) = Some pos' \<and>
         calculate_liquidity_token_deltas (tick_current_index p') (sqrt_price p') pos' (- int (unat amount)) = Ok (x, y) \<and>
         min_a \<le> x \<and> min_b \<le> y \<and>
         (\<forall>k. gain (tokens s) (tokens s'') k =
            sent (token_vault_a p) (ml_token_owner_account_a a) (unat x) k +
            sent (token_vault_b p) (ml_token_owner_account_b a) (unat y) k)))"
  by (intro conjI impI; (erule increase_liquidity_gain [OF assms] | erule decrease_liquidity_gain [OF assms]))
    blast+

lemma liquidity_change_respects_limits_witness:
  "\<exists>s s' p x y. process sample_env (IncreaseLiquidity sample_liquidity_accounts 1000000 10000 10000) s = Ok s' \<and>
     pools s 1046 = Some p \<and> x \<le> (10000 :: u64) \<and> y \<le> (10000 :: u64) \<and>
     (\<forall>k. gain (tokens s) (tokens s') k = sent 30 (token_vault_a p) (unat x) k + sent 31 (token_vault_b p) (unat y) k)"
proof -
  obtain s2 s3 :: chain_state where
    s: "process sample_env (IncreaseLiquidity sample_liquidity_accounts 1000000 10000 10000) s2 = Ok s3"
    by (rule sample_states)
  have t: "transfers_balance (ops sample_env)" by (simp add: sample_env_def sample_transfers_balance)
  have w: "increase_liquidity sample_env sample_liquidity_accounts 1000000 10000 10000 s2 = Ok s3"
    using s by simp
  from liquidity_change_respects_limits [OF t, THEN conjunct1, rule_format, OF w] s show ?thesis
    by (simp only: sample_liquidity_accounts_def modify_liquidity_accounts.simps) blast
qed

text \<open>C13: Collecting pays what is owed and no more, given that a transfer of the token program has its
  documented effect: \<open>collect_fees\<close> sends exactly the owed fees from the pool's vaults to the accounts that
  the user names and leaves nothing owed; \<open>collect_reward\<close> sends the owed reward, or the whole balance of the
  reward's vault when that is less, and what is still owed is the rest; no other balance
  changes. The accounts need not be different: the code does not exclude that the user names the vault
  itself, and then the transfer is one from the vault to itself, the user gains nothing and
  the claim is gone.\<close>

theorem collecting_pays_what_is_owed:
  assumes "transfers_balance (ops e)"
  shows "(collect_fees e a s = Ok s' \<longrightarrow>
      (\<exists>p pos pos'. pools s (cf_pool a) = Some p \<and> positions s (cf_position a) = Some pos \<and>
         positions s' (cf_position a) = Some pos' \<and> fee_owed_a pos' = 0 \<and> fee_owed_b pos' = 0 \<and>
         (\<forall>k. gain (tokens s) (tokens s') k =
            sent (token_vault_a p) (cf_token_owner_account_a a) (unat (fee_owed_a pos)) k +
            sent (token_vault_b p) (cf_token_owner_account_b a) (unat (fee_owed_b pos)) k))) \<and>
    (collect_reward e b i s = Ok s'' \<longrightarrow>
      (\<exists>p pos pos'. pools s (cr_pool b) = Some p \<and> positions s (cr_position b) = Some pos \<and>
         positions s'' (cr_position b) = Some pos' \<and> unat i < 3 \<and>
         (let vault = reward_vault (arr_list (pool_reward_infos p) ! unat i);
              owed = unat (amount_owed (arr_list (position_reward_infos pos) ! unat i));
              paid = min owed (balance (tokens s) vault)
          in unat (amount_owed (arr_list (position_reward_infos pos') ! unat i)) = owed - paid \<and>
             (\<forall>k. gain (tokens s) (tokens s'') k = sent vault (cr_reward_owner_account b) paid k))))"
proof (intro conjI impI)
  assume c: "collect_fees e a s = Ok s'"
  show "\<exists>p pos pos'. pools s (cf_pool a) = Some p \<and> positions s (cf_position a) = Some pos \<and>
         positions s' (cf_position a) = Some pos' \<and> fee_owed_a pos' = 0 \<and> fee_owed_b pos' = 0 \<and>
         (\<forall>k. gain (tokens s) (tokens s') k =
            sent (token_vault_a p) (cf_token_owner_account_a a) (unat (fee_owed_a pos)) k +
            sent (token_vault_b p) (cf_token_owner_account_b a) (unat (fee_owed_b pos)) k)"
    by (rule collect_fees_gain [OF assms c]) (auto simp: reset_fees_owed_def)
next
  assume c: "collect_reward e b i s = Ok s''"
  show "\<exists>p pos pos'. pools s (cr_pool b) = Some p \<and> positions s (cr_position b) = Some pos \<and>
         positions s'' (cr_position b) = Some pos' \<and> unat i < 3 \<and>
         (let vault = reward_vault (arr_list (pool_reward_infos p) ! unat i);
              owed = unat (amount_owed (arr_list (position_reward_infos pos) ! unat i));
              paid = min owed (balance (tokens s) vault)
          in unat (amount_owed (arr_list (position_reward_infos pos') ! unat i)) = owed - paid \<and>
             (\<forall>k. gain (tokens s) (tokens s'') k = sent vault (cr_reward_owner_account b) paid k))"
    by (rule collect_reward_gain [OF assms c]) blast
qed

lemma collecting_pays_what_is_owed_witness:
  "\<exists>s s' p pos'. process sample_env (CollectFees sample_fees_accounts) s = Ok s' \<and>
     pools s 1046 = Some p \<and> positions s' 1058 = Some pos' \<and> fee_owed_a pos' = 0 \<and> fee_owed_b pos' = 0 \<and>
     (\<exists>n m. \<forall>k. gain (tokens s) (tokens s') k = sent (token_vault_a p) 30 n k + sent (token_vault_b p) 31 m k)"
proof -
  obtain s5 s6 :: chain_state where s: "process sample_env (CollectFees sample_fees_accounts) s5 = Ok s6"
    by (rule sample_states)
  have t: "transfers_balance (ops sample_env)" by (simp add: sample_env_def sample_transfers_balance)
  have w: "collect_fees sample_env sample_fees_accounts s5 = Ok s6" using s by simp
  from collecting_pays_what_is_owed [OF t, THEN conjunct1, rule_format, OF w] s show ?thesis
    by (simp only: sample_fees_accounts_def collect_fees_accounts.simps) blast
qed

text \<open>C14: The two calculations of a two-hop swap fit together. With a given input, the second pool takes
  at most what the first one pays out, and all of it unless its price reaches the limit; with a
  given output, the first pool pays at most what the second one takes, and all of it unless its
  price reaches the limit. The specified amount bounds the specified side.\<close>

theorem two_hop_amounts_fit:
  assumes "two_hop_calculation p1 p2 arrays1 arrays2 amount limit1 limit2 is_input one two ts =
    Ok ((upd1, arrays1'), (upd2, arrays2'))"
  defines "in1 \<equiv> if one then amount_a upd1 else amount_b upd1"
    and "out1 \<equiv> if one then amount_b upd1 else amount_a upd1"
    and "in2 \<equiv> if two then amount_a upd2 else amount_b upd2"
    and "out2 \<equiv> if two then amount_b upd2 else amount_a upd2"
  shows "if is_input then in1 \<le> amount \<and> in2 \<le> out1 \<and> (in2 = out1 \<or> next_sqrt_price upd2 = limit2)
    else out2 \<le> amount \<and> out1 \<le> in2 \<and> (out1 = in2 \<or> next_sqrt_price upd1 = limit1)"
proof (rule two_hop_calculation_OkE [OF assms(1)])
  fix amount1 amount2
  assume 1: "swap p1 arrays1 amount1 limit1 is_input one ts = Ok (upd1, arrays1')"
    and 2: "swap p2 arrays2 amount2 limit2 is_input two ts = Ok (upd2, arrays2')"
    and "if is_input then amount1 = amount \<and> amount2 = (if one then amount_b upd1 else amount_a upd1)
      else amount2 = amount \<and> amount1 = (if two then amount_a upd2 else amount_b upd2)"
  then show ?thesis
    using swap_step_flow [OF 1] swap_step_flow [OF 2]
    by (cases is_input) (simp_all add: in1_def out1_def in2_def out2_def)
qed

lemma two_hop_amounts_fit_witness:
  "\<exists>upd1 arrays1 upd2 arrays2. two_hop_calculation sample_swap_pool sample_swap_pool [sample_swap_array]
     [sample_swap_array] 1000 19599665578316398592 19599665578316398592 True False False 0 =
       Ok ((upd1, arrays1), (upd2, arrays2)) \<and> amount_b upd1 \<le> 1000 \<and> amount_b upd2 \<le> amount_a upd1"
proof -
  have "swap sample_swap_pool [sample_swap_array] 996 19599665578316398592 True False 0 =
     Ok (\<lparr>amount_a = 992, amount_b = 996, next_liquidity = 1000000, next_tick_index = 19,
          next_sqrt_price = 18465061690574745200, next_fee_growth_global = 55340232221128,
          next_reward_infos = arr_const default_reward_info, next_protocol_fee = 0\<rparr>,
         [sample_swap_array])"
  proof (rule sample_round)
    show "compute_swap 996 3000 1000000 18446744073709551616 19599665578316398592 True False =
      Ok \<lparr>amount_in = 993, amount_out = 992, next_price = 18465061690574745200, fee_amount = 3\<rparr>"
      by code_simp
    show "tick_index_from_sqrt_price 18465061690574745200 = Ok 19" by code_simp
  qed (simp_all add: checked_sub_def)
  with sample_swap obtain upd1 upd2 where c: "two_hop_calculation sample_swap_pool sample_swap_pool
      [sample_swap_array] [sample_swap_array] 1000 19599665578316398592 19599665578316398592 True False False 0 =
      Ok ((upd1, [sample_swap_array]), (upd2, [sample_swap_array]))"
    by (simp add: two_hop_calculation_def)
  from two_hop_amounts_fit [OF c] c show ?thesis by auto
qed

end
