(* ===== verification/Spec2Isabelle.thy ===== *)
theory Spec2Isabelle
  imports Bundle_Books Fee_Shares Token_Flows
begin

text \<open>
  A model of the Elysium program (\<^verbatim>\<open>programs/elysium/src\<close>), an automated market maker with
  concentrated liquidity on Solana, and the theorems that make its parts correct.

  A pool trades two tokens at a price. Its liquidity is given by positions, each on a range of
  ticks (powers of 1.0001); a swap moves the price through the ticks that the tick arrays hold
  and changes the pool's liquidity as it crosses them. Fees and rewards are accounted for by
  growths per unit of liquidity, which the ticks split into a part below and a part above them.

  \<^bold>\<open>Theories and code.\<close>

  \<^item> \<open>Prelude\<close>: the result of a fallible function (\<open>fault + 'a\<close>: an error code, a panic, a
    constraint of the account layer, or fuel that ran out), the checked and wrapping operations
    of Rust's integers, evaluation lemmas. \<open>Errors\<close>: \<^verbatim>\<open>errors.rs\<close>.
  \<^item> \<open>U256_Math\<close>, \<open>U256_Div\<close>: \<^verbatim>\<open>math/u256_math.rs\<close>, a 256-bit number as four words, every
    operation against the integer it stands for.
  \<^item> \<open>Bit_Math\<close>, \<open>Token_Math\<close>, \<open>Swap_Math\<close>, \<open>Tick_Math\<close>: \<^verbatim>\<open>math/bit_math.rs\<close> and
    \<^verbatim>\<open>liquidity_math.rs\<close>, \<^verbatim>\<open>token_math.rs\<close>, \<^verbatim>\<open>swap_math.rs\<close>, \<^verbatim>\<open>tick_math.rs\<close>.
  \<^item> \<open>Pool_State\<close>, \<open>Tick_State\<close>, \<open>Position_State\<close>: the accounts of \<^verbatim>\<open>state/*.rs\<close> as records with
    the operations of their \<^verbatim>\<open>impl\<close> blocks.
  \<^item> \<open>Managers\<close>, \<open>Liquidity_Manager\<close>, \<open>Swap_Manager\<close>: \<^verbatim>\<open>manager/*.rs\<close> and
    \<^verbatim>\<open>util/swap_tick_sequence.rs\<close>.
  \<^item> \<open>Accounts\<close>, \<open>Token_Util\<close>: the account constraints, \<^verbatim>\<open>util/*.rs\<close>; the token and metadata
    programs are functions of the record \<open>token_ops\<close>, the derivation of addresses, the clock and
    the signatures are fields of \<open>env\<close>.
  \<^item> \<open>Instructions_Config\<close>, \<open>Instructions_Position\<close>, \<open>Instructions_Liquidity\<close>,
    \<open>Instructions_Swap\<close>: one definition per file of \<^verbatim>\<open>instructions/\<close>, the constraints of its
    accounts struct and its handler. \<open>Program\<close>: \<^verbatim>\<open>lib.rs\<close>, the dispatch and the step relation.

  \<^bold>\<open>What the lemmas show.\<close>

  \<^item> \<open>U256_Math\<close>, \<open>U256_Div\<close>: every operation computes the one of the integers, modulo \<open>2 ^ 256\<close>
    where it wraps; the long division returns quotient and remainder or panics, exactly where \<open>div_overshoots\<close> says.
  \<^item> \<open>Token_Math\<close>, \<open>Swap_Math\<close>: the rounding of amounts and prices favours the pool, and a step of
    a swap stays within the amount and the target price it was given.
  \<^item> \<open>Tick_Math\<close>, \<open>Tick_Index\<close>: prices increase with the tick; the tick of a price is the largest one
    whose price is at most it. Every entry of the table is compared with the power of \<open>sqrt 1.0001\<close> it
    stands for, and the estimate of the code with the logarithm to base 2.
  \<^item> \<open>Pool_State\<close>, \<open>Tick_State\<close>, \<open>Position_State\<close>: constructors and setters on every branch, the
    search of an array for its next initialized tick, the bitmap of a bundle as a set of slots.
  \<^item> \<open>Managers\<close>, \<open>Liquidity_Manager\<close>: the growth inside a range, what crossing a tick does to it, and
    how a change of liquidity moves position, ticks and pool together.
  \<^item> \<open>Swap_Manager\<close>, \<open>Swap_Price\<close>, \<open>Swap_Termination\<close>: invariants of the swap loop: the amount it may
    trade, the price and its limit, the tick that belongs to the price, and that the loop ends.
  \<^item> \<open>Instructions_Config\<close> to \<open>Instructions_Swap\<close>: for each handler an elimination rule \<open>_OkE\<close> with what a
    successful call has checked and written. The theories about whole runs rest on these rules.
  \<^item> \<open>Sample_Chain\<close>: a concrete environment and a script that runs on it, for the witnesses.
  \<^item> \<open>Safety\<close>: over all entry points, which part of a pool, a position or a config each signer may
    change. \<open>Token_Flows\<close>: the balances that the instructions move, against the limits of the user
    and the amounts that the program owes.
  \<^item> \<open>Invariants\<close>, \<open>Prices\<close>: what holds of the accounts of every reachable state: the caps of the rates,
    the shape of the tick arrays, the ranges of the positions, and that each price matches its tick.
  \<^item> \<open>Liquidity_Sums\<close>, \<open>Tick_Ledger\<close>, \<open>Swap_Ledger\<close>, \<open>Liquidity_Ledger\<close>, \<open>Market_Books\<close>: the books
    of a market. The sum over the positions of a pool is the abstract state; the liquidity of the
    pool is the part of it around the current tick, and the entries of a tick are the parts that begin and
    end there. \<open>Tick_Ledger\<close> shows it of a change of liquidity, \<open>Swap_Ledger\<close> of a swap, which visits on its way every
    tick where a position begins or ends, \<open>Liquidity_Ledger\<close> of each handler and \<open>Market_Books\<close> of
    a run; there it follows that no part of the bookkeeping refuses a withdrawal.
  \<^item> \<open>Fee_Shares\<close>: the liquidity of a pool being that of its active positions, what these and the
    protocol are credited for a fee is at most the fee.
  \<^item> \<open>Bundle_Books\<close>: in every state of a run the open slots of a bundle are its existing positions.

  \<^bold>\<open>Interfaces.\<close> \<open>capped_setter\<close> (a rate that is stored only up to a maximum; four setters),
  \<open>tick_store\<close> (get and update of ticks; a tick array and a sequence of them), \<open>slot_set\<close> (the
  slots of a bundle), \<open>growth_range\<close> (a growth accounted inside and outside a range of ticks),
  \<open>stake_weight\<close> (a sum over positions to which a position without liquidity contributes nothing; the
  liquidity of a pool, its active part, and the gross and the net liquidity of a tick).

  \<^bold>\<open>Assumptions.\<close> \<open>reachable\<close> allows any environment at every step. \<open>market_run\<close> fixes the derivation of
  addresses and the decimal text of an integer (\<open>same_platform\<close>), since two arrays of a pool at the
  same start would hold the same tick twice; clock, signatures and token programs remain arbitrary. It
  counts the liquidity that the run has added, which the theorems bound by \<open>2 ^ 127\<close>: a
  net liquidity of \<open>-2 ^ 127\<close> has no negation in \<open>i128\<close>, and a swap that crosses the tick downwards
  negates it. \<open>separate_addresses\<close> says that the position of a mint and the slots of a bundle with that mint
  have different addresses. \<open>transfers_exactly\<close> and \<open>transfers_balance\<close> are the documented effect of a token transfer, the
  first between different accounts only, the second also from an account to itself, which changes
  nothing; only \<open>Token_Flows\<close> uses them. The code does not exclude that a user names a vault as the
  destination of a payment; the theorems on liquidity, fees and rewards cover that case, where the
  user gains nothing, the one on swaps assumes different accounts. Each assumption is shown to hold of
  the environment of \<open>Sample_Chain\<close>.

  \<^bold>\<open>Bounds and fuel.\<close> Words have their width in the code (\<open>u8\<close> to \<open>u128\<close>); a signed integer is an
  \<open>int\<close> whose wrap-around is written out (\<open>wrap_i32\<close>, \<open>wrap_i128\<close>). Arithmetic outside \<open>checked_*\<close>
  wraps, as in the release build. The correction of a quotient digit runs at most three times, which
  \<open>u256_div_total\<close> shows to be enough. The swap loop has the fuel \<open>swap_fuel\<close>, more than the
  number of ticks of the arrays; running out of it would be the fault \<open>Diverge\<close>, which \<open>swap_terminates\<close>
  excludes: every round but the last moves the search past a tick of the arrays.

  \<^bold>\<open>Not modelled.\<close> Text output (\<^verbatim>\<open>Display\<close>, \<^verbatim>\<open>msg!\<close>), the byte layout of accounts, the system
  program, rent and lamports, \<^verbatim>\<open>math/bn.rs\<close> (used by the tests only), the tests and the
  TypeScript SDK.
\<close>

end
